(* ===== verification/Prelude.thy ===== *)
theory Prelude
  imports Main "HOL-Library.Word" "HOL-Library.List_Lexorder"
begin

text \<open>
  What the components share: the exceptions of the program as values, the state and exception
  monad in which the stateful operations are written, the machine integer and byte types, and
  the generic lemmas on lists and words the component proofs use.

  An operation of the program that changes a state of type \<open>'s\<close> and returns an \<open>'a\<close> is a
  function \<open>'s \<Rightarrow> (error + 'a) \<times> 's\<close>: it returns a value or throws, and in both cases it
  leaves a state, as a C++ member function does.
\<close>

section \<open>Machine types\<close>

type_synonym u8 = "8 word"
type_synonym u16 = "16 word"
type_synonym u32 = "32 word"
type_synonym u64 = "64 word"

text \<open>A \<^verbatim>\<open>std::vector<uint8_t>\<close> (and a \<^verbatim>\<open>std::span\<close> over one).\<close>

type_synonym Bytes = "u8 list"

section \<open>Exceptions\<close>

text \<open>
  The exceptions the modelled code throws, with their message. Two values are no C++
  exception: \<open>UndefinedBehaviour\<close> marks a step outside what the language defines (an array
  read past its end, a null pointer followed), \<open>OutOfFuel\<close> a recursion deeper than the
  model's bound. Theorems about an operation show that neither is reached.
\<close>

datatype error =
    DecodeError string
  | RuntimeError string
  | LogicError string
  | InvalidArgument string
  | LengthError string
  | MaintenanceStopping
  | UndefinedBehaviour
  | OutOfFuel

type_synonym 'a result = "error + 'a"
type_synonym ('s, 'a) prog = "'s \<Rightarrow> 'a result \<times> 's"

section \<open>The state and exception monad\<close>

named_theorems prog_simps \<open>evaluation of the monad's combinators\<close>

definition retM :: "'a \<Rightarrow> ('s, 'a) prog" where
  "retM x = (\<lambda>s. (Inr x, s))"

definition raiseM :: "error \<Rightarrow> ('s, 'a) prog" where
  "raiseM e = (\<lambda>s. (Inl e, s))"

definition bindM :: "('s, 'a) prog \<Rightarrow> ('a \<Rightarrow> ('s, 'b) prog) \<Rightarrow> ('s, 'b) prog" where
  "bindM m f = (\<lambda>s. case m s of (Inl e, s') \<Rightarrow> (Inl e, s') | (Inr x, s') \<Rightarrow> f x s')"

definition getM :: "('s, 's) prog" where
  "getM = (\<lambda>s. (Inr s, s))"

definition modifyM :: "('s \<Rightarrow> 's) \<Rightarrow> ('s, unit) prog" where
  "modifyM f = (\<lambda>s. (Inr (), f s))"

definition liftM :: "'a result \<Rightarrow> ('s, 'a) prog" where
  "liftM r = (\<lambda>s. (r, s))"

text \<open>A result passed on, as an exception unwinding through a pure function.\<close>

definition bindR :: "'a result \<Rightarrow> ('a \<Rightarrow> 'b result) \<Rightarrow> 'b result" where
  "bindR r f = (case r of Inl e \<Rightarrow> Inl e | Inr x \<Rightarrow> f x)"

text \<open>The loop \<^verbatim>\<open>for (i = 0; i < n; ++i) out.push_back(m())\<close>.\<close>

fun repeatM :: "nat \<Rightarrow> ('s, 'a) prog \<Rightarrow> ('s, 'a list) prog" where
  "repeatM 0 m = retM []"
| "repeatM (Suc n) m = bindM m (\<lambda>x. bindM (repeatM n m) (\<lambda>xs. retM (x # xs)))"

text \<open>The loop \<^verbatim>\<open>for (const auto& x : xs) f(x)\<close>.\<close>

fun forM :: "('a \<Rightarrow> ('s, unit) prog) \<Rightarrow> 'a list \<Rightarrow> ('s, unit) prog" where
  "forM f [] = retM ()"
| "forM f (x # xs) = bindM (f x) (\<lambda>_. forM f xs)"

text \<open>Loops that thread a value: \<^verbatim>\<open>for (x : xs) acc = f(acc, x)\<close>, with and without a state.\<close>

fun foldM :: "('b \<Rightarrow> 'a \<Rightarrow> ('s, 'b) prog) \<Rightarrow> 'b \<Rightarrow> 'a list \<Rightarrow> ('s, 'b) prog" where
  "foldM f acc [] = retM acc"
| "foldM f acc (x # xs) = bindM (f acc x) (\<lambda>acc'. foldM f acc' xs)"

fun foldR :: "('b \<Rightarrow> 'a \<Rightarrow> 'b result) \<Rightarrow> 'b \<Rightarrow> 'a list \<Rightarrow> 'b result" where
  "foldR f acc [] = Inr acc"
| "foldR f acc (x # xs) = bindR (f acc x) (\<lambda>acc'. foldR f acc' xs)"

fun mapM :: "('a \<Rightarrow> ('s, 'b) prog) \<Rightarrow> 'a list \<Rightarrow> ('s, 'b list) prog" where
  "mapM f [] = retM []"
| "mapM f (x # xs) = bindM (f x) (\<lambda>y. bindM (mapM f xs) (\<lambda>ys. retM (y # ys)))"

text \<open>An operation of a member run on the object that has it.\<close>

definition zoomM :: "('s \<Rightarrow> 't) \<Rightarrow> ('t \<Rightarrow> 's \<Rightarrow> 's) \<Rightarrow> ('t, 'a) prog \<Rightarrow> ('s, 'a) prog" where
  "zoomM get put m = (\<lambda>s. case m (get s) of (r, t) \<Rightarrow> (r, put t s))"

text \<open>
  The runs of equal keys of a list, in order: what the loops that scan with
  \<^verbatim>\<open>std::find_if\<close> for the first element of another key go over.
\<close>

function runs :: "('a \<Rightarrow> 'k) \<Rightarrow> 'a list \<Rightarrow> ('k \<times> 'a list) list" where
  "runs key [] = []"
| "runs key (x # xs) =
     (key x, x # takeWhile (\<lambda>y. key y = key x) xs) # runs key (dropWhile (\<lambda>y. key y = key x) xs)"
  by pat_completeness auto
termination
  by (relation "measure (\<lambda>(_, xs). length xs)") (auto simp: less_Suc_eq_le length_dropWhile_le)

lemma retM_apply [prog_simps, simp]: "retM x s = (Inr x, s)"
  by (simp add: retM_def)

lemma raiseM_apply [prog_simps, simp]: "raiseM e s = (Inl e, s)"
  by (simp add: raiseM_def)

lemma getM_apply [prog_simps, simp]: "getM s = (Inr s, s)"
  by (simp add: getM_def)

lemma modifyM_apply [prog_simps, simp]: "modifyM f s = (Inr (), f s)"
  by (simp add: modifyM_def)

lemma liftM_apply [prog_simps, simp]: "liftM r s = (r, s)"
  by (simp add: liftM_def)

lemma bindM_Inr [prog_simps]: "m s = (Inr x, s') \<Longrightarrow> bindM m f s = f x s'"
  by (simp add: bindM_def)

lemma bindM_Inl [prog_simps]: "m s = (Inl e, s') \<Longrightarrow> bindM m f s = (Inl e, s')"
  by (simp add: bindM_def)

lemma fst_bindM_Inl: "fst (m s) = Inl e \<Longrightarrow> fst (bindM m f s) = Inl e"
  by (cases "m s") (simp add: bindM_def)

lemma bindM_simps [simp]:
  "bindM (retM x) f = f x"
  "bindM (raiseM e) f = raiseM e"
  "bindM (liftM (Inr x)) f = f x"
  "bindM (liftM (Inl e)) f = raiseM e"
  "bindM getM f s = f s s"
  "bindM (modifyM g) f' s = f' () (g s)"
  by (simp_all add: bindM_def retM_def raiseM_def liftM_def getM_def modifyM_def)

lemma bindM_InrE:
  assumes "bindM m f s = (Inr y, t)"
  obtains x s' where "m s = (Inr x, s')" "f x s' = (Inr y, t)"
  using assms by (auto simp: bindM_def split: prod.splits sum.splits)

lemma bindM_cong [fundef_cong]:
  assumes "m s = m' s'" "\<And>x t. m' s' = (Inr x, t) \<Longrightarrow> f x t = f' x t"
  shows "bindM m f s = bindM m' f' s'"
  using assms by (auto simp: bindM_def split: prod.splits sum.splits)

lemma bindR_simps [simp]: "bindR (Inl e) f = Inl e" "bindR (Inr x) f = f x"
  by (simp_all add: bindR_def)

lemma bindR_eq_Inr: "bindR r f = Inr y \<longleftrightarrow> (\<exists>x. r = Inr x \<and> f x = Inr y)"
  by (simp add: bindR_def split: sum.splits)

lemma bindR_cong [fundef_cong]:
  assumes "r = r'" "\<And>x. r' = Inr x \<Longrightarrow> f x = f' x"
  shows "bindR r f = bindR r' f'"
  using assms by (simp add: bindR_def split: sum.splits)

lemma foldM_InrE:
  assumes "foldM f acc (x # xs) s = (Inr y, t)"
  obtains acc' s' where "f acc x s = (Inr acc', s')" "foldM f acc' xs s' = (Inr y, t)"
  using assms by (auto elim: bindM_InrE)

lemma zoomM_apply: "zoomM get put m s = (fst (m (get s)), put (snd (m (get s))) s)"
  by (simp add: zoomM_def split: prod.splits)

lemma concat_runs: "concat (map snd (runs key xs)) = xs"
  by (induction key xs rule: runs.induct) simp_all

lemma runs_key: "(k, g) \<in> set (runs key xs) \<Longrightarrow> g \<noteq> [] \<and> (\<forall>x \<in> set g. key x = k)"
proof (induction key xs rule: runs.induct)
  case (2 key x xs)
  from "2.prems" consider "k = key x" "g = x # takeWhile (\<lambda>y. key y = key x) xs"
    | "(k, g) \<in> set (runs key (dropWhile (\<lambda>y. key y = key x) xs))" by auto
  then show ?case
  proof cases
    case 1
    have "key y = k" if "y \<in> set g" for y
      using that 1 set_takeWhileD[of y "\<lambda>y. key y = key x" xs] by auto
    with 1(2) show ?thesis by blast
  qed (rule "2.IH")
qed simp

lemma runs_subset: "(k, g) \<in> set (runs key xs) \<Longrightarrow> set g \<subseteq> set xs"
proof -
  assume "(k, g) \<in> set (runs key xs)"
  then have "set g \<subseteq> set (concat (map snd (runs key xs)))" by force
  then show ?thesis by (simp only: concat_runs)
qed

text \<open>On a list sorted by the key the runs are the classes of the key.\<close>

lemma while_sorted:
  fixes key :: "'a \<Rightarrow> 'k::linorder"
  assumes "sorted (map key (x # xs))"
  shows "takeWhile (\<lambda>y. key y = key x) xs = filter (\<lambda>y. key y = key x) xs \<and>
    dropWhile (\<lambda>y. key y = key x) xs = filter (\<lambda>y. key y \<noteq> key x) xs"
  using assms
proof (induction xs)
  case (Cons a xs)
  show ?case
  proof (cases "key a = key x")
    case False
    with Cons.prems have "\<forall>y \<in> set xs. key y \<noteq> key x" by force
    with False show ?thesis by simp
  qed (use Cons in simp)
qed simp

lemma runs_sorted_Cons:
  fixes key :: "'a \<Rightarrow> 'k::linorder"
  assumes "sorted (map key (x # xs))"
  shows "runs key (x # xs) =
    (key x, filter (\<lambda>y. key y = key x) (x # xs)) # runs key (filter (\<lambda>y. key y \<noteq> key x) xs)"
  using while_sorted[OF assms] by simp

lemma runs_sorted:
  fixes key :: "'a \<Rightarrow> 'k::linorder"
  assumes "sorted (map key xs)"
  shows "distinct (map fst (runs key xs)) \<and> fst ` set (runs key xs) = key ` set xs \<and>
    (\<forall>(k, g) \<in> set (runs key xs). g = filter (\<lambda>x. key x = k) xs)"
  using assms
proof (induction xs rule: length_induct)
  case (1 xs)
  show ?case
  proof (cases xs)
    case (Cons x ys)
    let ?zs = "filter (\<lambda>y. key y \<noteq> key x) ys"
    have s: "sorted (map key ?zs)" using 1(2) Cons by (simp add: sorted_filter)
    have "length ?zs < length xs" using Cons by (simp add: le_imp_less_Suc)
    with 1(1) s have "distinct (map fst (runs key ?zs)) \<and> fst ` set (runs key ?zs) = key ` set ?zs \<and>
        (\<forall>(k, g) \<in> set (runs key ?zs). g = filter (\<lambda>x. key x = k) ?zs)" by blast
    then have IH: "distinct (map fst (runs key ?zs))"
      "fst ` set (runs key ?zs) = key ` set ?zs"
      "\<forall>(k, g) \<in> set (runs key ?zs). g = filter (\<lambda>x. key x = k) ?zs" by blast+
    have eq: "runs key xs = (key x, filter (\<lambda>y. key y = key x) xs) # runs key ?zs"
      using runs_sorted_Cons[of key x ys] 1(2) Cons by simp
    have "g = filter (\<lambda>x. key x = k) xs" if "(k, g) \<in> set (runs key ?zs)" for k g
    proof -
      have "k \<noteq> key x" using that IH(2) by force
      then have "filter (\<lambda>x. key x = k) ?zs = filter (\<lambda>x. key x = k) xs"
        using Cons by (auto intro!: filter_cong)
      with that IH(3) show ?thesis by auto
    qed
    with IH(1,2) Cons show ?thesis unfolding eq by auto
  qed simp
qed

lemma map_of_runs:
  fixes key :: "'a \<Rightarrow> 'k::linorder"
  assumes "sorted (map key xs)"
  shows "map_of (runs key xs) k =
    (let g = filter (\<lambda>x. key x = k) xs in if g = [] then None else Some g)"
proof -
  note r = runs_sorted[OF assms]
  show ?thesis
  proof (cases "k \<in> key ` set xs")
    case True
    then have "k \<in> fst ` set (runs key xs)" using r by simp
    then obtain g where g: "(k, g) \<in> set (runs key xs)" by force
    then have "map_of (runs key xs) k = Some g" using r by (intro map_of_is_SomeI) blast+
    moreover have "g = filter (\<lambda>x. key x = k) xs" using r g by blast
    moreover have "filter (\<lambda>x. key x = k) xs \<noteq> []" using True by (auto simp: filter_empty_conv)
    ultimately show ?thesis by (simp add: Let_def)
  next
    case False
    then have "k \<notin> fst ` set (runs key xs)" using r by simp
    then have "map_of (runs key xs) k = None" by (simp only: map_of_eq_None_iff not_False_eq_True)
    moreover have "filter (\<lambda>x. key x = k) xs = []" using False by (auto simp: filter_empty_conv)
    ultimately show ?thesis by simp
  qed
qed

text \<open>A loop that stores one result per key in a table indexed by the key.\<close>

lemma foldl_store_nth:
  fixes gs :: "(u8 \<times> 'g) list"
  assumes "distinct (map fst gs)" "i < length cs" "i < 256"
  shows "foldl (\<lambda>cs g. cs[unat (fst g) := h (snd g)]) cs gs ! i =
    (case map_of gs (of_nat i) of None \<Rightarrow> cs ! i | Some g \<Rightarrow> h g)"
  using assms
proof (induction gs arbitrary: cs)
  case (Cons g gs)
  have i: "unat (of_nat i :: u8) = i" using Cons.prems(3) by (simp add: unat_of_nat take_bit_nat_eq_self)
  show ?case
  proof (cases "fst g = of_nat i")
    case True
    then have "map_of gs (of_nat i) = None" using Cons.prems(1) by (auto simp: map_of_eq_None_iff)
    with True Cons i show ?thesis by (cases g) simp
  next
    case False
    then have "unat (fst g) \<noteq> i" using i by (metis word_unat_eq_iff)
    with False Cons show ?thesis by (cases g) (auto split: option.splits)
  qed
qed simp

lemma length_foldl_store [simp]:
  "length (foldl (\<lambda>cs g. cs[f g := h g]) cs gs) = length cs"
  by (induction gs arbitrary: cs) simp_all

lemma foldR_store:
  assumes "\<And>g. g \<in> set gs \<Longrightarrow> F (snd g) = Inr (h (snd g))"
  shows "foldR (\<lambda>cs g. bindR (F (snd g)) (\<lambda>c. Inr (cs[unat (fst g) := c]))) cs gs =
    Inr (foldl (\<lambda>cs g. cs[unat (fst g) := h (snd g)]) cs gs)"
  using assms by (induction gs arbitrary: cs) simp_all

text \<open>Runs of a list in parts, and of keys renamed.\<close>

lemma runs_append:
  assumes "xs \<noteq> []" "ys \<noteq> []" "key (last xs) \<noteq> key (hd ys)"
  shows "runs key (xs @ ys) = runs key xs @ runs key ys"
  using assms
proof (induction key xs rule: runs.induct)
  case (2 key x xs)
  let ?P = "\<lambda>y. key y = key x"
  show ?case
  proof (cases "\<forall>y \<in> set xs. ?P y")
    case True
    then have "key (last (x # xs)) = key x" by (cases "xs = []") simp_all
    then have "\<not> ?P (hd ys)" using "2.prems"(3) by simp
    then have "takeWhile ?P ys = []" "dropWhile ?P ys = ys" using "2.prems"(2) by (cases ys; simp)+
    then have "takeWhile ?P (xs @ ys) = xs" "dropWhile ?P (xs @ ys) = ys"
      using True by (simp_all add: takeWhile_append2 dropWhile_append2)
    moreover have "takeWhile ?P xs = xs" "dropWhile ?P xs = []"
      using True by (simp_all add: takeWhile_eq_all_conv dropWhile_eq_Nil_conv)
    ultimately show ?thesis by (simp only: append_Cons append_Nil runs.simps)
  next
    case False
    then obtain y where y: "y \<in> set xs" "\<not> ?P y" by blast
    have ne: "dropWhile ?P xs \<noteq> []" using y by (auto simp: dropWhile_eq_Nil_conv)
    moreover have "last (dropWhile ?P xs) = last (x # xs)"
      using ne y(1) by (metis dropWhile_eq_Nil_conv last_ConsR last_appendR length_greater_0_conv
          length_pos_if_in_set takeWhile_dropWhile_id)
    ultimately show ?thesis
      using "2.IH" "2.prems"(2,3) y by (simp add: takeWhile_append1 dropWhile_append1)
  qed
qed simp

lemma runs_inj:
  assumes "inj h" shows "runs (\<lambda>x. h (key x)) xs = map (\<lambda>(k, g). (h k, g)) (runs key xs)"
  by (induction key xs rule: runs.induct) (simp_all add: inj_eq[OF assms])

lemma runs_constant: "xs \<noteq> [] \<Longrightarrow> \<forall>x \<in> set xs. key x = k \<Longrightarrow> runs key xs = [(k, xs)]"
proof (cases xs)
  case (Cons x ys)
  moreover assume "\<forall>x \<in> set xs. key x = k"
  ultimately have "takeWhile (\<lambda>y. key y = key x) ys = ys" "dropWhile (\<lambda>y. key y = key x) ys = []"
    by (auto simp: takeWhile_eq_all_conv dropWhile_eq_Nil_conv)
  then have "runs key (x # ys) = [(key x, x # ys)]" by (simp only: runs.simps)
  with Cons \<open>\<forall>x \<in> set xs. key x = k\<close> show ?thesis by simp
qed simp

text \<open>The order of lists and their first elements.\<close>

lemma take_mono_list: "xs \<le> (ys :: 'a::linorder list) \<Longrightarrow> take n xs \<le> take n ys"
proof (induction n arbitrary: xs ys)
  case (Suc n)
  then show ?case by (cases xs; cases ys) auto
qed simp

lemma runs_cong: "(\<And>x. x \<in> set xs \<Longrightarrow> key x = key' x) \<Longrightarrow> runs key xs = runs key' xs"
proof (induction key xs rule: runs.induct)
  case (2 key x xs)
  have "takeWhile (\<lambda>y. key y = key x) xs = takeWhile (\<lambda>y. key' y = key' x) xs"
    "dropWhile (\<lambda>y. key y = key x) xs = dropWhile (\<lambda>y. key' y = key' x) xs"
    using "2.prems" by (auto intro!: takeWhile_cong dropWhile_cong)
  moreover have "runs key (dropWhile (\<lambda>y. key y = key x) xs) = runs key' (dropWhile (\<lambda>y. key y = key x) xs)"
    by (rule "2.IH") (use "2.prems" set_dropWhileD in fastforce)
  ultimately show ?case using "2.prems"[of x] by simp
qed simp

text \<open>Loops of reads.\<close>

lemma mapM_reads:
  assumes "good s" "\<And>x s. x \<in> set xs \<Longrightarrow> good s \<Longrightarrow> \<exists>s'. f x s = (Inr (g x), s') \<and> good s'"
  shows "\<exists>s'. mapM f xs s = (Inr (map g xs), s') \<and> good s'"
  using assms
proof (induction xs arbitrary: s)
  case (Cons x xs)
  from Cons.prems obtain s1 where 1: "f x s = (Inr (g x), s1)" "good s1" by fastforce
  from Cons.IH[OF 1(2)] Cons.prems(2) obtain s2 where "mapM f xs s1 = (Inr (map g xs), s2)" "good s2" by auto
  with 1(1) show ?case by (simp add: bindM_def)
qed simp

text \<open>What loops keep, and how many times they ran.\<close>

lemma mapM_holds:
  assumes "good s" "\<And>x s. x \<in> set xs \<Longrightarrow> good s \<Longrightarrow> \<exists>y s'. f x s = (Inr y, s') \<and> good s' \<and> R x y"
  shows "\<exists>ys s'. mapM f xs s = (Inr ys, s') \<and> good s' \<and> list_all2 R xs ys"
  using assms
proof (induction xs arbitrary: s)
  case (Cons x xs)
  from Cons.prems obtain y s1 where 1: "f x s = (Inr y, s1)" "good s1" "R x y" by fastforce
  from Cons.IH[OF 1(2)] Cons.prems(2) obtain ys s2 where "mapM f xs s1 = (Inr ys, s2)" "good s2" "list_all2 R xs ys"
    by auto
  with 1 show ?case by (simp add: bindM_def)
qed simp

lemma foldM_inv:
  assumes "foldM f acc xs s = (Inr y, s')" "P acc"
    "\<And>acc x s acc' s'. x \<in> set xs \<Longrightarrow> P acc \<Longrightarrow> f acc x s = (Inr acc', s') \<Longrightarrow> P acc'"
  shows "P y"
  using assms
proof (induction xs arbitrary: acc s)
  case (Cons x xs)
  from Cons.prems(1) obtain acc' s1 where "f acc x s = (Inr acc', s1)" "foldM f acc' xs s1 = (Inr y, s')"
    by (rule foldM_InrE)
  with Cons.IH[of acc' s1] Cons.prems(2,3) show ?case by (metis list.set_intros)
qed simp

lemma foldM_length:
  assumes "foldM f acc xs s = (Inr y, s')"
    "\<And>acc x s acc' s'. f acc x s = (Inr acc', s') \<Longrightarrow> length acc' = Suc (length acc)"
  shows "length y = length acc + length xs"
  using assms(1)
proof (induction xs arbitrary: acc s)
  case (Cons x xs)
  from Cons.prems(1) obtain acc' s1 where a: "f acc x s = (Inr acc', s1)" "foldM f acc' xs s1 = (Inr y, s')"
    by (rule foldM_InrE)
  with Cons.IH[OF a(2)] assms(2)[OF a(1)] show ?case by simp
qed simp

lemma repeatM_inv:
  assumes "repeatM n m s = (Inr xs, s')" "\<And>s x s'. m s = (Inr x, s') \<Longrightarrow> P x"
  shows "length xs = n \<and> list_all P xs"
  using assms(1)
proof (induction n arbitrary: s xs s')
  case (Suc n)
  from Suc.prems obtain x s1 ys s2 where x: "m s = (Inr x, s1)" "repeatM n m s1 = (Inr ys, s2)" "xs = x # ys"
    by (auto elim!: bindM_InrE)
  from Suc.IH[OF x(2)] assms(2)[OF x(1)] x(3) show ?case by simp
qed simp

lemma fst_InrE:
  assumes "fst (bindM m f s) = Inr y"
  obtains x s' where "m s = (Inr x, s')" "fst (f x s') = Inr y"
  using assms by (auto simp: bindM_def split: prod.splits sum.splits)

section \<open>Ordered maps\<close>

text \<open>
  \<^verbatim>\<open>std::map\<close> as the sorted list of its entries: iteration is in the order of the keys, \<open>map_put\<close> is
  \<^verbatim>\<open>m[k] = v\<close>, \<open>map_erase\<close> is \<^verbatim>\<open>m.erase(k)\<close> and \<^verbatim>\<open>m.find(k)\<close> is \<open>map_of\<close>.
\<close>

type_synonym ('k, 'v) omap = "('k \<times> 'v) list"

fun map_put :: "'k::linorder \<Rightarrow> 'v \<Rightarrow> ('k, 'v) omap \<Rightarrow> ('k, 'v) omap" where
  "map_put k v [] = [(k, v)]"
| "map_put k v (e # m) =
     (if k < fst e then (k, v) # e # m else if k = fst e then (k, v) # m else e # map_put k v m)"

definition map_erase :: "'k \<Rightarrow> ('k, 'v) omap \<Rightarrow> ('k, 'v) omap" where
  "map_erase k m = filter (\<lambda>e. fst e \<noteq> k) m"

definition omap_ok :: "('k::linorder, 'v) omap \<Rightarrow> bool" where
  "omap_ok m \<longleftrightarrow> sorted_wrt (<) (map fst m)"

lemma omap_ok_Nil [simp]: "omap_ok []"
  by (simp add: omap_ok_def)

lemma omap_ok_Cons: "omap_ok (e # m) \<longleftrightarrow> omap_ok m \<and> (\<forall>e' \<in> set m. fst e < fst e')"
  by (auto simp: omap_ok_def)

lemma set_map_put: "set (map_put k v m) \<subseteq> insert (k, v) (set m)"
  by (induction m) auto

lemma omap_ok_put [simp]: "omap_ok m \<Longrightarrow> omap_ok (map_put k v m)"
proof (induction m)
  case (Cons e m)
  then show ?case using set_map_put[of k v m] by (force simp: omap_ok_Cons)
qed (simp add: omap_ok_def)

lemma map_of_below_omap: "omap_ok (e # m) \<Longrightarrow> k \<le> fst e \<Longrightarrow> map_of m k = None"
  by (force simp: omap_ok_Cons map_of_eq_None_iff)

lemma map_of_put [simp]: "omap_ok m \<Longrightarrow> map_of (map_put k v m) = (map_of m)(k \<mapsto> v)"
proof (induction m)
  case (Cons e m)
  have IH: "map_of (map_put k v m) = (map_of m)(k \<mapsto> v)"
    by (rule Cons.IH) (use Cons.prems in \<open>simp add: omap_ok_Cons\<close>)
  show ?case
  proof (rule ext)
    fix x show "map_of (map_put k v (e # m)) x = ((map_of (e # m))(k \<mapsto> v)) x"
      using IH Cons.prems by (cases e) (auto simp: omap_ok_Cons)
  qed
qed auto

lemma omap_ok_erase [simp]: "omap_ok m \<Longrightarrow> omap_ok (map_erase k m)"
  by (simp add: omap_ok_def map_erase_def sorted_wrt_map sorted_wrt_filter)

lemma map_of_erase [simp]: "map_of (map_erase k m) = (map_of m)(k := None)"
  by (induction m) (auto simp: map_erase_def fun_eq_iff)

lemma map_put_last: "omap_ok m \<Longrightarrow> \<forall>e \<in> set m. fst e < k \<Longrightarrow> map_put k v m = m @ [(k, v)]"
  by (induction m) (auto simp: omap_ok_Cons)

lemma map_of_above_omap: "\<forall>e \<in> set m. fst e < (k :: 'k::linorder) \<Longrightarrow> map_of m k = None"
  by (force simp: map_of_eq_None_iff)

lemma omap_ok_snoc: "omap_ok (m @ [e]) \<longleftrightarrow> omap_ok m \<and> (\<forall>e' \<in> set m. fst e' < fst e)"
  by (auto simp: omap_ok_def sorted_wrt_append)

lemma omap_ok_prefix: "omap_ok (m @ m') \<Longrightarrow> omap_ok m"
  by (simp add: omap_ok_def sorted_wrt_append)

text \<open>Maps with the same lookups are equal.\<close>

lemma omap_ext:
  assumes "omap_ok xs" "omap_ok ys" "map_of xs = map_of ys"
  shows "xs = ys"
  using assms
proof (induction xs arbitrary: ys)
  case Nil
  then have "map_of ys i = None" for i by (metis map_of.simps(1))
  from this[of "fst (hd ys)"] show ?case by (cases ys) auto
next
  case (Cons x xs)
  have "ys \<noteq> []" using fun_cong[OF Cons.prems(3), of "fst x"] by auto
  then obtain y ys' where ys: "ys = y # ys'" by (cases ys) auto
  note ok = Cons.prems(1) Cons.prems(2)[unfolded ys]
  have get: "map_of (x # xs) i = map_of (y # ys') i" for i
    unfolding ys[symmetric] by (rule fun_cong[OF Cons.prems(3)])
  have key: "fst x = fst y"
  proof (rule ccontr)
    assume "fst x \<noteq> fst y"
    then consider "fst x < fst y" | "fst y < fst x" by force
    then show False
    proof cases
      case 1
      then have "fst x \<le> fst y" by simp
      from map_of_below_omap[OF ok(2) this] 1 get[of "fst x"] show False
        by (cases x; cases y) (auto split: if_splits)
    next
      case 2
      then have "fst y \<le> fst x" by simp
      from map_of_below_omap[OF ok(1) this] 2 get[of "fst y"] show False
        by (cases x; cases y) (auto split: if_splits)
    qed
  qed
  then have "x = y" using get[of "fst x"] by (cases x; cases y) simp
  moreover have "map_of xs i = map_of ys' i" for i
    using get[of i] map_of_below_omap[OF ok(1), of i] map_of_below_omap[OF ok(2), of i] key
    by (cases "i = fst x"; cases x; cases y) auto
  ultimately show ?case
    using Cons.IH[of ys'] ok ys by (auto simp: omap_ok_Cons)
qed

lemma strict_remdups_adj: "sorted xs \<Longrightarrow> sorted_wrt (<) (remdups_adj (xs :: 'a::linorder list))"
  by (induction xs rule: remdups_adj.induct) (auto simp: order_less_le)

end
