(* ===== verification/Types.thy ===== *)
theory Types
  imports Prelude "HOL-Library.Char_ord"
begin

text \<open>
  The value types every component uses (\<^verbatim>\<open>src/types.hpp\<close>, \<^verbatim>\<open>src/types.cpp\<close>): node and
  object identifiers, the node description that is gossiped, identity resets, and the textual
  forms of identifiers and endpoints.

  A \<^verbatim>\<open>std::array<uint8_t, N>\<close> is the list of its \<open>N\<close> bytes; \<open>node_id_ok\<close> and
  \<open>hash256_ok\<close> say that it has them. The defaulted comparison of such an array is
  lexicographic on unsigned bytes, which is the order of \<open>List_Lexorder\<close> on lists of words.
  A \<^verbatim>\<open>std::string\<close> is a list of characters.
\<close>

section \<open>Identifiers\<close>

type_synonym NodeId = Bytes
type_synonym Hash256 = Bytes
type_synonym ObjectId = Hash256

abbreviation (input) node_id_ok :: "NodeId \<Rightarrow> bool" where
  "node_id_ok n \<equiv> length n = 16"

abbreviation (input) hash256_ok :: "Hash256 \<Rightarrow> bool" where
  "hash256_ok h \<equiv> length h = 32"

text \<open>The value-initialised identifiers \<^verbatim>\<open>NodeId{}\<close> and \<^verbatim>\<open>Hash256{}\<close>.\<close>

definition NodeId0 :: NodeId where
  "NodeId0 = replicate 16 0"

definition Hash256_0 :: Hash256 where
  "Hash256_0 = replicate 32 0"

lemma length_NodeId0 [simp]: "length NodeId0 = 16"
  by (simp add: NodeId0_def)

lemma length_Hash256_0 [simp]: "length Hash256_0 = 32"
  by (simp add: Hash256_0_def)

record Endpoint =
  ep_host :: string
  ep_port :: u16

record IdentityAssociationReset =
  ir_host :: string
  ir_port :: u16
  ir_stale_node_id :: NodeId
  ir_epoch :: u64
  ir_reset_unix_ms :: u64
  ir_reset_by :: NodeId
  ir_reason :: string

section \<open>Node flags\<close>

definition node_flag_inbound_capable :: u8 where
  "node_flag_inbound_capable = push_bit 0 1"

definition node_flag_hosts_extents :: u8 where
  "node_flag_hosts_extents = push_bit 1 1"

definition node_flags_default :: u8 where
  "node_flags_default = or node_flag_inbound_capable node_flag_hosts_extents"

record NodeInfo =
  ni_id :: NodeId
  ni_host :: string
  ni_failure_domain :: string
  ni_port :: u16
  ni_capacity :: u64
  ni_used :: u64
  ni_seen_unix_ms :: u64
  ni_metadata_generation :: u64
  ni_metadata_write_replicas_required :: u32
  ni_flags :: u8

definition node_inbound_capable :: "NodeInfo \<Rightarrow> bool" where
  "node_inbound_capable n \<longleftrightarrow> and (ni_flags n) node_flag_inbound_capable \<noteq> 0"

definition node_hosts_extents :: "NodeInfo \<Rightarrow> bool" where
  "node_hosts_extents n \<longleftrightarrow> and (ni_flags n) node_flag_hosts_extents \<noteq> 0"

definition node_flags_for :: "bool \<Rightarrow> bool \<Rightarrow> u8" where
  "node_flags_for inbound_capable hosts_extents =
     or (if inbound_capable then node_flag_inbound_capable else 0)
        (if hosts_extents then node_flag_hosts_extents else 0)"

section \<open>Hashing and hexadecimal text\<close>

text \<open>The FNV-1a fold over a node id; \<^verbatim>\<open>size_t\<close> is 64 bits and wraps.\<close>

definition NodeIdHash :: "NodeId \<Rightarrow> u64" where
  "NodeIdHash n =
     foldl (\<lambda>value byte. (xor value (ucast byte)) * 1099511628211) 1469598103934665603 n"

definition hex_digits :: string where
  "hex_digits = ''0123456789abcdef''"

definition hex :: "Bytes \<Rightarrow> string" where
  "hex bytes = concat (map (\<lambda>b. [hex_digits ! unat (drop_bit 4 b), hex_digits ! unat (and b 15)])
                          bytes)"

text \<open>
  The value \<^verbatim>\<open>std::from_chars\<close> gives a character in base 16: decimal digits and both cases
  of the letters a to f; anything else ends the match.
\<close>

definition hex_digit_value :: "char \<Rightarrow> nat option" where
  "hex_digit_value c =
     (let n = (of_char c :: nat) in
      if 48 \<le> n \<and> n \<le> 57 then Some (n - 48)
      else if 97 \<le> n \<and> n \<le> 102 then Some (n - 87)
      else if 65 \<le> n \<and> n \<le> 70 then Some (n - 55)
      else None)"

text \<open>
  The loop of \<^verbatim>\<open>unhex\<close>: both characters of a pair must be digits (\<^verbatim>\<open>end == begin + 2\<close>);
  two digits never exceed 255.
\<close>

fun unhex_pairs :: "string \<Rightarrow> Bytes option" where
  "unhex_pairs [] = Some []"
| "unhex_pairs [_] = None"
| "unhex_pairs (a # b # cs) =
     (case (hex_digit_value a, hex_digit_value b) of
        (Some x, Some y) \<Rightarrow> map_option ((#) (of_nat (16 * x + y))) (unhex_pairs cs)
      | _ \<Rightarrow> None)"

definition unhex :: "string \<Rightarrow> Bytes option" where
  "unhex value = (if length value mod 2 \<noteq> 0 then None else unhex_pairs value)"

definition to_string :: "Bytes \<Rightarrow> string" where
  "to_string i = hex i"

section \<open>Endpoint keys\<close>

text \<open>\<^verbatim>\<open>std::to_string\<close> of an unsigned number.\<close>

fun decimal :: "nat \<Rightarrow> string" where
  "decimal n = (if n < 10 then [char_of (48 + n)] else decimal (n div 10) @ [char_of (48 + n mod 10)])"

declare decimal.simps [simp del]

definition endpoint_identity_key :: "string \<Rightarrow> u16 \<Rightarrow> string" where
  "endpoint_identity_key h p = ''['' @ h @ '']:'' @ decimal (unat p)"

definition identity_reset_key :: "string \<Rightarrow> u16 \<Rightarrow> string" where
  "identity_reset_key h p =
     (if p \<noteq> 0 then endpoint_identity_key h p else ''['' @ h @ '']:*'')"

definition identity_reset_matches_endpoint ::
    "IdentityAssociationReset \<Rightarrow> string \<Rightarrow> u16 \<Rightarrow> bool" where
  "identity_reset_matches_endpoint reset h p \<longleftrightarrow>
     ir_host reset = h \<and> (ir_port reset = 0 \<or> ir_port reset = p)"

definition identity_reset_matches_node :: "IdentityAssociationReset \<Rightarrow> NodeId \<Rightarrow> bool" where
  "identity_reset_matches_node reset node \<longleftrightarrow>
     ir_stale_node_id reset = NodeId0 \<or> ir_stale_node_id reset = node"

section \<open>Flags\<close>

lemma node_flags_for_cases:
  "node_flags_for i h = (if i then (if h then 3 else 1) else (if h then 2 else 0))"
  by (simp add: node_flags_for_def node_flag_inbound_capable_def node_flag_hosts_extents_def)

lemma node_flags_for_read:
  "node_inbound_capable (n\<lparr>ni_flags := node_flags_for i h\<rparr>) = i"
  "node_hosts_extents (n\<lparr>ni_flags := node_flags_for i h\<rparr>) = h"
  by (simp_all add: node_flags_for_cases node_inbound_capable_def node_hosts_extents_def
      node_flag_inbound_capable_def node_flag_hosts_extents_def)

section \<open>Hexadecimal text\<close>

lemma hex_Nil [simp]: "hex [] = []"
  by (simp add: hex_def)

lemma hex_Cons:
  "hex (b # bs) =
     hex_digits ! unat (drop_bit 4 b) # hex_digits ! unat (and b 15) # hex bs"
  by (simp add: hex_def)

lemma length_hex [simp]: "length (hex bs) = 2 * length bs"
  by (induction bs) (simp_all add: hex_Cons)

lemma hex_digit_value_hex_digits:
  assumes "n < 16"
  shows "hex_digit_value (hex_digits ! n) = Some n"
proof -
  have "\<forall>n \<in> set [0..<16]. hex_digit_value (hex_digits ! n) = Some n"
    by code_simp
  then show ?thesis using assms by simp
qed

lemma nibbles_u8:
  fixes b :: u8
  shows "unat (drop_bit 4 b) < 16" "unat (and b 15) < 16"
    "16 * unat (drop_bit 4 b) + unat (and b 15) = unat b"
proof -
  have hi: "unat (drop_bit 4 b) = unat b div 16"
    by (simp only: unat_drop_bit_eq) (simp add: drop_bit_eq_div)
  have lo: "unat (and b 15) = unat b mod 16"
  proof -
    have "and b 15 = take_bit 4 b"
      by (simp add: take_bit_eq_mask mask_eq_exp_minus_1)
    then show ?thesis by (simp only: unsigned_take_bit_eq) (simp add: take_bit_eq_mod)
  qed
  have "unat b < 256" using unsigned_less[of b] by simp
  with hi show "unat (drop_bit 4 b) < 16" by simp
  show "unat (and b 15) < 16" by (simp add: lo)
  show "16 * unat (drop_bit 4 b) + unat (and b 15) = unat b"
    by (simp add: hi lo)
qed

lemma unhex_pairs_hex: "unhex_pairs (hex bs) = Some bs"
  by (induction bs) (simp_all add: hex_Cons hex_digit_value_hex_digits nibbles_u8)

lemma unhex_hex: "unhex (hex bs) = Some bs"
  by (simp add: unhex_def unhex_pairs_hex)

lemma unhex_pairs_length: "unhex_pairs cs = Some bs \<Longrightarrow> length cs = 2 * length bs"
  by (induction cs arbitrary: bs rule: unhex_pairs.induct) (auto split: option.splits)

lemma unhex_pairs_refused:
  "unhex_pairs cs = None \<longleftrightarrow> odd (length cs) \<or> (\<exists>c \<in> set cs. hex_digit_value c = None)"
  by (induction cs rule: unhex_pairs.induct) (auto split: option.splits)

text \<open>Text is refused exactly when its length is odd or a character is no hexadecimal digit.\<close>

lemma unhex_None_iff:
  "unhex cs = None \<longleftrightarrow> odd (length cs) \<or> (\<exists>c \<in> set cs. hex_digit_value c = None)"
  by (auto simp: unhex_def unhex_pairs_refused odd_iff_mod_2_eq_one)

section \<open>Endpoint keys\<close>

definition digit_char :: "char \<Rightarrow> bool" where
  "digit_char c \<longleftrightarrow> 48 \<le> (of_char c :: nat) \<and> (of_char c :: nat) \<le> 57"

lemma digit_char_of: "n < 10 \<Longrightarrow> digit_char (char_of (48 + n :: nat))"
  by (simp add: digit_char_def)

lemma digit_char_of_inj:
  assumes "m < 10" "n < 10" "(char_of (48 + m :: nat) :: char) = char_of (48 + n)"
  shows "m = n"
proof -
  have "(of_char (char_of (48 + m) :: char) :: nat) = of_char (char_of (48 + n) :: char)"
    using assms(3) by simp
  then show ?thesis using assms(1,2) by simp
qed

lemma decimal_digits: "c \<in> set (decimal n) \<Longrightarrow> digit_char c"
proof (induction n rule: decimal.induct)
  case (1 n)
  then show ?case
    by (subst (asm) decimal.simps[of n]) (auto simp: digit_char_of split: if_splits)
qed

lemma decimal_nonempty: "decimal n \<noteq> []"
  by (subst decimal.simps) simp

lemma decimal_eqD: "decimal m = decimal n \<Longrightarrow> m = n"
proof (induction m arbitrary: n rule: decimal.induct)
  case (1 m)
  have eq: "(if m < 10 then [char_of (48 + m)] else decimal (m div 10) @ [char_of (48 + m mod 10)]) =
        (if n < 10 then [char_of (48 + n)] else decimal (n div 10) @ [char_of (48 + n mod 10)])"
    using 1(2) by (simp only: decimal.simps[of m] decimal.simps[of n])
  show ?case
  proof (cases "m < 10 \<or> n < 10")
    case True
    with eq decimal_nonempty[of "n div 10"] decimal_nonempty[of "m div 10"] show ?thesis
      by (auto intro: digit_char_of_inj split: if_splits)
  next
    case False
    with eq have *: "decimal (m div 10) = decimal (n div 10)"
      "(char_of (48 + m mod 10) :: char) = char_of (48 + n mod 10)"
      by auto
    have "m mod 10 = n mod 10"
      by (rule digit_char_of_inj) (use *(2) in auto)
    moreover have "m div 10 = n div 10"
      using 1(1) False *(1) by blast
    ultimately show ?thesis by (metis div_mult_mod_eq)
  qed
qed

text \<open>
  The host of a key is what stands before its last closing bracket: neither a decimal number nor
  an asterisk contains one.
\<close>

lemma bracket_split:
  assumes "h @ CHR '']'' # s = h' @ CHR '']'' # s'"
    and "CHR '']'' \<notin> set s" "CHR '']'' \<notin> set s'"
  shows "h = h' \<and> s = s'"
proof -
  have aux: "g = [] " if "g @ CHR '']'' # t = CHR '']'' # t'" "CHR '']'' \<notin> set t'" for g t t'
    using that by (cases g) auto
  from assms(1) obtain g where
    "h = h' @ g \<and> g @ CHR '']'' # s = CHR '']'' # s' \<or>
     h @ g = h' \<and> CHR '']'' # s = g @ CHR '']'' # s'"
    by (auto simp: append_eq_append_conv2)
  with aux[of g s s'] aux[of g s' s] assms(2,3) show ?thesis by auto
qed

lemma no_bracket_decimal: "CHR '']'' \<notin> set (decimal n)"
  using decimal_digits[of "CHR '']''" n] by (auto simp: digit_char_def)

lemma decimal_unat_eq: "decimal (unat (p :: u16)) = decimal (unat q) \<longleftrightarrow> p = q"
  using decimal_eqD[of "unat p" "unat q"] by (auto simp: word_unat_eq_iff)

lemma endpoint_identity_key_inj:
  assumes "endpoint_identity_key h p = endpoint_identity_key h' p'"
  shows "h = h' \<and> p = p'"
proof -
  have "h @ CHR '']'' # CHR '':'' # decimal (unat p) = h' @ CHR '']'' # CHR '':'' # decimal (unat p')"
    using assms by (simp add: endpoint_identity_key_def)
  then have "h = h' \<and> CHR '':'' # decimal (unat p) = CHR '':'' # decimal (unat p')"
    by (rule bracket_split) (simp_all add: no_bracket_decimal)
  then show ?thesis by (simp add: decimal_unat_eq)
qed

text \<open>
  Resets are stored under \<open>identity_reset_key\<close>: two resets share a key only when they name the
  same host and the same port (port zero standing for every port).
\<close>

lemma identity_reset_key_inj:
  assumes "identity_reset_key h p = identity_reset_key h' p'"
  shows "h = h' \<and> p = p'"
proof -
  define tail where "tail q = (if q \<noteq> 0 then decimal (unat q) else ''*'')" for q :: u16
  have no: "CHR '']'' \<notin> set (CHR '':'' # tail q)" for q
    by (simp add: tail_def no_bracket_decimal)
  have star: "decimal n \<noteq> ''*''" for n
    using decimal_digits[of "CHR ''*''" n] by (auto simp: digit_char_def)
  have "h @ CHR '']'' # CHR '':'' # tail p = h' @ CHR '']'' # CHR '':'' # tail p'"
    using assms
    by (auto simp: identity_reset_key_def endpoint_identity_key_def tail_def split: if_splits)
  then have "h = h' \<and> CHR '':'' # tail p = CHR '':'' # tail p'"
    by (rule bracket_split) (fact no)+
  then show ?thesis
    by (auto simp: tail_def decimal_unat_eq star star[symmetric] split: if_splits)
qed

end
