(* ===== verification/Codec.thy ===== *)
theory Codec
  imports Types "HOL-Library.Sublist"
begin

text \<open>
  The binary encoding (\<^verbatim>\<open>src/codec.hpp\<close>, \<^verbatim>\<open>src/codec.cpp\<close>). A \<^verbatim>\<open>Writer\<close> is the byte
  vector it has built; each of its operations appends. A \<^verbatim>\<open>Reader\<close> is a record of the
  encoded bytes and a position; each operation reads and advances, or throws \<open>DecodeError\<close>.

  The locale \<open>codec\<close> is the interface between an encoder and its decoder: what the decoder
  returns when it starts where the encoder wrote. Every pair of operations below interprets
  it; sequences of encoded items are handled once, inside it.
\<close>

section \<open>Writer\<close>

type_synonym Writer = Bytes

definition writer_u8 :: "Writer \<Rightarrow> u8 \<Rightarrow> Writer" where
  "writer_u8 w v = w @ [v]"

definition writer_u16 :: "Writer \<Rightarrow> u16 \<Rightarrow> Writer" where
  "writer_u16 w v = w @ [ucast (drop_bit 8 v), ucast v]"

definition writer_u32 :: "Writer \<Rightarrow> u32 \<Rightarrow> Writer" where
  "writer_u32 w v = foldl (\<lambda>w shift. w @ [ucast (drop_bit shift v)]) w [24, 16, 8, 0]"

definition writer_u64 :: "Writer \<Rightarrow> u64 \<Rightarrow> Writer" where
  "writer_u64 w v =
     foldl (\<lambda>w shift. w @ [ucast (drop_bit shift v)]) w [56, 48, 40, 32, 24, 16, 8, 0]"

definition writer_raw :: "Writer \<Rightarrow> Bytes \<Rightarrow> Writer" where
  "writer_raw w bs = w @ bs"

definition writer_fixed :: "Writer \<Rightarrow> Bytes \<Rightarrow> Writer" where
  "writer_fixed w bs = writer_raw w bs"

text \<open>\<^verbatim>\<open>Writer::bytes\<close> throws on a blob whose length does not fit its 32-bit prefix.\<close>

definition writer_bytes :: "Writer \<Rightarrow> Bytes \<Rightarrow> Writer result" where
  "writer_bytes w bs =
     (if length bs > 4294967295 then Inl (RuntimeError ''encoded blob too large'')
      else Inr (writer_raw (writer_u32 w (of_nat (length bs))) bs))"

definition string_bytes :: "string \<Rightarrow> Bytes" where
  "string_bytes s = map of_char s"

definition bytes_string :: "Bytes \<Rightarrow> string" where
  "bytes_string bs = map (\<lambda>b. char_of (unat b)) bs"

definition writer_string :: "Writer \<Rightarrow> string \<Rightarrow> Writer result" where
  "writer_string w s = writer_bytes w (string_bytes s)"

section \<open>Reader\<close>

record Reader =
  r_data :: Bytes
  r_position :: nat

definition reader :: "Bytes \<Rightarrow> Reader" where
  "reader bs = \<lparr>r_data = bs, r_position = 0\<rparr>"

definition remaining :: "Reader \<Rightarrow> nat" where
  "remaining r = length (r_data r) - r_position r"

definition reader_need :: "nat \<Rightarrow> (Reader, unit) prog" where
  "reader_need n = bindM getM (\<lambda>r.
     if n > remaining r then raiseM (DecodeError ''truncated input'') else retM ())"

definition reader_advance :: "nat \<Rightarrow> (Reader, unit) prog" where
  "reader_advance n = modifyM (\<lambda>r. r\<lparr>r_position := r_position r + n\<rparr>)"

definition reader_u8 :: "(Reader, u8) prog" where
  "reader_u8 = bindM (reader_need 1) (\<lambda>_. bindM getM (\<lambda>r.
     bindM (reader_advance 1) (\<lambda>_. retM (r_data r ! r_position r))))"

definition reader_u16 :: "(Reader, u16) prog" where
  "reader_u16 = bindM (reader_need 2) (\<lambda>_. bindM getM (\<lambda>r.
     bindM (reader_advance 2) (\<lambda>_.
     retM (or (push_bit 8 (ucast (r_data r ! r_position r)))
              (ucast (r_data r ! (r_position r + 1)))))))"

definition reader_u32 :: "(Reader, u32) prog" where
  "reader_u32 = bindM (reader_need 4) (\<lambda>_. bindM getM (\<lambda>r.
     bindM (reader_advance 4) (\<lambda>_.
     retM (foldl (\<lambda>value i. or (push_bit 8 value) (ucast (r_data r ! (r_position r + i))))
             0 [0, 1, 2, 3]))))"

definition reader_u64 :: "(Reader, u64) prog" where
  "reader_u64 = bindM (reader_need 8) (\<lambda>_. bindM getM (\<lambda>r.
     bindM (reader_advance 8) (\<lambda>_.
     retM (foldl (\<lambda>value i. or (push_bit 8 value) (ucast (r_data r ! (r_position r + i))))
             0 [0, 1, 2, 3, 4, 5, 6, 7]))))"

text \<open>\<^verbatim>\<open>raw\<close>, \<^verbatim>\<open>view\<close> and \<^verbatim>\<open>fixed\<close> return the same bytes, copied or borrowed.\<close>

definition reader_raw :: "nat \<Rightarrow> (Reader, Bytes) prog" where
  "reader_raw n = bindM (reader_need n) (\<lambda>_. bindM getM (\<lambda>r.
     bindM (reader_advance n) (\<lambda>_. retM (take n (drop (r_position r) (r_data r))))))"

definition reader_view :: "nat \<Rightarrow> (Reader, Bytes) prog" where
  "reader_view n = bindM (reader_need n) (\<lambda>_. bindM getM (\<lambda>r.
     bindM (reader_advance n) (\<lambda>_. retM (take n (drop (r_position r) (r_data r))))))"

definition reader_fixed :: "nat \<Rightarrow> (Reader, Bytes) prog" where
  "reader_fixed n = bindM (reader_need n) (\<lambda>_. bindM getM (\<lambda>r.
     bindM (reader_advance n) (\<lambda>_. retM (take n (drop (r_position r) (r_data r))))))"

definition reader_bytes :: "nat \<Rightarrow> (Reader, Bytes) prog" where
  "reader_bytes maximum = bindM reader_u32 (\<lambda>count.
     if unat count > maximum then raiseM (DecodeError ''blob too large'')
     else reader_raw (unat count))"

definition reader_view_bytes :: "nat \<Rightarrow> (Reader, Bytes) prog" where
  "reader_view_bytes maximum = bindM reader_u32 (\<lambda>count.
     if unat count > maximum then raiseM (DecodeError ''blob too large'')
     else reader_view (unat count))"

definition reader_string :: "nat \<Rightarrow> (Reader, string) prog" where
  "reader_string maximum = bindM (reader_view_bytes maximum) (\<lambda>v. retM (bytes_string v))"

definition reader_finish :: "(Reader, unit) prog" where
  "reader_finish = bindM getM (\<lambda>r.
     if r_position r \<noteq> length (r_data r) then raiseM (DecodeError ''trailing input'')
     else retM ())"

section \<open>Node descriptions\<close>

definition encode_node_info :: "Writer \<Rightarrow> NodeInfo \<Rightarrow> Writer result" where
  "encode_node_info w node =
     bindR (writer_string (writer_fixed w (ni_id node)) (ni_host node)) (\<lambda>w.
     bindR (writer_string w (ni_failure_domain node)) (\<lambda>w.
     let w = writer_u16 w (ni_port node);
         w = writer_u64 w (ni_capacity node);
         w = writer_u64 w (ni_used node);
         w = writer_u64 w (ni_seen_unix_ms node);
         w = writer_u64 w (ni_metadata_generation node);
         w = writer_u32 w (ni_metadata_write_replicas_required node)
     in Inr (writer_u8 w (ni_flags node))))"

definition decode_node_info :: "(Reader, NodeInfo) prog" where
  "decode_node_info =
     bindM (reader_fixed 16) (\<lambda>i.
     bindM (reader_string 4096) (\<lambda>h.
     bindM (reader_string 4096) (\<lambda>d.
     bindM reader_u16 (\<lambda>p.
     bindM reader_u64 (\<lambda>c.
     bindM reader_u64 (\<lambda>u.
     bindM reader_u64 (\<lambda>s.
     bindM reader_u64 (\<lambda>g.
     bindM reader_u32 (\<lambda>m.
     bindM reader_u8 (\<lambda>f.
     retM \<lparr>ni_id = i, ni_host = h, ni_failure_domain = d, ni_port = p, ni_capacity = c,
       ni_used = u, ni_seen_unix_ms = s, ni_metadata_generation = g,
       ni_metadata_write_replicas_required = m, ni_flags = f\<rparr>))))))))))"

section \<open>Where a reader stands\<close>

text \<open>\<open>reader_at r bs\<close>: the bytes still to be read are \<open>bs\<close>.\<close>

definition reader_at :: "Reader \<Rightarrow> Bytes \<Rightarrow> bool" where
  "reader_at r bs \<longleftrightarrow> r_position r \<le> length (r_data r) \<and> drop (r_position r) (r_data r) = bs"

definition advanced :: "nat \<Rightarrow> Reader \<Rightarrow> Reader" where
  "advanced n r = r\<lparr>r_position := r_position r + n\<rparr>"

definition reads :: "(Reader, 'a) prog \<Rightarrow> Bytes \<Rightarrow> 'a \<Rightarrow> bool" where
  "reads dec bs x \<longleftrightarrow>
     (\<forall>r rest. reader_at r (bs @ rest) \<longrightarrow> dec r = (Inr x, advanced (length bs) r))"

lemma reader_at_reader: "reader_at (reader bs) bs"
  by (simp add: reader_at_def reader_def)

lemma reader_at_advanced:
  assumes "reader_at r (bs @ rest)"
  shows "reader_at (advanced (length bs) r) rest"
proof -
  have d: "drop (r_position r) (r_data r) = bs @ rest" and p: "r_position r \<le> length (r_data r)"
    using assms by (simp_all add: reader_at_def)
  have "length (r_data r) - r_position r = length bs + length rest"
    using arg_cong[OF d, of length] by simp
  moreover have "drop (r_position r + length bs) (r_data r) = rest"
    by (metis add.commute append_eq_conv_conj d drop_drop)
  ultimately show ?thesis using p by (simp add: reader_at_def advanced_def)
qed

lemma advanced_advanced [simp]: "advanced m (advanced n r) = advanced (n + m) r"
  by (simp add: advanced_def)

lemma advanced_0 [simp]: "advanced 0 r = r"
  by (simp add: advanced_def)

lemma readsD: "reads dec bs x \<Longrightarrow> reader_at r (bs @ rest) \<Longrightarrow> dec r = (Inr x, advanced (length bs) r)"
  by (auto simp: reads_def)

lemma reads_ret [intro]: "reads (retM x) [] x"
  by (simp add: reads_def)

lemma reads_ret_eq: "x = y \<Longrightarrow> reads (retM x) [] y"
  by auto

lemma reads_bind [intro]:
  assumes "reads m bs x" "reads (f x) cs y"
  shows "reads (bindM m f) (bs @ cs) y"
  unfolding reads_def
proof (intro allI impI)
  fix r rest
  assume "reader_at r ((bs @ cs) @ rest)"
  then have at: "reader_at r (bs @ cs @ rest)" by simp
  from readsD[OF assms(1) at] readsD[OF assms(2) reader_at_advanced[OF at]]
  show "bindM m f r = (Inr y, advanced (length (bs @ cs)) r)"
    by (simp add: bindM_def)
qed

lemma reads_if:
  "\<not> c \<Longrightarrow> reads m bs x \<Longrightarrow> reads (if c then m' else m) bs x"
  by simp

lemma need_ok: "reader_at r (bs @ rest) \<Longrightarrow> reader_need (length bs) r = (Inr (), r)"
  by (auto simp: reader_need_def remaining_def reader_at_def dest!: arg_cong[where f = length])

lemma need_fails:
  assumes "reader_at r bs" "length bs < n"
  shows "reader_need n r = (Inl (DecodeError ''truncated input''), r)"
  using assms by (auto simp: reader_need_def remaining_def reader_at_def)

lemma nth_at:
  "reader_at r (bs @ rest) \<Longrightarrow> i < length bs \<Longrightarrow> r_data r ! (r_position r + i) = bs ! i"
  by (metis nth_append nth_drop reader_at_def)

lemma finish_at: "reader_at r [] \<Longrightarrow> reader_finish r = (Inr (), r)"
  by (simp add: reader_finish_def reader_at_def)

lemma finish_trailing:
  "reader_at r (b # bs) \<Longrightarrow> reader_finish r = (Inl (DecodeError ''trailing input''), r)"
  by (auto simp: reader_finish_def reader_at_def)

text \<open>A loop that appends one entry a turn, each turn relying on the entries before it.\<close>

lemma reads_entries:
  assumes "\<And>acc e. ok (acc @ [e]) \<Longrightarrow> reads (f acc) (enc e) (acc @ [e])" "\<And>xs ys. ok (xs @ ys) \<Longrightarrow> ok xs"
    and "ok (acc @ es)" "length xs = length es"
  shows "reads (foldM (\<lambda>acc _. f acc) acc xs) (concat (map enc es)) (acc @ es)"
  using assms(3,4)
proof (induction es arbitrary: acc xs)
  case (Cons e es)
  obtain x ys where xs: "xs = x # ys" "length ys = length es" using Cons.prems by (cases xs) auto
  have "ok (acc @ [e])" using assms(2)[of "acc @ [e]" es] Cons.prems(1) by simp
  from assms(1)[OF this] have 1: "reads (f acc) (enc e) (acc @ [e])" .
  have 2: "reads (foldM (\<lambda>acc _. f acc) (acc @ [e]) ys) (concat (map enc es)) ((acc @ [e]) @ es)"
    using Cons.prems xs by (intro Cons.IH) auto
  from 1 2 xs show ?case by (auto intro!: reads_bind)
qed auto

text \<open>A decoder of a whole message: what it returns on exactly these bytes.\<close>

definition reads_all :: "(Reader, 'a) prog \<Rightarrow> Bytes \<Rightarrow> 'a \<Rightarrow> bool" where
  "reads_all m bs x \<longleftrightarrow> (\<forall>r. reader_at r bs \<longrightarrow> fst (m r) = Inr x)"

lemma reads_all_bind:
  assumes "reads m bs x" "reads_all (f x) cs y"
  shows "reads_all (bindM m f) (bs @ cs) y"
  unfolding reads_all_def
proof (intro allI impI)
  fix r assume at: "reader_at r (bs @ cs)"
  have "reader_at (advanced (length bs) r) cs" by (rule reader_at_advanced[OF at])
  with assms(2) readsD[OF assms(1) at] show "fst (bindM m f r) = Inr y"
    by (simp add: bindM_def reads_all_def)
qed

lemma reads_all_if: "\<not> c \<Longrightarrow> reads_all m bs x \<Longrightarrow> reads_all (if c then m' else m) bs x"
  by simp

lemma reads_all_finish: "x = y \<Longrightarrow> reads_all (bindM reader_finish (\<lambda>_. retM x)) [] y"
  by (simp add: reads_all_def bindM_def finish_at)

lemma reads_all_reader: "reads_all m bs x \<Longrightarrow> fst (m (reader bs)) = Inr x"
  by (simp add: reads_all_def reader_at_reader)

lemma reader_fixed_length: "reader_fixed n r = (Inr x, r') \<Longrightarrow> length x = n"
  by (auto simp: reader_fixed_def reader_need_def remaining_def bindM_def reader_advance_def split: if_splits)

lemma reader_raw_length: "reader_raw n r = (Inr x, r') \<Longrightarrow> length x = n"
  by (auto simp: reader_raw_def reader_need_def remaining_def bindM_def reader_advance_def split: if_splits)

lemma reader_bytes_length: "reader_bytes m r = (Inr x, r') \<Longrightarrow> length x \<le> m"
  by (auto simp: reader_bytes_def elim!: bindM_InrE split: if_splits dest!: reader_raw_length)

section \<open>Encodings of the machine integers\<close>

named_theorems writer_simps \<open>each writer operation as an append\<close>

definition enc_u8 :: "u8 \<Rightarrow> Bytes" where "enc_u8 v = writer_u8 [] v"
definition enc_u16 :: "u16 \<Rightarrow> Bytes" where "enc_u16 v = writer_u16 [] v"
definition enc_u32 :: "u32 \<Rightarrow> Bytes" where "enc_u32 v = writer_u32 [] v"
definition enc_u64 :: "u64 \<Rightarrow> Bytes" where "enc_u64 v = writer_u64 [] v"

lemma writer_u8_append [writer_simps]: "writer_u8 w v = w @ enc_u8 v"
  by (simp add: writer_u8_def enc_u8_def)

lemma writer_u16_append [writer_simps]: "writer_u16 w v = w @ enc_u16 v"
  by (simp add: writer_u16_def enc_u16_def)

lemma writer_u32_append [writer_simps]: "writer_u32 w v = w @ enc_u32 v"
  by (simp add: writer_u32_def enc_u32_def)

lemma writer_u64_append [writer_simps]: "writer_u64 w v = w @ enc_u64 v"
  by (simp add: writer_u64_def enc_u64_def)

lemma writer_raw_append [writer_simps]: "writer_raw w bs = w @ bs"
  by (simp add: writer_raw_def)

lemma writer_fixed_append [writer_simps]: "writer_fixed w bs = w @ bs"
  by (simp add: writer_fixed_def writer_raw_def)

lemma length_enc [simp]:
  "length (enc_u8 a) = 1" "length (enc_u16 b) = 2" "length (enc_u32 c) = 4" "length (enc_u64 d) = 8"
  by (simp_all add: enc_u8_def enc_u16_def enc_u32_def enc_u64_def writer_u8_def writer_u16_def
      writer_u32_def writer_u64_def)

text \<open>Shifting one byte in: what the reading loops do once per byte.\<close>

lemma shift_byte_in:
  fixes v :: "'a::len word"
  assumes "8 \<le> LENGTH('a)" "t = s + 8"
  shows "or (push_bit 8 (drop_bit t v)) (ucast (ucast (drop_bit s v) :: u8)) = drop_bit s v"
proof (rule bit_word_eqI)
  fix n
  assume "n < LENGTH('a)"
  then show "bit (or (push_bit 8 (drop_bit t v)) (ucast (ucast (drop_bit s v) :: u8))) n \<longleftrightarrow>
      bit (drop_bit s v) n"
    using assms by (cases "n < 8") (auto simp: bit_simps not_less dest: le_Suc_ex)
qed

lemma drop_bit_all: "LENGTH('a) \<le> n \<Longrightarrow> drop_bit n (v :: 'a::len word) = 0"
  by (rule bit_word_eqI) (auto simp: bit_simps dest: bit_imp_le_length)

text \<open>The shifts of a writing loop over \<open>k\<close> bytes, and the reading loop that undoes it.\<close>

definition shifts :: "nat \<Rightarrow> nat list" where
  "shifts k = rev (map ((*) 8) [0..<k])"

definition join_bytes :: "Bytes \<Rightarrow> 'a::len word" where
  "join_bytes bs = foldl (\<lambda>value b. or (push_bit 8 value) (ucast b)) 0 bs"

lemma shifts_simps: "shifts 0 = []" "shifts (Suc k) = 8 * k # shifts k"
  by (simp_all add: shifts_def)

lemma foldl_shifts:
  fixes v :: "'a::len word"
  assumes "8 \<le> LENGTH('a)"
  shows "foldl (\<lambda>value b. or (push_bit 8 value) (ucast b)) (drop_bit (8 * k) v)
    (map (\<lambda>s. ucast (drop_bit s v) :: u8) (shifts k)) = v"
proof (induction k)
  case (Suc k)
  have "or (push_bit 8 (drop_bit (8 * Suc k) v)) (ucast (ucast (drop_bit (8 * k) v) :: u8)) =
      drop_bit (8 * k) v"
    by (rule shift_byte_in) (use assms in auto)
  with Suc show ?case by (simp only: shifts_simps list.map foldl.simps)
qed (simp add: shifts_simps)

lemma join_bytes_shifts:
  fixes v :: "'a::len word"
  assumes "8 \<le> LENGTH('a)" "LENGTH('a) = 8 * k"
  shows "join_bytes (map (\<lambda>s. ucast (drop_bit s v)) (shifts k)) = v"
  using foldl_shifts[of k v] assms by (simp add: join_bytes_def drop_bit_all)

lemma shifts_2: "shifts 2 = [8, 0]" and shifts_4: "shifts 4 = [24, 16, 8, 0]"
  and shifts_8: "shifts 8 = [56, 48, 40, 32, 24, 16, 8, 0]"
  by (simp_all add: shifts_def upt_rec)

lemma enc_shifts:
  "enc_u16 a = map (\<lambda>s. ucast (drop_bit s a)) (shifts 2)"
  "enc_u32 b = map (\<lambda>s. ucast (drop_bit s b)) (shifts 4)"
  "enc_u64 c = map (\<lambda>s. ucast (drop_bit s c)) (shifts 8)"
  by (simp_all add: enc_u16_def enc_u32_def enc_u64_def writer_u16_def writer_u32_def
      writer_u64_def shifts_2 shifts_4 shifts_8 del: drop_bit_eq_div)

lemma join_enc: "join_bytes (enc_u16 a) = a" "join_bytes (enc_u32 b) = b" "join_bytes (enc_u64 c) = c"
  by (simp_all add: enc_shifts join_bytes_shifts)

lemma foldl_nth_at:
  assumes "reader_at r (bs @ rest)"
  shows "foldl (\<lambda>value i. or (push_bit 8 value) (ucast (r_data r ! (r_position r + i)))) z
      [0..<length bs] = foldl (\<lambda>value b. or (push_bit 8 value) (ucast b)) z bs"
proof -
  have "map (\<lambda>i. r_data r ! (r_position r + i)) [0..<length bs] = bs"
    by (rule nth_equalityI) (simp_all add: nth_at[OF assms])
  then have "foldl (\<lambda>value b. or (push_bit 8 value) (ucast b)) z bs =
      foldl (\<lambda>value b. or (push_bit 8 value) (ucast b)) z
        (map (\<lambda>i. r_data r ! (r_position r + i)) [0..<length bs])"
    by (simp only:)
  then show ?thesis by (simp only: foldl_map)
qed

text \<open>One reading operation of fixed width: it needs \<open>n\<close> bytes, returns a function of them.\<close>

lemma reads_fixed_width:
  assumes "\<And>r rest. reader_at r (bs @ rest) \<Longrightarrow> f r = x" "n = length bs"
  shows "reads (bindM (reader_need n) (\<lambda>_. bindM getM (\<lambda>r. bindM (reader_advance n) (\<lambda>_. retM (f r)))))
    bs x"
  unfolding reads_def
proof (intro allI impI)
  fix r rest
  assume at: "reader_at r (bs @ rest)"
  then show "bindM (reader_need n) (\<lambda>_. bindM getM (\<lambda>r. bindM (reader_advance n) (\<lambda>_. retM (f r)))) r =
      (Inr x, advanced (length bs) r)"
    using assms need_ok[OF at]
    by (simp add: bindM_def reader_advance_def advanced_def)
qed

lemma reads_u8 [intro]: "reads reader_u8 (enc_u8 v) v"
  unfolding reader_u8_def
proof (rule reads_fixed_width)
  fix r rest
  assume at: "reader_at r (enc_u8 v @ rest)"
  show "r_data r ! r_position r = v"
    using nth_at[OF at, of 0] by (simp add: enc_u8_def writer_u8_def)
qed simp

lemma reads_u16 [intro]: "reads reader_u16 (enc_u16 v) v"
  unfolding reader_u16_def
proof (rule reads_fixed_width)
  fix r rest
  assume at: "reader_at r (enc_u16 v @ rest)"
  have "or (push_bit 8 (ucast (r_data r ! r_position r))) (ucast (r_data r ! (r_position r + 1))) =
      foldl (\<lambda>value i. or (push_bit 8 value) (ucast (r_data r ! (r_position r + i)))) 0
        [0..<length (enc_u16 v)]"
    by (simp add: upt_rec)
  also have "\<dots> = v"
    using foldl_nth_at[OF at, of "0 :: u16"] join_enc(1)[of v] by (simp add: join_bytes_def)
  finally show "or (push_bit 8 (ucast (r_data r ! r_position r))) (ucast (r_data r ! (r_position r + 1))) = v" .
qed simp

lemma reads_u32 [intro]: "reads reader_u32 (enc_u32 v) v"
  unfolding reader_u32_def
proof (rule reads_fixed_width)
  fix r rest
  assume at: "reader_at r (enc_u32 v @ rest)"
  have "[0, 1, 2, 3] = [0..<length (enc_u32 v)]" by (simp add: upt_rec)
  then show "foldl (\<lambda>value i. or (push_bit 8 value) (ucast (r_data r ! (r_position r + i)))) 0
      [0, 1, 2, 3] = v"
    using foldl_nth_at[OF at, of "0 :: u32"] join_enc(2)[of v] by (simp only: join_bytes_def)
qed simp

lemma reads_u64 [intro]: "reads reader_u64 (enc_u64 v) v"
  unfolding reader_u64_def
proof (rule reads_fixed_width)
  fix r rest
  assume at: "reader_at r (enc_u64 v @ rest)"
  have "[0, 1, 2, 3, 4, 5, 6, 7] = [0..<length (enc_u64 v)]" by (simp add: upt_rec)
  then show "foldl (\<lambda>value i. or (push_bit 8 value) (ucast (r_data r ! (r_position r + i)))) 0
      [0, 1, 2, 3, 4, 5, 6, 7] = v"
    using foldl_nth_at[OF at, of "0 :: u64"] join_enc(3)[of v] by (simp only: join_bytes_def)
qed simp

lemma take_at: "reader_at r (bs @ rest) \<Longrightarrow> take (length bs) (drop (r_position r) (r_data r)) = bs"
  by (simp add: reader_at_def)

lemma reads_fixed [intro]: "length bs = n \<Longrightarrow> reads (reader_fixed n) bs bs"
  unfolding reader_fixed_def by (rule reads_fixed_width) (auto simp: take_at)

lemma reads_raw [intro]: "length bs = n \<Longrightarrow> reads (reader_raw n) bs bs"
  unfolding reader_raw_def by (rule reads_fixed_width) (auto simp: take_at)

lemma reads_view [intro]: "length bs = n \<Longrightarrow> reads (reader_view n) bs bs"
  unfolding reader_view_def by (rule reads_fixed_width) (auto simp: take_at)

section \<open>Truncated input\<close>

text \<open>\<open>cuts dec bs\<close>: started on any proper prefix of \<open>bs\<close>, the decoder throws.\<close>

definition cuts :: "(Reader, 'a) prog \<Rightarrow> Bytes \<Rightarrow> bool" where
  "cuts dec bs \<longleftrightarrow>
     (\<forall>r p. reader_at r p \<longrightarrow> strict_prefix p bs \<longrightarrow>
        fst (dec r) = Inl (DecodeError ''truncated input''))"

lemma cuts_ret [intro]: "cuts (retM x) []"
  by (simp add: cuts_def)

lemma cuts_bind [intro]:
  assumes "reads m bs x" "cuts m bs" "cuts (f x) cs"
  shows "cuts (bindM m f) (bs @ cs)"
  unfolding cuts_def
proof (intro allI impI)
  fix r p
  assume at: "reader_at r p" and sp: "strict_prefix p (bs @ cs)"
  consider "strict_prefix p bs" | q where "p = bs @ q" "strict_prefix q cs"
  proof (cases "prefix p bs \<and> p \<noteq> bs")
    case False
    with sp obtain q where "p = bs @ q" "prefix q cs"
      by (auto simp: strict_prefix_def prefix_append)
    with sp show ?thesis using that(2)[of q] by (auto simp: strict_prefix_def)
  qed (use that(1) in \<open>simp add: strict_prefix_def\<close>)
  then show "fst (bindM m f r) = Inl (DecodeError ''truncated input'')"
  proof cases
    case 1
    then have "fst (m r) = Inl (DecodeError ''truncated input'')"
      using assms(2) at by (auto simp: cuts_def)
    then show ?thesis by (rule fst_bindM_Inl)
  next
    case 2
    then have "m r = (Inr x, advanced (length bs) r)" "reader_at (advanced (length bs) r) q"
      using readsD[OF assms(1)] reader_at_advanced at by auto
    with 2 assms(3) show ?thesis by (auto simp: bindM_def cuts_def)
  qed
qed

lemma cuts_fixed_width:
  assumes "n = length bs"
  shows "cuts (bindM (reader_need n) g) bs"
  unfolding cuts_def
proof (intro allI impI)
  fix r p
  assume "reader_at r p" "strict_prefix p bs"
  then have "reader_need n r = (Inl (DecodeError ''truncated input''), r)"
    using need_fails[of r p n] assms by (simp add: prefix_length_less)
  then show "fst (bindM (reader_need n) g r) = Inl (DecodeError ''truncated input'')"
    by (simp add: bindM_def)
qed

lemma cuts_ints [intro]:
  "cuts reader_u8 (enc_u8 a)" "cuts reader_u16 (enc_u16 b)"
  "cuts reader_u32 (enc_u32 c)" "cuts reader_u64 (enc_u64 d)"
  by (simp_all add: reader_u8_def reader_u16_def reader_u32_def reader_u64_def cuts_fixed_width)

lemma cuts_raw [intro]:
  "length bs = n \<Longrightarrow> cuts (reader_fixed n) bs"
  "length bs = n \<Longrightarrow> cuts (reader_raw n) bs"
  "length bs = n \<Longrightarrow> cuts (reader_view n) bs"
  by (simp_all add: reader_fixed_def reader_raw_def reader_view_def cuts_fixed_width)

lemma cuts_if: "\<not> c \<Longrightarrow> cuts m bs \<Longrightarrow> cuts (if c then m' else m) bs"
  by simp

section \<open>Blobs and strings\<close>

definition enc_bytes :: "Bytes \<Rightarrow> Bytes" where
  "enc_bytes bs = enc_u32 (of_nat (length bs)) @ bs"

definition enc_string :: "string \<Rightarrow> Bytes" where
  "enc_string s = enc_bytes (string_bytes s)"

lemma unat_length_u32: "length bs \<le> 4294967295 \<Longrightarrow> unat (of_nat (length bs) :: u32) = length bs"
  by (simp add: unat_of_nat take_bit_nat_eq_self)

lemma writer_bytes_append:
  "length bs \<le> 4294967295 \<Longrightarrow> writer_bytes w bs = Inr (w @ enc_bytes bs)"
  by (simp add: writer_bytes_def writer_simps enc_bytes_def)

lemma length_string_bytes [simp]: "length (string_bytes s) = length s"
  by (simp add: string_bytes_def)

lemma unat_of_char: "unat (of_char c :: u8) = of_char c"
proof -
  have "unat (of_char c :: u8) = unat (of_nat (of_char c) :: u8)"
    by (simp only: of_nat_of_char)
  also have "\<dots> = of_char c"
    by (simp only: unat_of_nat) (simp add: take_bit_nat_eq_self)
  finally show ?thesis .
qed

lemma bytes_string_bytes [simp]: "bytes_string (string_bytes s) = s"
  by (simp add: bytes_string_def string_bytes_def o_def unat_of_char)

lemma writer_string_append:
  "length s \<le> 4294967295 \<Longrightarrow> writer_string w s = Inr (w @ enc_string s)"
  by (simp add: writer_string_def writer_bytes_append enc_string_def)

lemma reads_bytes:
  assumes "length bs \<le> m" "length bs \<le> 4294967295"
  shows "reads (reader_bytes m) (enc_bytes bs) bs"
  unfolding reader_bytes_def enc_bytes_def
  by (rule reads_bind[OF reads_u32], rule reads_if) (use assms in \<open>auto simp: unat_length_u32\<close>)

lemma cuts_bytes:
  assumes "length bs \<le> m" "length bs \<le> 4294967295"
  shows "cuts (reader_bytes m) (enc_bytes bs)"
  unfolding reader_bytes_def enc_bytes_def
  by (rule cuts_bind[OF reads_u32 cuts_ints(3)], rule cuts_if)
    (use assms in \<open>auto simp: unat_length_u32\<close>)

lemma reads_string:
  assumes "length s \<le> m" "length s \<le> 4294967295"
  shows "reads (reader_string m) (enc_string s) s"
proof -
  have "reads (reader_view_bytes m) (enc_string s) (string_bytes s)"
    unfolding reader_view_bytes_def enc_string_def enc_bytes_def
    by (rule reads_bind[OF reads_u32], rule reads_if) (use assms in \<open>auto simp: unat_of_nat take_bit_nat_eq_self\<close>)
  from reads_bind[OF this, of "\<lambda>v. retM (bytes_string v)" "[]" s] show ?thesis
    by (auto simp: reader_string_def intro: reads_ret)
qed

lemma cuts_string:
  assumes "length s \<le> m" "length s \<le> 4294967295"
  shows "cuts (reader_string m) (enc_string s)"
proof -
  have "cuts (reader_view_bytes m) (enc_string s)"
    unfolding reader_view_bytes_def enc_string_def enc_bytes_def
    by (rule cuts_bind[OF reads_u32 cuts_ints(3)], rule cuts_if) (use assms in \<open>auto simp: unat_of_nat take_bit_nat_eq_self\<close>)
  then show ?thesis
    unfolding cuts_def reader_string_def by (blast intro: fst_bindM_Inl)
qed

section \<open>The interface of an encoder and its decoder\<close>

locale codec =
  fixes enc :: "'a \<Rightarrow> Bytes"
    and dec :: "(Reader, 'a) prog"
    and ok :: "'a \<Rightarrow> bool"
  assumes reads_enc: "ok x \<Longrightarrow> reads dec (enc x) x"
    and cuts_enc: "ok x \<Longrightarrow> cuts dec (enc x)"
begin

lemma reads_repeat:
  "list_all ok xs \<Longrightarrow> reads (repeatM (length xs) dec) (concat (map enc xs)) xs"
proof (induction xs)
  case (Cons x xs)
  then have "reads (bindM (repeatM (length xs) dec) (\<lambda>ys. retM (x # ys)))
      (concat (map enc xs) @ []) (x # xs)"
    by (intro reads_bind) auto
  with Cons.prems reads_enc[of x] show ?case by (auto intro: reads_bind)
qed auto

lemma cuts_repeat:
  "list_all ok xs \<Longrightarrow> cuts (repeatM (length xs) dec) (concat (map enc xs))"
proof (induction xs)
  case (Cons x xs)
  then have "cuts (bindM (repeatM (length xs) dec) (\<lambda>ys. retM (x # ys)))
      (concat (map enc xs) @ [])"
    by (intro cuts_bind[OF reads_repeat]) auto
  with Cons.prems reads_enc[of x] cuts_enc[of x] show ?case by (auto intro: cuts_bind)
qed auto

text \<open>Started on an encoding alone, the decoder ends exactly at its end.\<close>

lemma dec_all:
  assumes "ok x"
  shows "fst (bindM dec (\<lambda>v. bindM reader_finish (\<lambda>_. retM v)) (reader (enc x))) = Inr x"
proof -
  have at: "reader_at (reader (enc x)) (enc x @ [])" by (simp add: reader_at_reader)
  from readsD[OF reads_enc[OF assms] at] finish_at[OF reader_at_advanced[OF at]]
  show ?thesis by (simp add: bindM_def)
qed

text \<open>No encoding is a prefix of another's: encodings can be told apart wherever they stand.\<close>

lemma enc_unique:
  assumes "ok x" "ok y" "enc x @ s = enc y @ t"
  shows "x = y \<and> s = t"
proof -
  have at: "reader_at (reader (enc x @ s)) (enc x @ s)" by (rule reader_at_reader)
  have at': "reader_at (reader (enc x @ s)) (enc y @ t)" by (simp add: at assms(3)[symmetric])
  from readsD[OF reads_enc[OF assms(1)] at] readsD[OF reads_enc[OF assms(2)] at']
  have "x = y" by simp
  then show ?thesis using assms(3) by simp
qed

lemma enc_inj: "ok x \<Longrightarrow> ok y \<Longrightarrow> enc x = enc y \<Longrightarrow> x = y"
  using enc_unique[of x y "[]" "[]"] by simp

lemma concat_enc_inj:
  assumes "list_all ok xs" "list_all ok ys" "length xs = length ys"
    and "concat (map enc xs) = concat (map enc ys)"
  shows "xs = ys"
  using assms(3,1,2,4)
  by (induction xs ys rule: list_induct2) (auto dest: enc_unique)

text \<open>Without the lengths, when no encoding is empty.\<close>

lemma concat_enc_inj_nonempty:
  assumes "list_all ok xs" "list_all ok ys" "\<And>x. ok x \<Longrightarrow> enc x \<noteq> []"
    and "concat (map enc xs) = concat (map enc ys)"
  shows "xs = ys"
  using assms(1,2,4)
proof (induction xs arbitrary: ys)
  case Nil
  then show ?case using assms(3) by (cases ys) auto
next
  case (Cons x xs)
  then obtain y ys' where ys: "ys = y # ys'" using assms(3) by (cases ys) auto
  with Cons.prems enc_unique[of x y] have "x = y" "concat (map enc xs) = concat (map enc ys')" by auto
  with Cons ys show ?case by auto
qed

end

interpretation u8c: codec enc_u8 reader_u8 "\<lambda>_. True"
  by unfold_locales auto

interpretation u16c: codec enc_u16 reader_u16 "\<lambda>_. True"
  by unfold_locales auto

interpretation u32c: codec enc_u32 reader_u32 "\<lambda>_. True"
  by unfold_locales auto

interpretation u64c: codec enc_u64 reader_u64 "\<lambda>_. True"
  by unfold_locales auto

interpretation fixed16c: codec "\<lambda>bs. bs" "reader_fixed 16" "\<lambda>bs. length bs = 16"
  by unfold_locales auto

interpretation fixed32c: codec "\<lambda>bs. bs" "reader_fixed 32" "\<lambda>bs. length bs = 32"
  by unfold_locales auto

interpretation strc: codec enc_string "reader_string 4096" "\<lambda>s. length s \<le> 4096"
  by unfold_locales (auto intro: reads_string cuts_string)

section \<open>Node descriptions\<close>

definition node_info_ok :: "NodeInfo \<Rightarrow> bool" where
  "node_info_ok n \<longleftrightarrow> length (ni_id n) = 16 \<and> length (ni_host n) \<le> 4096 \<and>
     length (ni_failure_domain n) \<le> 4096"

definition enc_node_info :: "NodeInfo \<Rightarrow> Bytes" where
  "enc_node_info n = ni_id n @ enc_string (ni_host n) @ enc_string (ni_failure_domain n) @
     enc_u16 (ni_port n) @ enc_u64 (ni_capacity n) @ enc_u64 (ni_used n) @
     enc_u64 (ni_seen_unix_ms n) @ enc_u64 (ni_metadata_generation n) @
     enc_u32 (ni_metadata_write_replicas_required n) @ enc_u8 (ni_flags n) @ []"

lemma encode_node_info_append:
  "node_info_ok n \<Longrightarrow> encode_node_info w n = Inr (w @ enc_node_info n)"
  by (simp add: encode_node_info_def node_info_ok_def enc_node_info_def writer_simps
      writer_string_append Let_def)

interpretation nodec: codec enc_node_info decode_node_info node_info_ok
proof unfold_locales
  fix n
  assume ok: "node_info_ok n"
  show "reads decode_node_info (enc_node_info n) n"
    unfolding decode_node_info_def enc_node_info_def
    by (intro reads_bind reads_u16 reads_u32 reads_u64 reads_u8 reads_ret_eq)
      (use ok in \<open>auto simp: node_info_ok_def intro: reads_string\<close>)
  show "cuts decode_node_info (enc_node_info n)"
    unfolding decode_node_info_def enc_node_info_def
    by (intro cuts_bind reads_u16 reads_u32 reads_u64 reads_u8 cuts_ints)
      (use ok in \<open>auto simp: node_info_ok_def intro: reads_string cuts_string\<close>)
qed

end
