(* ===== verification/Sealed_Journal.thy ===== *)
theory Sealed_Journal
  imports Codec
begin

text \<open>
  The crash-safe journal of sealed frames (\<^verbatim>\<open>src/storage/sealed_journal.cpp\<close>) and the part of
  \<^verbatim>\<open>src/crypto.cpp\<close> it calls. The object ledger's journals and node files and the retention
  store's claim log are all instances of it.

  OpenSSL is not part of the program: a record \<open>crypto\<close> holds the functions the code calls,
  and \<open>crypto_ok\<close> the documented behaviour the code relies on. Random nonces are an input:
  \<open>sj_nonces\<close> is the sequence of answers the journal's calls of \<^verbatim>\<open>RAND_bytes\<close> get.

  A file is the list of its bytes. \<open>sj_durable\<close> counts the bytes an \<^verbatim>\<open>fsync\<close> has made durable;
  a crash (\<open>sj_crash\<close>) keeps those and any part of what follows. Failing system calls (a full
  disk, an unreadable file) are not modelled.
\<close>

section \<open>Cryptography\<close>

record crypto =
  sha256 :: "Bytes \<Rightarrow> Hash256"
  evp_seal :: "Bytes \<Rightarrow> Bytes \<Rightarrow> Bytes \<Rightarrow> Bytes \<Rightarrow> Bytes \<times> Bytes"
    \<comment> \<open>key, nonce, associated data and plaintext to ciphertext and tag\<close>
  evp_open :: "Bytes \<Rightarrow> Bytes \<Rightarrow> Bytes \<Rightarrow> Bytes \<Rightarrow> Bytes \<Rightarrow> Bytes option"
    \<comment> \<open>key, nonce, associated data, tag and ciphertext to plaintext\<close>

text \<open>
  What the code relies on: a digest has 32 bytes, GCM keeps the length of the plaintext and adds
  a 16-byte tag, and opening what was sealed gives the plaintext back.
\<close>

definition crypto_ok :: "crypto \<Rightarrow> bool" where
  "crypto_ok C \<longleftrightarrow>
     (\<forall>p. length (sha256 C p) = 32) \<and>
     (\<forall>k n a p ct tag. evp_seal C k n a p = (ct, tag) \<longrightarrow>
        length ct = length p \<and> length tag = 16 \<and> evp_open C k n a tag ct = Some p)"

record SealedData =
  sd_nonce :: Bytes
  sd_tag :: Bytes
  sd_ciphertext :: Bytes

definition aes_gcm_seal :: "crypto \<Rightarrow> Bytes \<Rightarrow> Bytes \<Rightarrow> Bytes \<Rightarrow> Bytes \<Rightarrow> SealedData" where
  "aes_gcm_seal C k nonce p a =
     (case evp_seal C k nonce a p of
        (ct, tag) \<Rightarrow> \<lparr>sd_nonce = nonce, sd_tag = tag, sd_ciphertext = ct\<rparr>)"

definition aes_gcm_open ::
    "crypto \<Rightarrow> Bytes \<Rightarrow> Bytes \<Rightarrow> Bytes \<Rightarrow> Bytes \<Rightarrow> Bytes \<Rightarrow> Bytes result" where
  "aes_gcm_open C k n tag ct a =
     (case evp_open C k n a tag ct of
        None \<Rightarrow> Inl (RuntimeError ''AES-GCM authentication failed'')
      | Some p \<Rightarrow> Inr p)"

section \<open>The journal\<close>

record SealedJournal =
  sj_crypto :: crypto
  sj_nonces :: "nat \<Rightarrow> Bytes"
  sj_draws :: nat
  sj_key :: Bytes
  sj_aad :: Bytes
  sj_max_frame :: nat
  sj_file :: Bytes
  sj_durable :: nat
  sj_frames :: nat
  sj_bytes :: nat

definition frame_header :: nat where
  "frame_header = 4 + 12 + 16"

definition read_be32 :: "Bytes \<Rightarrow> u32" where
  "read_be32 p =
     or (or (or (push_bit 24 (ucast (p ! 0))) (push_bit 16 (ucast (p ! 1))))
        (push_bit 8 (ucast (p ! 2)))) (ucast (p ! 3))"

text \<open>\<^verbatim>\<open>pread_all\<close>: all of the bytes asked for, or a failure when the file ends before.\<close>

definition pread_all :: "Bytes \<Rightarrow> nat \<Rightarrow> nat \<Rightarrow> Bytes option" where
  "pread_all file n offset =
     (if offset + n \<le> length file then Some (take n (drop offset file)) else None)"

text \<open>A journal opened on a file that is on disk already, or on no file (the empty one).\<close>

definition SealedJournal_open ::
    "crypto \<Rightarrow> (nat \<Rightarrow> Bytes) \<Rightarrow> Bytes \<Rightarrow> Bytes \<Rightarrow> nat \<Rightarrow> Bytes \<Rightarrow> SealedJournal" where
  "SealedJournal_open C nonces key aad max_frame file =
     \<lparr>sj_crypto = C, sj_nonces = nonces, sj_draws = 0, sj_key = key, sj_aad = aad,
      sj_max_frame = max_frame, sj_file = file, sj_durable = length file, sj_frames = 0,
      sj_bytes = length file\<rparr>"

text \<open>
  One turn of the replay loop: where the frame at \<open>offset\<close> ends and what it seals, or nothing
  when it is torn, too long or short. The result of opening it is left to the caller.
\<close>

definition replay_frame ::
    "SealedJournal \<Rightarrow> nat \<Rightarrow> nat \<Rightarrow> (nat \<times> Bytes result) option" where
  "replay_frame j max_read offset =
     (if length (sj_file j) < offset + 4 then None
      else case pread_all (sj_file j) 4 offset of
        None \<Rightarrow> None
      | Some length_bytes \<Rightarrow>
          let len = unat (read_be32 length_bytes); frame_size = frame_header + len in
          if len > max_read then None
          else if offset + frame_size > length (sj_file j) then None
          else case (pread_all (sj_file j) 12 (offset + 4), pread_all (sj_file j) 16 (offset + 16),
                     pread_all (sj_file j) len (offset + 32)) of
            (Some nonce, Some tag, Some ct) \<Rightarrow>
              Some (offset + frame_size,
                aes_gcm_open (sj_crypto j) (sj_key j) nonce tag ct (sj_aad j))
          | _ \<Rightarrow> None)"

lemma replay_frame_advances:
  "replay_frame j m off = Some (off', r) \<Longrightarrow> off < off' \<and> off' \<le> length (sj_file j)"
  by (auto simp: replay_frame_def frame_header_def Let_def split: if_splits option.splits)

text \<open>
  The replay loop: \<open>apply\<close> is called on each frame that opens, oldest first; a frame that will
  not open or that \<open>apply\<close> throws on ends the loop. Returns the end of the last applied frame,
  how many there were, and the caller's state.
\<close>

function replay_loop ::
    "SealedJournal \<Rightarrow> (Bytes \<Rightarrow> ('s, unit) prog) \<Rightarrow> nat \<Rightarrow> nat \<Rightarrow> nat \<Rightarrow> 's \<Rightarrow> nat \<times> nat \<times> 's"
where
  "replay_loop j apply max_read offset frames s =
     (case replay_frame j max_read offset of
        None \<Rightarrow> (offset, frames, s)
      | Some (next, Inl _) \<Rightarrow> (offset, frames, s)
      | Some (next, Inr plain) \<Rightarrow>
          (case apply plain s of
             (Inl _, s') \<Rightarrow> (offset, frames, s')
           | (Inr _, s') \<Rightarrow> replay_loop j apply max_read next (frames + 1) s'))"
  by pat_completeness auto
termination
  by (relation "measure (\<lambda>(j, _, _, offset, _, _). length (sj_file j) - offset)")
    (auto dest: replay_frame_advances)

declare replay_loop.simps [simp del]

definition SealedJournal_replay ::
    "(Bytes \<Rightarrow> ('s, unit) prog) \<Rightarrow> nat \<Rightarrow> SealedJournal \<Rightarrow> 's \<Rightarrow> SealedJournal \<times> 's" where
  "SealedJournal_replay apply max_read j s =
     (case replay_loop j apply max_read 0 0 s of
        (durable, frames, s') \<Rightarrow>
          (j\<lparr>sj_file := take durable (sj_file j),
             sj_durable := (if durable \<noteq> length (sj_file j) then durable else sj_durable j),
             sj_frames := frames, sj_bytes := durable\<rparr>, s'))"

definition seal_frame :: "crypto \<Rightarrow> Bytes \<Rightarrow> Bytes \<Rightarrow> Bytes \<Rightarrow> Bytes \<Rightarrow> nat \<Rightarrow> Bytes result" where
  "seal_frame C key aad nonce plaintext max_frame =
     (let sealed = aes_gcm_seal C key nonce plaintext aad in
      if length (sd_ciphertext sealed) > max_frame
      then Inl (RuntimeError ''journal frame too large'')
      else let len = (of_nat (length (sd_ciphertext sealed)) :: u32) in
        Inr ([ucast (drop_bit 24 len), ucast (drop_bit 16 len), ucast (drop_bit 8 len), ucast len]
          @ sd_nonce sealed @ sd_tag sealed @ sd_ciphertext sealed))"

definition append_unsynced :: "Bytes \<Rightarrow> (SealedJournal, nat) prog" where
  "append_unsynced plaintext = bindM getM (\<lambda>j.
     bindM (modifyM (\<lambda>j. j\<lparr>sj_draws := sj_draws j + 1\<rparr>)) (\<lambda>_.
     case seal_frame (sj_crypto j) (sj_key j) (sj_aad j) (sj_nonces j (sj_draws j)) plaintext
            (sj_max_frame j) of
       Inl e \<Rightarrow> raiseM e
     | Inr frame \<Rightarrow>
         bindM (modifyM (\<lambda>j. j\<lparr>sj_file := sj_file j @ frame, sj_frames := sj_frames j + 1,
                              sj_bytes := sj_bytes j + length frame\<rparr>)) (\<lambda>_.
         retM (sj_bytes j))))"

text \<open>
  The code does nothing while no descriptor is open; the first write through the journal opens one.
\<close>

definition journal_sync :: "(SealedJournal, unit) prog" where
  "journal_sync = modifyM (\<lambda>j. j\<lparr>sj_durable := length (sj_file j)\<rparr>)"

definition journal_append :: "Bytes \<Rightarrow> (SealedJournal, unit) prog" where
  "journal_append plaintext = bindM (append_unsynced plaintext) (\<lambda>_. journal_sync)"

definition read_frame ::
    "crypto \<Rightarrow> Bytes \<Rightarrow> Bytes \<Rightarrow> Bytes \<Rightarrow> nat \<Rightarrow> nat \<Rightarrow> nat \<Rightarrow> Bytes result" where
  "read_frame C file key aad max_frame limit offset =
     (if offset + frame_header > limit then Inl (RuntimeError ''no journal frame at offset'')
      else case pread_all file 4 offset of
        None \<Rightarrow> Inl (RuntimeError ''no journal frame at offset'')
      | Some length_bytes \<Rightarrow>
          let len = unat (read_be32 length_bytes) in
          if len > max_frame \<or> offset + frame_header + len > limit
          then Inl (RuntimeError ''journal frame runs past the end'')
          else case (pread_all file 12 (offset + 4), pread_all file 16 (offset + 16),
                     pread_all file len (offset + 32)) of
            (Some nonce, Some tag, Some ct) \<Rightarrow> aes_gcm_open C key nonce tag ct aad
          | _ \<Rightarrow> Inl (RuntimeError ''short journal frame''))"

definition journal_read_at :: "SealedJournal \<Rightarrow> nat \<Rightarrow> Bytes result" where
  "journal_read_at j offset =
     read_frame (sj_crypto j) (sj_file j) (sj_key j) (sj_aad j) (sj_max_frame j) (sj_bytes j) offset"

text \<open>
  A read-only handle: its descriptor keeps the file as it is now, and later appends lie beyond
  its limit.
\<close>

record FrameReader =
  fr_crypto :: crypto
  fr_file :: Bytes
  fr_key :: Bytes
  fr_aad :: Bytes
  fr_max_frame :: nat
  fr_limit :: nat

definition journal_reader :: "SealedJournal \<Rightarrow> FrameReader" where
  "journal_reader j =
     \<lparr>fr_crypto = sj_crypto j, fr_file = sj_file j, fr_key = sj_key j, fr_aad = sj_aad j,
      fr_max_frame = sj_max_frame j, fr_limit = sj_bytes j\<rparr>"

definition frame_reader_read_at :: "FrameReader \<Rightarrow> nat \<Rightarrow> Bytes result" where
  "frame_reader_read_at f offset =
     read_frame (fr_crypto f) (fr_file f) (fr_key f) (fr_aad f) (fr_max_frame f) (fr_limit f) offset"

definition journal_reset :: "SealedJournal \<Rightarrow> SealedJournal" where
  "journal_reset j = j\<lparr>sj_file := [], sj_durable := 0, sj_frames := 0, sj_bytes := 0\<rparr>"

text \<open>A crash: what was synced survives, of the rest any leading part.\<close>

definition sj_crash :: "nat \<Rightarrow> SealedJournal \<Rightarrow> SealedJournal" where
  "sj_crash k j =
     SealedJournal_open (sj_crypto j) (sj_nonces j) (sj_key j) (sj_aad j) (sj_max_frame j)
       (take (max (sj_durable j) k) (sj_file j))"

section \<open>Frames\<close>

definition frame_of :: "crypto \<Rightarrow> Bytes \<Rightarrow> Bytes \<Rightarrow> Bytes \<Rightarrow> Bytes \<Rightarrow> Bytes" where
  "frame_of C key aad nonce p =
     (case evp_seal C key nonce aad p of
        (ct, tag) \<Rightarrow> enc_u32 (of_nat (length ct)) @ nonce @ tag @ ct)"

lemma crypto_okD:
  assumes "crypto_ok C" "evp_seal C k n a p = (ct, tag)"
  shows "length ct = length p" "length tag = 16" "evp_open C k n a tag ct = Some p"
  using assms by (auto simp: crypto_ok_def)

lemma length_sha256: "crypto_ok C \<Longrightarrow> length (sha256 C p) = 32"
  by (simp add: crypto_ok_def)

lemma length_frame_of:
  assumes "crypto_ok C" "length n = 12"
  shows "length (frame_of C key aad n p) = frame_header + length p"
  using crypto_okD[OF assms(1)] assms(2)
  by (auto simp: frame_of_def frame_header_def split: prod.splits)

lemma seal_frame_ok:
  assumes "crypto_ok C" "length p \<le> m"
  shows "seal_frame C key aad n p m = Inr (frame_of C key aad n p)"
  using assms crypto_okD(1)[OF assms(1)]
  by (auto simp: seal_frame_def aes_gcm_seal_def frame_of_def Let_def enc_u32_def writer_u32_def
      split: prod.splits)

lemma seal_frame_too_large:
  assumes "crypto_ok C" "length p > m"
  shows "seal_frame C key aad n p m = Inl (RuntimeError ''journal frame too large'')"
  using assms crypto_okD(1)[OF assms(1)]
  by (auto simp: seal_frame_def aes_gcm_seal_def Let_def split: prod.splits)

lemma read_be32_enc: "read_be32 (enc_u32 v) = v"
proof -
  have "read_be32 (enc_u32 v) = join_bytes (enc_u32 v)"
    by (simp add: read_be32_def join_bytes_def enc_u32_def writer_u32_def push_bit_or
        push_bit_push_bit del: drop_bit_eq_div)
  then show ?thesis by (simp add: join_enc)
qed

lemma pread_all_at:
  assumes "file = pre @ x @ post" "off = length pre" "n = length x"
  shows "pread_all file n off = Some x"
  using assms by (simp add: pread_all_def)

text \<open>What stands at the offset of a whole frame.\<close>

lemma frame_fields:
  assumes "crypto_ok C" "length n = 12" "length p < 4294967296"
    and fl: "file = pre @ frame_of C key aad n p @ post"
  obtains ct tag where
    "evp_open C key n aad tag ct = Some p" "length ct = length p"
    "pread_all file 4 (length pre) = Some (enc_u32 (of_nat (length p)))"
    "pread_all file 12 (length pre + 4) = Some n"
    "pread_all file 16 (length pre + 16) = Some tag"
    "pread_all file (length p) (length pre + 32) = Some ct"
proof -
  obtain ct tag where seal: "evp_seal C key n aad p = (ct, tag)" by fastforce
  note * = crypto_okD[OF assms(1) seal]
  have f: "file = pre @ enc_u32 (of_nat (length p)) @ n @ tag @ ct @ post"
    using fl seal *(1) by (simp add: frame_of_def)
  have 1: "pread_all file 4 (length pre) = Some (enc_u32 (of_nat (length p)))"
    by (rule pread_all_at[OF f]) simp_all
  have 2: "pread_all file 12 (length pre + 4) = Some n"
    by (rule pread_all_at[where pre = "pre @ enc_u32 (of_nat (length p))" and post = "tag @ ct @ post"])
      (use f assms(2) in simp_all)
  have 3: "pread_all file 16 (length pre + 16) = Some tag"
    by (rule pread_all_at[where pre = "pre @ enc_u32 (of_nat (length p)) @ n" and post = "ct @ post"])
      (use f assms(2) *(2) in simp_all)
  have 4: "pread_all file (length p) (length pre + 32) = Some ct"
    by (rule pread_all_at[where pre = "pre @ enc_u32 (of_nat (length p)) @ n @ tag" and post = post])
      (use f assms(2) *(1,2) in simp_all)
  show ?thesis using that[OF *(3) *(1) 1 2 3 4] .
qed

lemma unat_of_length: "n < 4294967296 \<Longrightarrow> unat (of_nat n :: u32) = n"
  by (simp add: unat_of_nat take_bit_nat_eq_self)

lemma read_frame_whole:
  assumes "crypto_ok C" "length n = 12" "length p \<le> m" "m < 4294967296"
    and fl: "file = pre @ frame_of C key aad n p @ post"
    and lim: "length pre + frame_header + length p \<le> lim"
  shows "read_frame C file key aad m lim (length pre) = Inr p"
proof -
  have p: "length p < 4294967296" using assms by simp
  from frame_fields[OF assms(1,2) p fl] obtain ct tag where
    "evp_open C key n aad tag ct = Some p" "length ct = length p"
    "pread_all file 4 (length pre) = Some (enc_u32 (of_nat (length p)))"
    "pread_all file 12 (length pre + 4) = Some n"
    "pread_all file 16 (length pre + 16) = Some tag"
    "pread_all file (length p) (length pre + 32) = Some ct" .
  then show ?thesis
    using lim p assms(3) unat_of_length[OF p]
    by (simp add: read_frame_def Let_def read_be32_enc aes_gcm_open_def)
qed

lemma replay_frame_whole:
  assumes "crypto_ok (sj_crypto j)" "length n = 12" "length p \<le> m" "m < 4294967296"
    and fl: "sj_file j = pre @ frame_of (sj_crypto j) (sj_key j) (sj_aad j) n p @ post"
  shows "replay_frame j m (length pre) = Some (length pre + frame_header + length p, Inr p)"
proof -
  have p: "length p < 4294967296" using assms by simp
  from frame_fields[OF assms(1,2) p fl] obtain ct tag where
    "evp_open (sj_crypto j) (sj_key j) n (sj_aad j) tag ct = Some p" "length ct = length p"
    "pread_all (sj_file j) 4 (length pre) = Some (enc_u32 (of_nat (length p)))"
    "pread_all (sj_file j) 12 (length pre + 4) = Some n"
    "pread_all (sj_file j) 16 (length pre + 16) = Some tag"
    "pread_all (sj_file j) (length p) (length pre + 32) = Some ct" .
  moreover have "length (sj_file j) = length pre + (frame_header + length p) + length post"
    using arg_cong[OF fl, of length] length_frame_of[OF assms(1,2)] by simp
  ultimately show ?thesis
    using p assms(3) unat_of_length[OF p]
    by (simp add: replay_frame_def Let_def read_be32_enc aes_gcm_open_def frame_header_def)
qed

text \<open>A frame cut short is never taken for one.\<close>

lemma replay_frame_torn:
  assumes "crypto_ok (sj_crypto j)" "length n = 12" "length p < 4294967296"
    and fl: "sj_file j = pre @ q"
    and q: "strict_prefix q (frame_of (sj_crypto j) (sj_key j) (sj_aad j) n p)"
  shows "replay_frame j m (length pre) = None"
proof (cases "length q < 4")
  case True
  with fl show ?thesis by (simp add: replay_frame_def)
next
  case False
  obtain ct tag where seal: "evp_seal (sj_crypto j) (sj_key j) n (sj_aad j) p = (ct, tag)"
    by fastforce
  have len: "length q < frame_header + length p"
    using prefix_length_less[OF q] length_frame_of[OF assms(1,2)] by simp
  have "take 4 q = enc_u32 (of_nat (length p))"
  proof -
    obtain z where "enc_u32 (of_nat (length p)) @ n @ tag @ ct = q @ z"
      using q seal crypto_okD(1)[OF assms(1) seal]
      by (auto simp: frame_of_def strict_prefix_def prefix_def)
    then have "take 4 (enc_u32 (of_nat (length p)) @ n @ tag @ ct) = take 4 (q @ z)" by simp
    with False show ?thesis by simp
  qed
  then have "pread_all (sj_file j) 4 (length pre) = Some (enc_u32 (of_nat (length p)))"
    using False fl by (simp add: pread_all_def)
  with len fl unat_of_length[OF assms(3)] show ?thesis
    by (simp add: replay_frame_def Let_def read_be32_enc)
qed

section \<open>What a journal holds\<close>

text \<open>The file of the frames that seal \<open>ps\<close>, a pair of a nonce and a payload each.\<close>

definition frames_file :: "crypto \<Rightarrow> Bytes \<Rightarrow> Bytes \<Rightarrow> (Bytes \<times> Bytes) list \<Rightarrow> Bytes" where
  "frames_file C key aad nps = concat (map (\<lambda>(n, p). frame_of C key aad n p) nps)"

definition sealed_by :: "SealedJournal \<Rightarrow> (Bytes \<times> Bytes) list \<Rightarrow> Bytes" where
  "sealed_by j = frames_file (sj_crypto j) (sj_key j) (sj_aad j)"

definition frames_ok :: "nat \<Rightarrow> (Bytes \<times> Bytes) list \<Rightarrow> bool" where
  "frames_ok m nps \<longleftrightarrow> (\<forall>(n, p) \<in> set nps. length n = 12 \<and> length p \<le> m)"

definition journal_ok :: "SealedJournal \<Rightarrow> bool" where
  "journal_ok j \<longleftrightarrow>
     crypto_ok (sj_crypto j) \<and> (\<forall>i. length (sj_nonces j i) = 12) \<and>
     sj_max_frame j < 4294967296 \<and> sj_bytes j = length (sj_file j) \<and>
     sj_durable j \<le> length (sj_file j)"

text \<open>
  \<open>journal_holds j ps d\<close>: the journal's file is exactly the frames sealing \<open>ps\<close>, of which the
  first \<open>d\<close> are durable. \<open>journal_torn j ps\<close>: the file is the frames of \<open>ps\<close> and possibly a
  part of one more, as after a crash.
\<close>

definition journal_holds :: "SealedJournal \<Rightarrow> Bytes list \<Rightarrow> nat \<Rightarrow> bool" where
  "journal_holds j ps d \<longleftrightarrow> journal_ok j \<and>
     (\<exists>nps. map snd nps = ps \<and> frames_ok (sj_max_frame j) nps \<and> sj_file j = sealed_by j nps \<and>
        d \<le> length ps \<and> length (sealed_by j (take d nps)) \<le> sj_durable j)"

definition torn_tail :: "SealedJournal \<Rightarrow> Bytes \<Rightarrow> bool" where
  "torn_tail j q \<longleftrightarrow> q = [] \<or>
     (\<exists>n p. length n = 12 \<and> length p \<le> sj_max_frame j \<and>
        strict_prefix q (frame_of (sj_crypto j) (sj_key j) (sj_aad j) n p))"

definition journal_torn :: "SealedJournal \<Rightarrow> Bytes list \<Rightarrow> bool" where
  "journal_torn j ps \<longleftrightarrow> journal_ok j \<and> sj_durable j = length (sj_file j) \<and>
     (\<exists>nps q. map snd nps = ps \<and> frames_ok (sj_max_frame j) nps \<and>
        sj_file j = sealed_by j nps @ q \<and> torn_tail j q)"

text \<open>The specification of a replay: the payloads applied in order until one throws.\<close>

fun apply_frames :: "(Bytes \<Rightarrow> ('s, unit) prog) \<Rightarrow> Bytes list \<Rightarrow> 's \<Rightarrow> nat \<times> 's" where
  "apply_frames f [] s = (0, s)"
| "apply_frames f (p # ps) s =
     (case f p s of
        (Inl _, s') \<Rightarrow> (0, s')
      | (Inr _, s') \<Rightarrow> (case apply_frames f ps s' of (k, s'') \<Rightarrow> (Suc k, s'')))"

lemma frames_file_simps [simp]:
  "frames_file C key aad [] = []"
  "frames_file C key aad ((n, p) # nps) = frame_of C key aad n p @ frames_file C key aad nps"
  "frames_file C key aad (xs @ ys) = frames_file C key aad xs @ frames_file C key aad ys"
  by (simp_all add: frames_file_def)

lemma frames_ok_simps [simp]:
  "frames_ok m []"
  "frames_ok m ((n, p) # nps) \<longleftrightarrow> length n = 12 \<and> length p \<le> m \<and> frames_ok m nps"
  "frames_ok m (xs @ ys) \<longleftrightarrow> frames_ok m xs \<and> frames_ok m ys"
  by (auto simp: frames_ok_def)

lemma frames_ok_take: "frames_ok m nps \<Longrightarrow> frames_ok m (take k nps)"
  by (auto simp: frames_ok_def dest: in_set_takeD)

lemma journal_okD:
  assumes "journal_ok j"
  shows "crypto_ok (sj_crypto j)" "length (sj_nonces j i) = 12" "sj_max_frame j < 4294967296"
    "sj_bytes j = length (sj_file j)" "sj_durable j \<le> length (sj_file j)"
  using assms by (auto simp: journal_ok_def)

lemma apply_frames_le: "fst (apply_frames f ps s) \<le> length ps"
  by (induction f ps s rule: apply_frames.induct) (auto split: prod.splits sum.splits)

lemma apply_frames_total:
  assumes "\<And>p t. p \<in> set ps \<Longrightarrow> \<exists>t'. f p t = (Inr (), t')"
  shows "apply_frames f ps s = (length ps, fold (\<lambda>p t. snd (f p t)) ps s)"
  using assms
proof (induction ps arbitrary: s)
  case (Cons p ps)
  obtain t' where "f p s = (Inr (), t')" using Cons.prems[of p s] by auto
  with Cons show ?case by simp
qed simp

section \<open>Appending, reading and replaying\<close>

lemma append_unsynced_ok:
  assumes "journal_ok j" "length p \<le> sj_max_frame j"
  shows "append_unsynced p j =
    (Inr (sj_bytes j),
     j\<lparr>sj_draws := sj_draws j + 1,
       sj_file := sj_file j @ frame_of (sj_crypto j) (sj_key j) (sj_aad j)
                    (sj_nonces j (sj_draws j)) p,
       sj_frames := sj_frames j + 1, sj_bytes := sj_bytes j + (frame_header + length p)\<rparr>)"
  using assms length_frame_of[OF journal_okD(1,2)[OF assms(1)]]
  by (simp add: append_unsynced_def seal_frame_ok[OF journal_okD(1)[OF assms(1)]])

lemma append_unsynced_too_large:
  assumes "journal_ok j" "length p > sj_max_frame j"
  shows "append_unsynced p j =
    (Inl (RuntimeError ''journal frame too large''), j\<lparr>sj_draws := sj_draws j + 1\<rparr>)"
  using assms
  by (simp add: append_unsynced_def seal_frame_too_large[OF journal_okD(1)[OF assms(1)]])

lemma journal_append_eq:
  "journal_append p j =
     (case append_unsynced p j of
        (Inl e, j') \<Rightarrow> (Inl e, j')
      | (Inr _, j') \<Rightarrow> (Inr (), j'\<lparr>sj_durable := length (sj_file j')\<rparr>))"
  by (auto simp: journal_append_def journal_sync_def bindM_def split: prod.splits sum.splits)

lemma replay_loop_frames:
  assumes "crypto_ok (sj_crypto j)" "m < 4294967296" "frames_ok m nps" "sj_max_frame j = m"
    and fl: "sj_file j = pre @ sealed_by j nps @ q" and q: "torn_tail j q"
  shows "replay_loop j f m (length pre) c s =
    (case apply_frames f (map snd nps) s of
       (k, s') \<Rightarrow> (length pre + length (sealed_by j (take k nps)), c + k, s'))"
  using assms(3) fl
proof (induction nps arbitrary: pre c s)
  case Nil
  have "replay_frame j m (length pre) = None"
  proof (cases "q = []")
    case True
    with Nil show ?thesis by (simp add: replay_frame_def sealed_by_def)
  next
    case False
    with q obtain n p where "length n = 12" "length p \<le> m"
      "strict_prefix q (frame_of (sj_crypto j) (sj_key j) (sj_aad j) n p)"
      using assms(4) by (auto simp: torn_tail_def)
    with Nil replay_frame_torn[OF assms(1), of n p pre q] assms(2) show ?thesis
      by (simp add: sealed_by_def)
  qed
  then show ?case by (subst replay_loop.simps) (simp add: sealed_by_def)
next
  case (Cons np nps)
  obtain n p where np: "np = (n, p)" by (cases np)
  let ?fr = "frame_of (sj_crypto j) (sj_key j) (sj_aad j) n p"
  from Cons.prems np have n: "length n = 12" "length p \<le> m" by simp_all
  have len: "length ?fr = frame_header + length p" by (rule length_frame_of[OF assms(1) n(1)])
  have fr: "replay_frame j m (length pre) = Some (length pre + frame_header + length p, Inr p)"
    using Cons.prems np
    by (intro replay_frame_whole[OF assms(1) n assms(2)]) (simp add: sealed_by_def)
  have next_file: "sj_file j = (pre @ ?fr) @ sealed_by j nps @ q"
    using Cons.prems(2) np by (simp add: sealed_by_def)
  note IH = Cons.IH[OF _ next_file, of "c + 1"]
  show ?case
    using Cons.prems IH fr np len
    by (subst replay_loop.simps)
       (auto simp: sealed_by_def add.assoc split: prod.splits sum.splits)
qed

lemma SealedJournal_replay_torn:
  assumes "journal_torn j ps" "SealedJournal_replay f (sj_max_frame j) j s = (j', s')"
  shows "apply_frames f ps s = (sj_frames j', s')"
    "journal_holds j' (take (sj_frames j') ps) (sj_frames j')"
proof -
  from assms(1) obtain nps q where *: "journal_ok j" "sj_durable j = length (sj_file j)"
    "map snd nps = ps" "frames_ok (sj_max_frame j) nps" "sj_file j = sealed_by j nps @ q"
    "torn_tail j q" by (auto simp: journal_torn_def)
  obtain k s1 where ap: "apply_frames f ps s = (k, s1)" by fastforce
  have k: "k \<le> length nps"
    using apply_frames_le[of f ps s] ap *(3) by (simp flip: length_map[of snd])
  let ?d = "length (sealed_by j (take k nps))"
  have "replay_loop j f (sj_max_frame j) 0 0 s = (?d, k, s1)"
    using replay_loop_frames[where pre = "[]" and c = 0 and f = f and s = s, OF journal_okD(1,3)[OF *(1)] *(4) refl _ *(6)]
      *(3,5) ap by simp
  with assms(2) have j': "j' = j\<lparr>sj_file := take ?d (sj_file j), sj_durable := ?d,
      sj_frames := k, sj_bytes := ?d\<rparr>" "s' = s1"
    using *(2) by (auto simp: SealedJournal_replay_def split: if_splits)
  have "sealed_by j nps = sealed_by j (take k nps) @ sealed_by j (drop k nps)"
    by (simp add: sealed_by_def flip: frames_file_simps(3))
  then have fl: "take ?d (sj_file j) = sealed_by j (take k nps)" using *(5) by simp
  show "apply_frames f ps s = (sj_frames j', s')" using ap j' by simp
  have "journal_ok j'" using *(1) fl j' by (simp add: journal_ok_def)
  moreover have "map snd (take k nps) = take k ps" using *(3) by (simp flip: take_map)
  moreover have "frames_ok (sj_max_frame j') (take k nps)" using *(4) j' by (simp add: frames_ok_take)
  moreover have "sealed_by j' = sealed_by j" by (simp add: j' sealed_by_def)
  moreover have "k \<le> length (take k ps)" using k *(3) by auto
  ultimately show "journal_holds j' (take (sj_frames j') ps) (sj_frames j')"
    unfolding journal_holds_def using fl j' by (auto intro!: exI[of _ "take k nps"])
qed

lemma journal_append_holds:
  assumes "journal_holds j ps d" "length p \<le> sj_max_frame j"
  obtains j' where "journal_append p j = (Inr (), j')" "journal_holds j' (ps @ [p]) (length ps + 1)"
    "sj_max_frame j' = sj_max_frame j"
proof -
  from assms(1) obtain nps where *: "journal_ok j" "map snd nps = ps"
    "frames_ok (sj_max_frame j) nps" "sj_file j = sealed_by j nps" by (auto simp: journal_holds_def)
  let ?n = "sj_nonces j (sj_draws j)"
  let ?j = "snd (journal_append p j)"
  have app: "journal_append p j = (Inr (), ?j)" and mf: "sj_max_frame ?j = sj_max_frame j"
    using append_unsynced_ok[OF *(1) assms(2)] by (simp_all add: journal_append_eq)
  have ok: "journal_ok ?j"
    using *(1) append_unsynced_ok[OF *(1) assms(2)] length_frame_of[OF journal_okD(1,2)[OF *(1)]]
    by (simp add: journal_append_eq journal_ok_def)
  moreover have "sj_file ?j = sealed_by ?j (nps @ [(?n, p)])" "sj_durable ?j = length (sj_file ?j)"
    using *(4) append_unsynced_ok[OF *(1) assms(2)]
    by (simp_all add: journal_append_eq sealed_by_def)
  moreover have "frames_ok (sj_max_frame ?j) (nps @ [(?n, p)])"
    using *(3) assms(2) journal_okD(2)[OF *(1)] mf by simp
  moreover have "map snd (nps @ [(?n, p)]) = ps @ [p]" using *(2) by simp
  ultimately have "journal_holds ?j (ps @ [p]) (length ps + 1)"
    unfolding journal_holds_def by (auto intro!: exI[of _ "nps @ [(?n, p)]"] simp flip: *(2))
  with that app mf show ?thesis by blast
qed

lemma append_unsynced_holds:
  assumes "journal_holds j ps d" "length p \<le> sj_max_frame j"
  obtains j' where "append_unsynced p j = (Inr (sj_bytes j), j')" "journal_holds j' (ps @ [p]) d"
    "sj_bytes j' = sj_bytes j + (frame_header + length p)"
proof -
  from assms(1) obtain nps where *: "journal_ok j" "map snd nps = ps"
    "frames_ok (sj_max_frame j) nps" "sj_file j = sealed_by j nps" "d \<le> length ps"
    "length (sealed_by j (take d nps)) \<le> sj_durable j" by (auto simp: journal_holds_def)
  let ?n = "sj_nonces j (sj_draws j)"
  let ?j = "snd (append_unsynced p j)"
  note app = append_unsynced_ok[OF *(1) assms(2)]
  have ok: "journal_ok ?j"
    using *(1) app length_frame_of[OF journal_okD(1,2)[OF *(1)]] by (simp add: journal_ok_def)
  have "frames_ok (sj_max_frame ?j) (nps @ [(?n, p)])" using *(3) assms(2) journal_okD(2)[OF *(1)] app by simp
  moreover have "sj_file ?j = sealed_by ?j (nps @ [(?n, p)])" using *(4) app by (simp add: sealed_by_def)
  moreover have "take d (nps @ [(?n, p)]) = take d nps" using *(2,5) by auto
  then have "length (sealed_by ?j (take d (nps @ [(?n, p)]))) \<le> sj_durable ?j" using *(6) app by (simp add: sealed_by_def)
  ultimately have "journal_holds ?j (ps @ [p]) d"
    using ok *(2,5) unfolding journal_holds_def by (intro conjI exI[of _ "nps @ [(?n, p)]"]) simp_all
  with that app show ?thesis by simp
qed

lemma journal_append_rejects:
  assumes "journal_holds j ps d" "sj_max_frame j < length p"
  shows "journal_append p j =
      (Inl (RuntimeError ''journal frame too large''), j\<lparr>sj_draws := sj_draws j + 1\<rparr>)"
    "journal_holds (j\<lparr>sj_draws := sj_draws j + 1\<rparr>) ps d"
  using assms append_unsynced_too_large[of j p]
  by (auto simp: journal_append_eq journal_holds_def journal_ok_def sealed_by_def)

text \<open>Cutting a file of frames leaves some of them whole and at most one torn.\<close>

lemma frames_cut:
  assumes "frames_ok m nps" "m = sj_max_frame j" "c \<le> length (sealed_by j nps)"
  obtains k q where "k \<le> length nps" "take c (sealed_by j nps) = sealed_by j (take k nps) @ q"
    "torn_tail j q" "\<And>d. length (sealed_by j (take d nps)) \<le> c \<Longrightarrow> d \<le> length nps \<Longrightarrow> d \<le> k"
  using assms(1,3)
proof (induction nps arbitrary: c thesis)
  case Nil
  then show ?case by (auto simp: sealed_by_def torn_tail_def)
next
  case (Cons np nps)
  obtain n p where np: "np = (n, p)" by (cases np)
  let ?fr = "frame_of (sj_crypto j) (sj_key j) (sj_aad j) n p"
  have all: "sealed_by j (np # nps) = ?fr @ sealed_by j nps" by (simp add: np sealed_by_def)
  show ?case
  proof (cases "length ?fr \<le> c")
    case True
    have "c - length ?fr \<le> length (sealed_by j nps)" using Cons.prems(3) all by simp
    from Cons.IH[OF _ _ this] Cons.prems(2) np obtain k q where
      k: "k \<le> length nps" "take (c - length ?fr) (sealed_by j nps) = sealed_by j (take k nps) @ q"
        "torn_tail j q"
        "\<And>d. length (sealed_by j (take d nps)) \<le> c - length ?fr \<Longrightarrow> d \<le> length nps \<Longrightarrow> d \<le> k"
      by auto
    have "take c (sealed_by j (np # nps)) = sealed_by j (take (Suc k) (np # nps)) @ q"
      using True k(2) by (simp add: all) (simp add: np sealed_by_def)
    moreover have "d \<le> Suc k" if "length (sealed_by j (take d (np # nps))) \<le> c"
      "d \<le> length (np # nps)" for d
      using that k(4)[of "d - 1"] True by (cases d) (auto simp: np sealed_by_def)
    ultimately show ?thesis using Cons.prems(1)[of "Suc k" q] k(1,3) by simp
  next
    case False
    have "strict_prefix (take c ?fr) ?fr"
      using False by (metis length_take min.absorb4 nat_less_le not_le strict_prefix_def take_is_prefix)
    then have "torn_tail j (take c ?fr)"
      using Cons.prems(2) np assms(2) by (auto simp: torn_tail_def)
    moreover have "d \<le> 0" if "length (sealed_by j (take d (np # nps))) \<le> c" for d
      using that False by (cases d) (auto simp: np sealed_by_def)
    ultimately show ?thesis
      using Cons.prems(1)[of 0 "take c ?fr"] False by (auto simp: all) (simp add: sealed_by_def)
  qed
qed

lemma sj_crash_torn:
  assumes "journal_holds j ps d"
  shows "\<exists>k. d \<le> k \<and> k \<le> length ps \<and> journal_torn (sj_crash c j) (take k ps)"
proof -
  from assms obtain nps where *: "journal_ok j" "map snd nps = ps"
    "frames_ok (sj_max_frame j) nps" "sj_file j = sealed_by j nps" "d \<le> length ps"
    "length (sealed_by j (take d nps)) \<le> sj_durable j" by (auto simp: journal_holds_def)
  let ?c = "min (max (sj_durable j) c) (length (sj_file j))"
  have fl: "sj_file (sj_crash c j) = take ?c (sealed_by j nps)"
    using *(4) by (auto simp: sj_crash_def SealedJournal_open_def min_def)
  from frames_cut[OF *(3) refl, of ?c] *(4) obtain k q where
    k: "k \<le> length nps" "take ?c (sealed_by j nps) = sealed_by j (take k nps) @ q" "torn_tail j q"
      "\<And>d. length (sealed_by j (take d nps)) \<le> ?c \<Longrightarrow> d \<le> length nps \<Longrightarrow> d \<le> k" by auto
  have len: "length nps = length ps" using *(2) by auto
  have "length (sealed_by j (take d nps)) \<le> ?c" using *(6) journal_okD(5)[OF *(1)] by simp
  then have "d \<le> k" using k(4) *(5) len by simp
  moreover have "journal_torn (sj_crash c j) (take k ps)"
    unfolding journal_torn_def
  proof (intro conjI exI)
    show "journal_ok (sj_crash c j)"
      using *(1) by (simp add: journal_ok_def sj_crash_def SealedJournal_open_def)
    show "sj_durable (sj_crash c j) = length (sj_file (sj_crash c j))"
      by (simp add: sj_crash_def SealedJournal_open_def)
    show "map snd (take k nps) = take k ps" using *(2) by (simp flip: take_map)
    show "frames_ok (sj_max_frame (sj_crash c j)) (take k nps)"
      using *(3) by (simp add: frames_ok_take sj_crash_def SealedJournal_open_def)
    show "sj_file (sj_crash c j) = sealed_by (sj_crash c j) (take k nps) @ q"
      using fl k(2) by (simp add: sealed_by_def sj_crash_def SealedJournal_open_def)
    show "torn_tail (sj_crash c j) q"
      using k(3) by (simp add: torn_tail_def sj_crash_def SealedJournal_open_def)
  qed
  ultimately show ?thesis using k(1) len by auto
qed

lemma journal_holds_ok: "journal_holds j ps d \<Longrightarrow> journal_ok j"
  by (simp add: journal_holds_def)

lemma journal_reset_holds: "journal_ok j \<Longrightarrow> journal_holds (journal_reset j) [] 0"
  by (auto simp: journal_holds_def journal_ok_def journal_reset_def sealed_by_def)

section \<open>A write-ahead log\<close>

text \<open>
  What the owners of a journal rely on. \<open>clean j ps d\<close>: the log holds the payloads \<open>ps\<close>, the
  first \<open>d\<close> of them durable. \<open>torn j ps\<close>: a log as a crash leaves it.
\<close>

locale frame_log =
  fixes clean :: "'j \<Rightarrow> Bytes list \<Rightarrow> nat \<Rightarrow> bool"
    and torn :: "'j \<Rightarrow> Bytes list \<Rightarrow> bool"
    and append :: "Bytes \<Rightarrow> ('j, unit) prog"
    and replay :: "(Bytes \<Rightarrow> ('s, unit) prog) \<Rightarrow> 'j \<Rightarrow> 's \<Rightarrow> 'j \<times> 's"
    and crash :: "nat \<Rightarrow> 'j \<Rightarrow> 'j"
    and reset :: "'j \<Rightarrow> 'j"
    and limit :: "'j \<Rightarrow> nat"
  assumes append_fits: "clean j ps d \<Longrightarrow> length p \<le> limit j \<Longrightarrow>
      \<exists>j'. append p j = (Inr (), j') \<and> clean j' (ps @ [p]) (length ps + 1) \<and> limit j' = limit j"
    and append_rejects: "clean j ps d \<Longrightarrow> limit j < length p \<Longrightarrow>
      \<exists>e j'. append p j = (Inl e, j') \<and> clean j' ps d"
    and crash_keeps: "clean j ps d \<Longrightarrow>
      \<exists>k. d \<le> k \<and> k \<le> length ps \<and> torn (crash c j) (take k ps)"
    and replay_torn: "torn j ps \<Longrightarrow> replay f j s = (j', s') \<Longrightarrow>
      \<exists>k. apply_frames f ps s = (k, s') \<and> clean j' (take k ps) k"
    and reset_clean: "clean j ps d \<Longrightarrow> clean (reset j) [] 0"
begin

lemma append_all:
  assumes "clean j ps (length ps)" "\<And>q. q \<in> set qs \<Longrightarrow> length q \<le> limit j"
  shows "\<exists>j'. forM append qs j = (Inr (), j') \<and>
    clean j' (ps @ qs) (length (ps @ qs)) \<and> limit j' = limit j"
  using assms
proof (induction qs arbitrary: j ps)
  case (Cons q qs)
  obtain j1 where j1: "append q j = (Inr (), j1)" "clean j1 (ps @ [q]) (length (ps @ [q]))"
    "limit j1 = limit j" using append_fits[OF Cons.prems(1), of q] Cons.prems(2) by auto
  with Cons.IH[OF j1(2)] Cons.prems(2) show ?case by (auto simp: bindM_def)
qed auto

text \<open>Every append that returned is there after a crash, in order, and the log stays usable.\<close>

lemma appended_survive:
  assumes "clean j ps (length ps)" "\<And>q. q \<in> set qs \<Longrightarrow> length q \<le> limit j"
    and "forM append qs j = (r, j1)" "replay f (crash c j1) s = (j2, s2)"
  shows "r = Inr () \<and> (\<exists>k. apply_frames f (ps @ qs) s = (k, s2) \<and> clean j2 (take k (ps @ qs)) k)"
proof -
  from append_all[OF assms(1), of qs] assms(2,3)
  have j1: "r = Inr ()" "clean j1 (ps @ qs) (length (ps @ qs))" by auto
  from crash_keeps[OF j1(2), of c] have "torn (crash c j1) (ps @ qs)" by auto
  from replay_torn[OF this assms(4)] j1(1) show ?thesis by blast
qed

text \<open>
  Whatever a crash does to the appends in progress, a replay applies a leading part of what was
  appended that includes everything durable.
\<close>

lemma crash_replay:
  assumes "clean j ps d" "replay f (crash c j) s = (j', s')"
    and total: "\<And>p t. p \<in> set ps \<Longrightarrow> \<exists>t'. f p t = (Inr (), t')"
  shows "\<exists>k. d \<le> k \<and> k \<le> length ps \<and>
    s' = fold (\<lambda>p t. snd (f p t)) (take k ps) s \<and> clean j' (take k ps) k"
proof -
  from crash_keeps[OF assms(1), of c] obtain k where
    k: "d \<le> k" "k \<le> length ps" "torn (crash c j) (take k ps)" by blast
  have "apply_frames f (take k ps) s =
      (length (take k ps), fold (\<lambda>p t. snd (f p t)) (take k ps) s)"
    by (rule apply_frames_total) (auto dest: in_set_takeD intro: total)
  with replay_torn[OF k(3) assms(2)] k(1,2) show ?thesis by (auto intro!: exI[of _ k])
qed

end

text \<open>The log the program's owners open: replay with the journal's own frame limit.\<close>

definition journal_replay ::
    "(Bytes \<Rightarrow> ('s, unit) prog) \<Rightarrow> SealedJournal \<Rightarrow> 's \<Rightarrow> SealedJournal \<times> 's" where
  "journal_replay f j s = SealedJournal_replay f (sj_max_frame j) j s"

interpretation wal: frame_log journal_holds journal_torn journal_append journal_replay sj_crash
  journal_reset sj_max_frame
proof unfold_locales
  fix j ps d and p :: Bytes assume "journal_holds j ps d" "length p \<le> sj_max_frame j"
  then show "\<exists>j'. journal_append p j = (Inr (), j') \<and>
      journal_holds j' (ps @ [p]) (length ps + 1) \<and> sj_max_frame j' = sj_max_frame j"
    by (metis journal_append_holds)
next
  fix j ps d and p :: Bytes assume "journal_holds j ps d" "sj_max_frame j < length p"
  then show "\<exists>e j'. journal_append p j = (Inl e, j') \<and> journal_holds j' ps d"
    using journal_append_rejects by blast
next
  fix j ps f s j' s' assume "journal_torn j ps" "journal_replay f j s = (j', s')"
  then show "\<exists>k. apply_frames f ps s = (k, s') \<and> journal_holds j' (take k ps) k"
    using SealedJournal_replay_torn[of j ps f s j' s'] by (auto simp: journal_replay_def)
qed (auto intro: sj_crash_torn journal_reset_holds dest: journal_holds_ok)

section \<open>A store of frames read by offset\<close>

definition frame_at :: "SealedJournal \<Rightarrow> nat \<Rightarrow> Bytes \<Rightarrow> bool" where
  "frame_at j off p \<longleftrightarrow>
     (\<exists>n pre post. length n = 12 \<and> length p \<le> sj_max_frame j \<and> off = length pre \<and>
        sj_file j = pre @ frame_of (sj_crypto j) (sj_key j) (sj_aad j) n p @ post)"

lemma frame_at_append:
  assumes "frame_at j off p"
  shows "frame_at (j\<lparr>sj_draws := a, sj_file := sj_file j @ xs, sj_frames := b, sj_bytes := c\<rparr>) off p"
  using assms unfolding frame_at_def by fastforce

lemma frame_at_below:
  assumes "journal_ok j" "frame_at j off p"
  shows "off + frame_header + length p \<le> sj_bytes j"
  using assms journal_okD[OF assms(1)] length_frame_of[of "sj_crypto j"]
  by (auto simp: frame_at_def)

lemma read_at_frame:
  assumes "journal_ok j" "frame_at j off p"
  shows "journal_read_at j off = Inr p"
proof -
  from assms(2) obtain n pre post where
    "length n = 12" "length p \<le> sj_max_frame j" "off = length pre"
    "sj_file j = pre @ frame_of (sj_crypto j) (sj_key j) (sj_aad j) n p @ post"
    by (auto simp: frame_at_def)
  with read_frame_whole[OF journal_okD(1)[OF assms(1)]] frame_at_below[OF assms]
    journal_okD(3)[OF assms(1)] show ?thesis by (simp add: journal_read_at_def)
qed

lemma append_unsynced_stores:
  assumes "journal_ok j" "length p \<le> sj_max_frame j"
  obtains j' where "append_unsynced p j = (Inr (sj_bytes j), j')" "journal_ok j'"
    "frame_at j' (sj_bytes j) p" "sj_bytes j' = sj_bytes j + (frame_header + length p)"
    "sj_max_frame j' = sj_max_frame j" "\<And>off q. frame_at j off q \<Longrightarrow> frame_at j' off q"
proof -
  let ?n = "sj_nonces j (sj_draws j)"
  let ?fr = "frame_of (sj_crypto j) (sj_key j) (sj_aad j) ?n p"
  let ?j = "j\<lparr>sj_draws := sj_draws j + 1, sj_file := sj_file j @ ?fr,
       sj_frames := sj_frames j + 1, sj_bytes := sj_bytes j + (frame_header + length p)\<rparr>"
  have "journal_ok ?j"
    using assms(1) length_frame_of[OF journal_okD(1,2)[OF assms(1)]] by (simp add: journal_ok_def)
  moreover have "frame_at ?j (sj_bytes j) p"
    using assms(2) journal_okD[OF assms(1)] unfolding frame_at_def
    by (intro exI[of _ ?n] exI[of _ "sj_file j"] exI[of _ "[]"]) auto
  ultimately show ?thesis
    using that[of ?j] append_unsynced_ok[OF assms] frame_at_append by auto
qed

text \<open>What the node files rely on: a frame stored stays readable at the offset it was given.\<close>

locale frame_store =
  fixes usable :: "'j \<Rightarrow> bool"
    and stored :: "'j \<Rightarrow> nat \<Rightarrow> Bytes \<Rightarrow> bool"
    and put :: "Bytes \<Rightarrow> ('j, nat) prog"
    and fetch :: "'j \<Rightarrow> nat \<Rightarrow> Bytes result"
    and fill :: "'j \<Rightarrow> nat"
    and cap :: "'j \<Rightarrow> nat"
  assumes put_stores: "usable j \<Longrightarrow> length p \<le> cap j \<Longrightarrow>
      \<exists>j'. put p j = (Inr (fill j), j') \<and> usable j' \<and> stored j' (fill j) p \<and> cap j' = cap j \<and>
        fill j' = fill j + (frame_header + length p) \<and> (\<forall>off q. stored j off q \<longrightarrow> stored j' off q)"
    and fetch_stored: "usable j \<Longrightarrow> stored j off p \<Longrightarrow> fetch j off = Inr p"
    and stored_below: "usable j \<Longrightarrow> stored j off p \<Longrightarrow> off + frame_header + length p \<le> fill j"
begin

lemma stored_unique: "usable j \<Longrightarrow> stored j off p \<Longrightarrow> stored j off q \<Longrightarrow> p = q"
  using fetch_stored[of j off p] fetch_stored[of j off q] by simp

text \<open>Payloads put one after the other are all there afterwards, with what was there before.\<close>

lemma put_all:
  assumes "usable j" "\<And>p. p \<in> set ps \<Longrightarrow> length p \<le> cap j"
  shows "\<exists>j'. forM (\<lambda>p. bindM (put p) (\<lambda>_. retM ())) ps j = (Inr (), j') \<and> usable j' \<and>
    (\<forall>p \<in> set ps. \<exists>off. fetch j' off = Inr p) \<and> (\<forall>off q. stored j off q \<longrightarrow> fetch j' off = Inr q)"
proof -
  have "\<exists>j'. forM (\<lambda>p. bindM (put p) (\<lambda>_. retM ())) ps j = (Inr (), j') \<and> usable j' \<and>
    (\<forall>p \<in> set ps. \<exists>off. stored j' off p) \<and> (\<forall>off q. stored j off q \<longrightarrow> stored j' off q)"
    using assms
  proof (induction ps arbitrary: j)
    case (Cons p ps)
    obtain j1 where j1: "put p j = (Inr (fill j), j1)" "usable j1" "stored j1 (fill j) p"
      "cap j1 = cap j" "\<forall>off q. stored j off q \<longrightarrow> stored j1 off q"
      using put_stores[OF Cons.prems(1), of p] Cons.prems(2) by auto
    have "p' \<in> set ps \<Longrightarrow> length p' \<le> cap j1" for p' using Cons.prems(2) j1(4) by simp
    from Cons.IH[OF j1(2) this] obtain j' where
      "forM (\<lambda>p. bindM (put p) (\<lambda>_. retM ())) ps j1 = (Inr (), j')" "usable j'"
      "\<forall>p \<in> set ps. \<exists>off. stored j' off p" "\<forall>off q. stored j1 off q \<longrightarrow> stored j' off q" by blast
    moreover have "bindM (put p) (\<lambda>_. retM ()) j = (Inr (), j1)" by (simp add: bindM_Inr j1(1))
    ultimately show ?case
      using j1(3,5) by (intro exI[of _ j']) (auto simp: bindM_Inr simp del: retM_apply)
  qed auto
  then show ?thesis using fetch_stored by blast
qed

end

interpretation nodes_store: frame_store journal_ok frame_at append_unsynced journal_read_at
  sj_bytes sj_max_frame
  by unfold_locales (metis append_unsynced_stores, auto intro: read_at_frame dest: frame_at_below)

text \<open>A reader taken now reads every frame of now, whatever is appended later.\<close>

lemma reader_read_at:
  assumes "journal_ok j" "frame_at j off p"
  shows "frame_reader_read_at (journal_reader j) off = Inr p"
  using read_at_frame[OF assms]
  by (simp add: frame_reader_read_at_def journal_reader_def journal_read_at_def)

section \<open>Properties\<close>

text \<open>An instance of the cryptography for evaluating the model: no encryption, a digest of 32 bytes.\<close>

definition plain_crypto :: crypto where
  "plain_crypto = \<lparr>sha256 = (\<lambda>p. take 32 (p @ replicate 32 0)),
     evp_seal = (\<lambda>k n a p. (p, replicate 16 0)), evp_open = (\<lambda>k n a tag ct. Some ct)\<rparr>"

lemma plain_crypto_ok: "crypto_ok plain_crypto"
  by (auto simp: crypto_ok_def plain_crypto_def min_def)

definition empty_journal :: "nat \<Rightarrow> SealedJournal" where
  "empty_journal m = SealedJournal_open plain_crypto (\<lambda>_. replicate 12 0) (replicate 32 0) [] m []"

lemma empty_journal_holds: "m < 4294967296 \<Longrightarrow> journal_holds (empty_journal m) [] 0"
  by (simp add: journal_holds_def journal_ok_def empty_journal_def SealedJournal_open_def
      plain_crypto_ok sealed_by_def)

definition note_payload :: "Bytes \<Rightarrow> (Bytes list, unit) prog" where
  "note_payload p = modifyM (\<lambda>t. t @ [p])"

text \<open>
  C1: Every append that returned is durable. Payloads appended one after the other to a journal all
  are accepted when they fit a frame, and whatever a crash leaves of the file, opening it again
  and replaying applies every one of them, in the order they were appended, and leaves the
  journal holding exactly them.
\<close>

theorem appends_survive_crash:
  assumes "journal_holds j ps (length ps)"
    and "\<forall>q \<in> set qs. length q \<le> sj_max_frame j"
    and "\<forall>p \<in> set (ps @ qs). \<forall>t. \<exists>t'. f p t = (Inr (), t')"
    and "forM journal_append qs j = (r, j1)"
    and "journal_replay f (sj_crash c j1) s = (j2, s2)"
  shows "r = Inr () \<and> s2 = fold (\<lambda>p t. snd (f p t)) (ps @ qs) s \<and>
    journal_holds j2 (ps @ qs) (length (ps @ qs))"
proof -
  have fits: "length q \<le> sj_max_frame j" if "q \<in> set qs" for q using assms(2) that by blast
  from wal.appended_survive[OF assms(1) fits assms(4,5)] obtain k where
    k: "r = Inr ()" "apply_frames f (ps @ qs) s = (k, s2)" "journal_holds j2 (take k (ps @ qs)) k" by blast
  have "apply_frames f (ps @ qs) s =
      (length (ps @ qs), fold (\<lambda>p t. snd (f p t)) (ps @ qs) s)"
    by (rule apply_frames_total) (use assms(3) in blast)
  with k(2) have "k = length (ps @ qs)" "s2 = fold (\<lambda>p t. snd (f p t)) (ps @ qs) s" by simp_all
  with k(1,3) show ?thesis by simp
qed

theorem appends_survive_crash_witness:
  "\<exists>r j1 j2 s2. forM journal_append [[1], [2, 3]] (empty_journal 10) = (r, j1) \<and>
     journal_replay note_payload (sj_crash 7 j1) [] = (j2, s2) \<and>
     r = Inr () \<and> s2 = [[1], [2, 3]] \<and> journal_holds j2 [[1], [2, 3]] 2"
proof -
  obtain r j1 where a: "forM journal_append [[1], [2, 3]] (empty_journal 10) = (r, j1)" by fastforce
  obtain j2 s2 where b: "journal_replay note_payload (sj_crash 7 j1) [] = (j2, s2)"
    by fastforce
  have "r = Inr () \<and> s2 = fold (\<lambda>p t. snd (note_payload p t)) ([] @ [[1], [2, 3]]) [] \<and>
      journal_holds j2 ([] @ [[1], [2, 3]]) (length ([] @ [[1], [2, 3 :: u8]]))"
    by (rule appends_survive_crash[where j = "empty_journal 10" and ps = "[]", OF _ _ _ a b])
       (simp_all add: empty_journal_holds note_payload_def,
        simp add: empty_journal_def SealedJournal_open_def)
  then have "r = Inr () \<and> s2 = [[1], [2, 3]] \<and> journal_holds j2 [[1], [2, 3]] 2"
    by (simp add: numeral_2_eq_2 note_payload_def)
  with a b show ?thesis by blast
qed

text \<open>
  C12: A crash loses no synced frame and invents none. Of the payloads a journal held, a replay after a
  crash applies a leading part that includes everything that was durable, and truncates the
  file to exactly that part, so that the next append follows it.
\<close>

theorem crash_keeps_durable_prefix:
  assumes "journal_holds j ps d" and "\<forall>p \<in> set ps. \<forall>t. \<exists>t'. f p t = (Inr (), t')"
    and "journal_replay f (sj_crash c j) s = (j', s')"
  shows "\<exists>k. d \<le> k \<and> k \<le> length ps \<and> s' = fold (\<lambda>p t. snd (f p t)) (take k ps) s \<and>
    journal_holds j' (take k ps) k"
  by (rule wal.crash_replay[OF assms(1,3)]) (use assms(2) in blast)

text \<open>A durable payload and one that was not synced; the crash comes in the middle of its frame.\<close>

theorem crash_keeps_durable_prefix_witness:
  "\<exists>j1 j2 j' s' k. journal_append [1] (empty_journal 10) = (Inr (), j1) \<and> append_unsynced [2, 3] j1 = (Inr 33, j2) \<and>
     length (sj_file j2) = 67 \<and> journal_replay note_payload (sj_crash 50 j2) [] = (j', s') \<and>
     1 \<le> k \<and> k \<le> 2 \<and> s' = take k [[1], [2, 3]] \<and> journal_holds j' (take k [[1], [2, 3]]) k"
proof -
  have m: "sj_max_frame (empty_journal 10) = 10" by (simp add: empty_journal_def SealedJournal_open_def)
  obtain j1 where j1: "journal_append [1] (empty_journal 10) = (Inr (), j1)" "journal_holds j1 [[1]] 1" "sj_max_frame j1 = 10"
    using journal_append_holds[OF empty_journal_holds[of 10], of "[1]"] m by auto
  have "sj_bytes j1 = 33" "length (sj_file j1) = 33"
    using j1(1) append_unsynced_ok[OF journal_holds_ok[OF empty_journal_holds[of 10]], of "[1]"] m journal_okD(4)[OF journal_holds_ok[OF j1(2)]]
    by (auto simp: journal_append_eq empty_journal_def SealedJournal_open_def frame_header_def)
  with append_unsynced_holds[OF j1(2), of "[2, 3]"] j1(3) obtain j2 where
    j2: "append_unsynced [2, 3] j1 = (Inr 33, j2)" "journal_holds j2 [[1], [2, 3]] 1" "sj_bytes j2 = 67"
    by (auto simp: frame_header_def)
  then have len: "length (sj_file j2) = 67" using journal_okD(4)[OF journal_holds_ok[OF j2(2)]] by simp
  obtain j' s' where r: "journal_replay note_payload (sj_crash 50 j2) [] = (j', s')" by fastforce
  have "\<exists>k. 1 \<le> k \<and> k \<le> length [[1], [2, 3 :: u8]] \<and>
      s' = fold (\<lambda>p t. snd (note_payload p t)) (take k [[1], [2, 3]]) [] \<and> journal_holds j' (take k [[1], [2, 3]]) k"
    by (rule crash_keeps_durable_prefix[OF j2(2) _ r]) (simp add: note_payload_def)
  then obtain k where k: "1 \<le> k" "k \<le> 2" "s' = fold (\<lambda>p t. snd (note_payload p t)) (take k [[1], [2, 3]]) []"
    "journal_holds j' (take k [[1], [2, 3]]) k" by auto
  have "fold (\<lambda>p t. snd (note_payload p t)) ps s = s @ ps" for ps s
    by (induction ps arbitrary: s) (simp_all add: note_payload_def)
  with k have "s' = take k [[1], [2, 3]]" by simp
  with j1(1) j2(1) len r k show ?thesis by blast
qed

text \<open>
  C15: A frame that was appended is read back at the offset its append returned, by the journal and by
  a reader taken before, after any number of later appends.
\<close>

theorem frames_stay_readable:
  assumes "journal_ok j" "length p \<le> sj_max_frame j" "\<forall>q \<in> set qs. length q \<le> sj_max_frame j"
    and "append_unsynced p j = (r, j1)"
    and "forM (\<lambda>q. bindM (append_unsynced q) (\<lambda>_. retM ())) qs j1 = (r', j2)"
  shows "r = Inr (sj_bytes j) \<and> r' = Inr () \<and> journal_read_at j2 (sj_bytes j) = Inr p \<and>
    frame_reader_read_at (journal_reader j1) (sj_bytes j) = Inr p"
proof -
  from append_unsynced_stores[OF assms(1,2)] assms(4) have
    r: "r = Inr (sj_bytes j)" "journal_ok j1" "frame_at j1 (sj_bytes j) p" "sj_max_frame j1 = sj_max_frame j"
    by auto
  from nodes_store.put_all[OF r(2), of qs] assms(3,5) r(3,4)
  have "r' = Inr ()" "journal_read_at j2 (sj_bytes j) = Inr p" by auto
  with r reader_read_at[OF r(2,3)] show ?thesis by simp
qed

theorem frames_stay_readable_witness:
  "\<exists>r j1 r' j2. append_unsynced [7] (empty_journal 9) = (r, j1) \<and>
     forM (\<lambda>q. bindM (append_unsynced q) (\<lambda>_. retM ())) [[8], [9, 9]] j1 = (r', j2) \<and>
     r = Inr 0 \<and> r' = Inr () \<and> journal_read_at j2 0 = Inr [7] \<and>
     frame_reader_read_at (journal_reader j1) 0 = Inr [7]"
proof -
  obtain r j1 where a: "append_unsynced [7] (empty_journal 9) = (r, j1)" by fastforce
  obtain r' j2 where b: "forM (\<lambda>q. bindM (append_unsynced q) (\<lambda>_. retM ())) [[8], [9, 9]] j1 = (r', j2)"
    by fastforce
  have z: "sj_bytes (empty_journal 9) = 0" "sj_max_frame (empty_journal 9) = 9"
    by (simp_all add: empty_journal_def SealedJournal_open_def)
  have "r = Inr (sj_bytes (empty_journal 9)) \<and> r' = Inr () \<and>
      journal_read_at j2 (sj_bytes (empty_journal 9)) = Inr [7] \<and>
      frame_reader_read_at (journal_reader j1) (sj_bytes (empty_journal 9)) = Inr [7]"
    by (rule frames_stay_readable[OF _ _ _ a b])
       (use journal_holds_ok[OF empty_journal_holds[of 9]] in \<open>simp_all add: z\<close>)
  with a b show ?thesis unfolding z by blast
qed

text \<open>
  C37: A payload larger than the journal's frame limit is refused with the error the code throws, and
  what the journal holds stays as it was.
\<close>

theorem oversized_append_refused:
  assumes "journal_holds j ps d" "sj_max_frame j < length p"
  shows "fst (journal_append p j) = Inl (RuntimeError ''journal frame too large'') \<and>
    journal_holds (snd (journal_append p j)) ps d \<and> sj_file (snd (journal_append p j)) = sj_file j"
  using journal_append_rejects[OF assms] by simp

theorem oversized_append_refused_witness:
  "fst (journal_append [1, 2] (empty_journal 1)) = Inl (RuntimeError ''journal frame too large'') \<and>
   journal_holds (snd (journal_append [1, 2] (empty_journal 1))) [] 0 \<and>
   sj_file (snd (journal_append [1, 2] (empty_journal 1))) = sj_file (empty_journal 1)"
  by (rule oversized_append_refused)
     (simp_all add: empty_journal_holds, simp add: empty_journal_def SealedJournal_open_def)

end
