(* ===== verification/Placement.thy ===== *)
theory Placement
  imports Sealed_Journal "HOL-Library.Product_Lexorder" "HOL-Library.Multiset"
begin

text \<open>
  Where copies go: \<^verbatim>\<open>src/cluster/placement.cpp\<close>. Capacities and quotas are
  words of 64 bits, products and sums of slots words of 128. The sums of the water level are natural
  numbers: \<open>water_level_fits\<close> shows that they fit 128 bits. The products and sums of the quotas are
  exact for up to \<open>2 ^ 32\<close> entities (\<open>shard_quotas_unat\<close>, \<open>sample_loop_unat\<close>). A \<^verbatim>\<open>std::sort\<close> by a
  strict order that no two elements tie in is \<open>sort_key\<close>. The floating-point score of
  \<^verbatim>\<open>fallback_score\<close> is a parameter: it is only ever compared, and its value is the compiler's.
\<close>

section \<open>Replica order of a commit\<close>

definition commit_rank :: "NodeId \<Rightarrow> (NodeId \<Rightarrow> int option) \<Rightarrow> NodeInfo \<Rightarrow> nat \<times> int" where
  "commit_rank local latency node =
     (if ni_id node = local then (0, 0)
      else case latency (ni_id node) of Some ms \<Rightarrow> (1, ms) | None \<Rightarrow> (2, 0))"

definition order_commit_replicas ::
    "NodeInfo list \<Rightarrow> NodeId \<Rightarrow> (NodeId \<Rightarrow> int option) \<Rightarrow> NodeInfo list" where
  "order_commit_replicas replicas local latency = sort_key (commit_rank local latency) replicas"

section \<open>Shards\<close>

definition placement_shards :: nat where
  "placement_shards = 2 ^ 32"

definition saturated_add :: "u64 \<Rightarrow> u64 \<Rightarrow> u64" where
  "saturated_add a b = (if b > - 1 - a then - 1 else a + b)"

definition shard_for :: "crypto \<Rightarrow> Bytes \<Rightarrow> u32" where
  "shard_for C key =
     (let bytes = (if length key \<ge> 4 then take 4 key else take 4 (sha256 C key)) in
      or (or (or (push_bit 24 (ucast (bytes ! 0))) (push_bit 16 (ucast (bytes ! 1))))
         (push_bit 8 (ucast (bytes ! 2)))) (ucast (bytes ! 3)))"

definition shard_key :: "crypto \<Rightarrow> Bytes \<Rightarrow> Bytes" where
  "shard_key C key =
     (let shard = shard_for C key in
      [ucast (drop_bit 24 shard), ucast (drop_bit 16 shard), ucast (drop_bit 8 shard), ucast shard])"

section \<open>Capacity and quotas\<close>

record WaterLevel =
  wl_numerator :: nat
  wl_denominator :: nat

text \<open>The loop over the sorted capacities from index \<open>k\<close> with the sum of those before.\<close>

function water_loop :: "nat list \<Rightarrow> nat \<Rightarrow> nat \<Rightarrow> nat \<Rightarrow> WaterLevel" where
  "water_loop xs replicas k acc =
     (if k \<ge> length xs then \<lparr>wl_numerator = 0, wl_denominator = 1\<rparr>
      else let total = acc + xs ! k;
               den = int replicas - int (length xs) + int k + 1 in
        if den > 0 \<and> (k + 1 = length xs \<or> total \<le> nat den * xs ! (k + 1))
        then \<lparr>wl_numerator = total, wl_denominator = nat den\<rparr>
        else water_loop xs replicas (k + 1) total)"
  by pat_completeness auto
termination
  by (relation "measure (\<lambda>(xs, _, k, _). length xs - k)") auto

declare water_loop.simps [simp del]

definition water_level :: "nat list \<Rightarrow> nat \<Rightarrow> WaterLevel" where
  "water_level capacities replicas =
     (if capacities = [] \<or> replicas = 0 then \<lparr>wl_numerator = 0, wl_denominator = 1\<rparr>
      else water_loop (sort capacities) (min replicas (length capacities)) 0 0)"

definition max_logical_capacity :: "nat list \<Rightarrow> nat \<Rightarrow> nat" where
  "max_logical_capacity capacities replicas =
     (let level = water_level capacities replicas in
      if wl_numerator level = 0 then 0
      else min (wl_numerator level div wl_denominator level) (2 ^ 64 - 1))"

type_synonym u128 = "128 word"

text \<open>The quotas when no capacity counts: the slots spread evenly, the first ones taking the rest.\<close>

definition even_quotas :: "nat \<Rightarrow> u128 \<Rightarrow> u64 list" where
  "even_quotas n required =
     (let base = ucast (required div of_nat n); remainder = ucast (required mod of_nat n) :: u64
      in map (\<lambda>i. base + (if i < unat remainder then 1 else 0)) [0..<n])"

definition base_quota :: "WaterLevel \<Rightarrow> u64 \<Rightarrow> u64 \<times> u128" where
  "base_quota level capacity =
     (let numerator = of_nat (wl_numerator level);
          scaled_capacity = ucast capacity * of_nat (wl_denominator level) in
      if scaled_capacity \<ge> numerator then (of_nat placement_shards, 0)
      else let exact_numerator = scaled_capacity * of_nat placement_shards
           in (ucast (exact_numerator div numerator), exact_numerator mod numerator))"

text \<open>One slot more for the entity at \<open>i\<close>, while slots are missing and it has fewer than all shards.\<close>

definition grant_slot :: "u128 \<Rightarrow> u64 list \<times> u128 \<Rightarrow> nat \<Rightarrow> u64 list \<times> u128" where
  "grant_slot required acc i =
     (case acc of (quota, assigned) \<Rightarrow>
        if assigned < required \<and> quota ! i < of_nat placement_shards
        then (quota[i := quota ! i + 1], assigned + 1) else (quota, assigned))"

definition shard_quotas :: "u64 list \<Rightarrow> nat \<Rightarrow> u64 list" where
  "shard_quotas capacities replicas =
     (let n = length capacities in
      if n = 0 \<or> replicas = 0 then replicate n 0
      else let replicas = min replicas n; required = of_nat replicas * of_nat placement_shards;
               level = water_level (map unat capacities) replicas in
        if wl_numerator level = 0 then even_quotas n required
        else let bases = map (base_quota level) capacities;
                 quota = map fst bases;
                 order = sort_key (\<lambda>i. (- uint (snd (bases ! i)), i)) [0..<n];
                 granted = foldl (grant_slot required) (quota, sum_list (map ucast quota)) order
             in fst (foldl (grant_slot required) granted [0..<n]))"

section \<open>Sampling\<close>

text \<open>Whether one of the points \<open>shard\<close>, \<open>shard + S\<close>, ... lies in the interval of an entity.\<close>

definition has_point :: "u64 \<Rightarrow> nat \<Rightarrow> u128 \<Rightarrow> u128 \<Rightarrow> bool" where
  "has_point shard replicas lo hi \<longleftrightarrow>
     list_ex (\<lambda>copy. let point = ucast shard + of_nat copy * of_nat placement_shards in point \<ge> lo \<and> point < hi)
       [0..<replicas]"

fun sample_loop :: "u64 \<Rightarrow> nat \<Rightarrow> u64 list \<Rightarrow> nat \<Rightarrow> u128 \<Rightarrow> nat list" where
  "sample_loop shard replicas [] i lo = []"
| "sample_loop shard replicas (q # qs) i lo =
     (if has_point shard replicas lo (lo + ucast q) then [i] else []) @
     sample_loop shard replicas qs (i + 1) (lo + ucast q)"

definition fill_sample :: "nat \<Rightarrow> nat \<Rightarrow> nat list \<Rightarrow> nat list" where
  "fill_sample n replicas selected =
     foldl (\<lambda>sel i. if length sel < replicas \<and> i \<notin> set sel then sel @ [i] else sel) selected [0..<n]"

definition sample_shard :: "u32 \<Rightarrow> u64 list \<Rightarrow> nat \<Rightarrow> nat list" where
  "sample_shard shard capacities replicas =
     (if capacities = [] \<or> replicas = 0 then []
      else let replicas = min replicas (length capacities);
               selected = sample_loop (ucast shard) replicas (shard_quotas capacities replicas) 0 0
           in if length selected < replicas then fill_sample (length capacities) replicas selected
              else selected)"

definition systematic_shard_sample :: "crypto \<Rightarrow> Bytes \<Rightarrow> u64 list \<Rightarrow> nat \<Rightarrow> nat list" where
  "systematic_shard_sample C key capacities replicas =
     sample_shard (shard_for C key) capacities replicas"

section \<open>Nodes\<close>

record CapacityEntity =
  ce_stable_id :: string
  ce_capacity :: u64
  ce_nodes :: "NodeInfo list"

definition domain_key :: "NodeInfo \<Rightarrow> string" where
  "domain_key node =
     (if ni_failure_domain node = [] then ''node:'' @ to_string (ni_id node)
      else ''domain:'' @ ni_failure_domain node)"

fun add_to_group :: "NodeInfo \<Rightarrow> CapacityEntity list \<Rightarrow> CapacityEntity list" where
  "add_to_group node [] =
     [\<lparr>ce_stable_id = domain_key node, ce_capacity = ni_capacity node, ce_nodes = [node]\<rparr>]"
| "add_to_group node (g # gs) =
     (if ce_stable_id g = domain_key node
      then g\<lparr>ce_capacity := saturated_add (ce_capacity g) (ni_capacity node),
             ce_nodes := ce_nodes g @ [node]\<rparr> # gs
      else g # add_to_group node gs)"

definition failure_domains :: "NodeInfo list \<Rightarrow> CapacityEntity list" where
  "failure_domains nodes =
     map (\<lambda>g. g\<lparr>ce_nodes := sort_key ni_id (ce_nodes g)\<rparr>)
       (sort_key (\<lambda>g. string_bytes (ce_stable_id g)) (foldl (\<lambda>gs n. add_to_group n gs) [] nodes))"

definition capacities_of :: "CapacityEntity list \<Rightarrow> u64 list" where
  "capacities_of entities = map ce_capacity entities"

definition choose_within_group :: "crypto \<Rightarrow> Bytes \<Rightarrow> CapacityEntity \<Rightarrow> NodeInfo" where
  "choose_within_group C key grp =
     (if length (ce_nodes grp) = 1 then hd (ce_nodes grp)
      else let capacities = map ni_capacity (ce_nodes grp);
               inner = sha256 C (key @ string_bytes (ce_stable_id grp));
               picked = systematic_shard_sample C inner capacities 1
           in ce_nodes grp ! (if picked = [] then 0 else hd picked))"

text \<open>Highest digest first; then one node a domain, then the rest in the same order.\<close>

definition rendezvous_order :: "crypto \<Rightarrow> Bytes \<Rightarrow> NodeInfo list \<Rightarrow> NodeInfo list" where
  "rendezvous_order C key nodes = rev (sort_key (\<lambda>n. (sha256 C (key @ ni_id n), ni_id n)) nodes)"

definition rendezvous_domain :: "NodeInfo \<Rightarrow> string" where
  "rendezvous_domain n = (if ni_failure_domain n = [] then to_string (ni_id n) else ni_failure_domain n)"

fun pick_domains :: "nat \<Rightarrow> string list \<Rightarrow> NodeInfo list \<Rightarrow> NodeInfo list \<Rightarrow> NodeInfo list" where
  "pick_domains number domains out [] = out"
| "pick_domains number domains out (n # ns) =
     (if length out = number then out
      else if rendezvous_domain n \<in> set domains then pick_domains number domains out ns
      else pick_domains number (rendezvous_domain n # domains) (out @ [n]) ns)"

fun pick_rest :: "nat \<Rightarrow> NodeInfo list \<Rightarrow> NodeInfo list \<Rightarrow> NodeInfo list" where
  "pick_rest number out [] = out"
| "pick_rest number out (n # ns) =
     (if length out = number then out
      else if ni_id n \<in> set (map ni_id out) then pick_rest number out ns
      else pick_rest number (out @ [n]) ns)"

definition rendezvous_nodes :: "crypto \<Rightarrow> Bytes \<Rightarrow> NodeInfo list \<Rightarrow> nat \<Rightarrow> NodeInfo list" where
  "rendezvous_nodes C key nodes number =
     (let scored = rendezvous_order C key nodes; number = min number (length scored)
      in pick_rest number (pick_domains number [] [] scored) scored)"

text \<open>The nodes whose id is new, in order: the \<^verbatim>\<open>chosen.insert(id).second\<close> loops.\<close>

fun take_new :: "NodeId list \<Rightarrow> NodeInfo list \<Rightarrow> NodeInfo list" where
  "take_new chosen [] = []"
| "take_new chosen (n # ns) =
     (if ni_id n \<in> set chosen then take_new chosen ns else n # take_new (ni_id n # chosen) ns)"

definition capacity_placement_nodes ::
    "crypto \<Rightarrow> (Bytes \<Rightarrow> NodeInfo \<Rightarrow> 'score::linorder) \<Rightarrow> Bytes \<Rightarrow> NodeInfo list \<Rightarrow> nat \<Rightarrow> NodeInfo list"
where
  "capacity_placement_nodes C fallback_score key nodes number =
     (if nodes = [] \<or> number = 0 then []
      else let number = min number (length nodes) in
        if number = 1
        then sort_key (\<lambda>n. (fallback_score (shard_key C key) n, ni_id n)) nodes
        else
          let groups = failure_domains nodes;
              diverse = min number (length groups);
              selected = systematic_shard_sample C key (capacities_of groups) diverse;
              preferred = take_new [] (map (\<lambda>i. choose_within_group C key (groups ! i)) selected);
              preferred' =
                (if length preferred < number
                 then let remaining = sort_key ni_id
                            (filter (\<lambda>n. ni_id n \<notin> set (map ni_id preferred)) nodes);
                          extra_key = sha256 C (key @ string_bytes ''macha/data-extra-domain/v7'');
                          extra = systematic_shard_sample C extra_key
                            (map ni_capacity remaining) (number - length preferred)
                      in preferred @ take_new (map ni_id preferred) (map (\<lambda>i. remaining ! i) extra)
                 else preferred);
              fallback = sort_key (\<lambda>n. (fallback_score key n, ni_id n))
                (filter (\<lambda>n. ni_id n \<notin> set (map ni_id preferred')) nodes)
          in preferred' @ fallback)"

definition placement_logical_capacity :: "NodeInfo list \<Rightarrow> nat \<Rightarrow> nat" where
  "placement_logical_capacity nodes replicas =
     (if nodes = [] \<or> replicas = 0 then 0
      else let replicas = min replicas (length nodes); groups = failure_domains nodes in
        max_logical_capacity
          (map unat (if length groups \<ge> replicas then capacities_of groups else map ni_capacity nodes)) replicas)"

section \<open>Exact arithmetic\<close>

text \<open>
  The quotas and the sample over natural numbers, which never wrap: what the 64 and 128-bit arithmetic
  above computes for up to \<open>2 ^ 32\<close> entities.
\<close>

definition exact_even_quotas :: "nat \<Rightarrow> nat \<Rightarrow> nat list" where
  "exact_even_quotas n required =
     map (\<lambda>i. required div n + (if i < required mod n then 1 else 0)) [0..<n]"

definition exact_base_quota :: "WaterLevel \<Rightarrow> nat \<Rightarrow> nat \<times> nat" where
  "exact_base_quota level capacity =
     (let scaled = capacity * wl_denominator level in
      if scaled \<ge> wl_numerator level then (placement_shards, 0)
      else (scaled * placement_shards div wl_numerator level,
            scaled * placement_shards mod wl_numerator level))"

definition exact_grant_slot :: "nat \<Rightarrow> nat list \<times> nat \<Rightarrow> nat \<Rightarrow> nat list \<times> nat" where
  "exact_grant_slot required acc i =
     (case acc of (quota, assigned) \<Rightarrow>
        if assigned < required \<and> quota ! i < placement_shards
        then (quota[i := quota ! i + 1], assigned + 1) else (quota, assigned))"

definition exact_shard_quotas :: "nat list \<Rightarrow> nat \<Rightarrow> nat list" where
  "exact_shard_quotas capacities replicas =
     (let n = length capacities in
      if n = 0 \<or> replicas = 0 then replicate n 0
      else let replicas = min replicas n; required = replicas * placement_shards;
               level = water_level capacities replicas in
        if wl_numerator level = 0 then exact_even_quotas n required
        else let bases = map (exact_base_quota level) capacities;
                 quota = map fst bases;
                 order = sort_key (\<lambda>i. (- int (snd (bases ! i)), i)) [0..<n];
                 granted = foldl (exact_grant_slot required) (quota, sum_list quota) order
             in fst (foldl (exact_grant_slot required) granted [0..<n]))"

definition exact_has_point :: "nat \<Rightarrow> nat \<Rightarrow> nat \<Rightarrow> nat \<Rightarrow> bool" where
  "exact_has_point shard replicas lo hi \<longleftrightarrow>
     list_ex (\<lambda>copy. lo \<le> shard + copy * placement_shards \<and> shard + copy * placement_shards < hi)
       [0..<replicas]"

fun exact_sample_loop :: "nat \<Rightarrow> nat \<Rightarrow> nat list \<Rightarrow> nat \<Rightarrow> nat \<Rightarrow> nat list" where
  "exact_sample_loop shard replicas [] i lo = []"
| "exact_sample_loop shard replicas (q # qs) i lo =
     (if exact_has_point shard replicas lo (lo + q) then [i] else []) @
     exact_sample_loop shard replicas qs (i + 1) (lo + q)"

section \<open>The water level\<close>

lemma sum_list_sort: "sum_list (map f (sort xs)) = (sum_list (map f xs) :: nat)"
  by (metis mset_map mset_sort sum_mset_sum_list)

text \<open>
  The level \<open>L\<close> the loop finds, as a fraction: filling every capacity up to \<open>L\<close> gives \<open>replicas\<close>
  times \<open>L\<close>, and some capacity is filled.
\<close>

definition level_ok :: "nat list \<Rightarrow> nat \<Rightarrow> WaterLevel \<Rightarrow> bool" where
  "level_ok xs replicas level \<longleftrightarrow>
     0 < wl_denominator level \<and>
     sum_list (map (\<lambda>x. min (x * wl_denominator level) (wl_numerator level)) xs) =
       replicas * wl_numerator level \<and>
     (0 < wl_numerator level \<longrightarrow>
       (\<exists>x \<in> set xs. 0 < x \<and> x * wl_denominator level \<le> wl_numerator level)) \<and>
     length (filter (\<lambda>x. wl_numerator level < x * wl_denominator level) xs) < replicas"

lemma level_ok_sort: "level_ok (sort xs) R level \<longleftrightarrow> level_ok xs R level"
proof -
  have "length (filter P (sort xs)) = length (filter P xs)" for P
    by (metis mset_filter mset_sort size_mset)
  then show ?thesis by (simp add: level_ok_def sum_list_sort)
qed

lemma water_stop:
  fixes xs :: "nat list"
  assumes xs: "sorted xs" "k < length xs" and m: "0 < m" "m + length xs = R + k + 1"
    and p: "p = sum_list (take (k + 1) xs)"
    and low: "xs ! k * m \<le> p" and high: "k + 1 = length xs \<or> p \<le> m * xs ! (k + 1)"
  shows "level_ok xs R \<lparr>wl_numerator = p, wl_denominator = m\<rparr>"
proof -
  let ?f = "\<lambda>x. min (x * m) p"
  have lo: "x * m \<le> p" if "x \<in> set (take (k + 1) xs)" for x
  proof -
    from that obtain j where "j < k + 1" "j < length xs" "x = xs ! j"
      by (auto simp: in_set_conv_nth)
    then have "x \<le> xs ! k" using xs by (simp add: sorted_nth_mono)
    then show ?thesis using low by (meson mult_le_mono1 order_trans)
  qed
  have hi: "p \<le> x * m" if "x \<in> set (drop (k + 1) xs)" for x
  proof -
    from that obtain j where "j < length xs - (k + 1)" "x = xs ! (k + 1 + j)"
      by (auto simp: in_set_conv_nth)
    then have j: "k + 1 + j < length xs" "x = xs ! (k + 1 + j)" by simp_all
    then have "xs ! (k + 1) \<le> x" using xs(1) by (simp add: sorted_nth_mono)
    with high j(1) show ?thesis
      by (metis add_lessD1 less_irrefl mult.commute mult_le_mono1 order_trans)
  qed
  have "sum_list (map ?f xs) = sum_list (map ?f (take (k + 1) xs)) + sum_list (map ?f (drop (k + 1) xs))"
    by (metis append_take_drop_id map_append sum_list_append)
  also have "map ?f (take (k + 1) xs) = map (\<lambda>x. x * m) (take (k + 1) xs)"
    using lo by (intro map_cong) auto
  also have "sum_list (map (\<lambda>x. x * m) (take (k + 1) xs)) = p * m"
    by (simp add: p sum_list_mult_const)
  also have "map ?f (drop (k + 1) xs) = map (\<lambda>_. p) (drop (k + 1) xs)"
    using hi by (intro map_cong) (auto simp: min_def dest: antisym)
  also have "sum_list (map (\<lambda>_. p) (drop (k + 1) xs)) = (length xs - (k + 1)) * p"
    by (simp add: sum_list_triv)
  also have "p * m + (length xs - (k + 1)) * p = R * p"
  proof -
    have "m + (length xs - (k + 1)) = R" using m xs(2) by linarith
    then show ?thesis by (metis add_mult_distrib mult.commute)
  qed
  finally have "sum_list (map ?f xs) = R * p" .
  moreover have "\<exists>x \<in> set xs. 0 < x \<and> x * m \<le> p" if "0 < p"
  proof -
    from that p have "\<exists>x \<in> set (take (k + 1) xs). x \<noteq> 0"
      by (metis not_gr_zero sum_list_eq_0_iff)
    with lo show ?thesis by (metis bot_nat_0.not_eq_extremum in_set_takeD)
  qed
  moreover have "length (filter (\<lambda>x. p < x * m) xs) < R"
  proof -
    have "filter (\<lambda>x. p < x * m) (take (k + 1) xs) = []"
      using lo by (simp only: filter_empty_conv not_less) blast
    then have "filter (\<lambda>x. p < x * m) xs = filter (\<lambda>x. p < x * m) (drop (k + 1) xs)"
      by (metis append_Nil append_take_drop_id filter_append)
    then have "length (filter (\<lambda>x. p < x * m) xs) \<le> length xs - (k + 1)"
      using length_filter_le[of "\<lambda>x. p < x * m" "drop (k + 1) xs"] by (simp only: length_drop)
    then show ?thesis using m xs(2) by linarith
  qed
  ultimately show ?thesis using m(1) by (simp add: level_ok_def)
qed

lemma water_loop_level:
  assumes "sorted xs" "0 < R" "R \<le> length xs" "k < length xs" "acc = sum_list (take k xs)"
    and "length xs < R + k \<longrightarrow> (R + k - length xs) * xs ! k < acc"
  shows "level_ok xs R (water_loop xs R k acc)"
  using assms(4-6)
proof (induction "length xs - k" arbitrary: k acc rule: less_induct)
  case less
  let ?p = "acc + xs ! k" and ?den = "int R - int (length xs) + int k + 1"
  have p: "?p = sum_list (take (k + 1) xs)" using less.prems(1,2) by (simp add: take_Suc_conv_app_nth)
  show ?case
  proof (cases "?den > 0 \<and> (k + 1 = length xs \<or> ?p \<le> nat ?den * xs ! (k + 1))")
    case True
    have "water_loop xs R k acc = \<lparr>wl_numerator = ?p, wl_denominator = nat ?den\<rparr>"
      using True less.prems(1) by (subst water_loop.simps) (simp add: Let_def)
    moreover have "xs ! k * nat ?den \<le> ?p"
    proof (cases "length xs < R + k")
      case True
      then have "nat ?den = (R + k - length xs) + 1" by linarith
      then show ?thesis using less.prems(3) True by (simp add: algebra_simps)
    next
      case False
      then have "nat ?den = 1" using \<open>?den > 0 \<and> _\<close> by linarith
      then show ?thesis by simp
    qed
    moreover have "nat ?den + length xs = R + k + 1" "0 < nat ?den" using True by linarith+
    ultimately show ?thesis
      using water_stop[OF assms(1) less.prems(1) _ _ p, of "nat ?den" R] True by simp
  next
    case False
    have "k + 1 \<noteq> length xs" using False assms(2) less.prems(1) by linarith
    then have k1: "k + 1 < length xs" using less.prems(1) by simp
    have "water_loop xs R k acc = water_loop xs R (k + 1) ?p"
      using False less.prems(1) by (subst water_loop.simps) (auto simp: Let_def)
    moreover have "length xs < R + (k + 1) \<longrightarrow> (R + (k + 1) - length xs) * xs ! (k + 1) < ?p"
    proof
      assume "length xs < R + (k + 1)"
      then have "nat ?den = R + (k + 1) - length xs" "?den > 0" by linarith+
      with False k1 show "(R + (k + 1) - length xs) * xs ! (k + 1) < ?p" by simp
    qed
    ultimately show ?thesis using less.hyps[of "k + 1" ?p] k1 p by simp
  qed
qed

lemma water_level_ok:
  assumes "cs \<noteq> []" "0 < R" "R \<le> length cs"
  shows "level_ok cs R (water_level cs R)"
proof -
  have "level_ok (sort cs) R (water_loop (sort cs) R 0 0)"
    using assms by (intro water_loop_level) auto
  with assms show ?thesis by (simp add: water_level_def level_ok_sort)
qed

section \<open>Logical capacity\<close>

text \<open>Bytes that can be stored as \<open>replicas\<close> copies on distinct entities: no entity takes a copy twice.\<close>

definition storable :: "nat list \<Rightarrow> nat \<Rightarrow> nat \<Rightarrow> bool" where
  "storable cs replicas bytes \<longleftrightarrow> replicas * bytes \<le> sum_list (map (\<lambda>c. min c bytes) cs)"

lemma sum_list_mult_mono:
  fixes f g :: "'a \<Rightarrow> nat"
  shows "(\<And>x. x \<in> set xs \<Longrightarrow> f x \<le> g x) \<Longrightarrow> sum_list (map f xs) \<le> sum_list (map g xs)"
  by (rule sum_list_mono) simp

lemma sum_list_strict_mono_nat:
  fixes f g :: "'a \<Rightarrow> nat"
  assumes "\<And>x. x \<in> set xs \<Longrightarrow> f x \<le> g x" "\<exists>x \<in> set xs. f x < g x"
  shows "sum_list (map f xs) < sum_list (map g xs)"
  using assms
proof (induction xs)
  case (Cons x xs)
  have le: "sum_list (map f xs) \<le> sum_list (map g xs)" using Cons.prems(1) by (intro sum_list_mono) simp
  show ?case
  proof (cases "f x < g x")
    case True
    with le show ?thesis by simp
  next
    case False
    then have "\<exists>y \<in> set xs. f y < g y" using Cons.prems(2) by auto
    with Cons.IH Cons.prems(1) have "sum_list (map f xs) < sum_list (map g xs)" by auto
    with Cons.prems(1)[of x] show ?thesis by simp
  qed
qed simp

lemma storable_below_level:
  assumes "level_ok cs R level" "0 < wl_numerator level" "b * wl_denominator level \<le> wl_numerator level"
  shows "storable cs R b"
proof -
  let ?d = "wl_denominator level" and ?p = "wl_numerator level"
  have le: "b * min (c * ?d) ?p \<le> min c b * ?p" for c
  proof -
    have "b * (c * ?d) \<le> c * ?p"
      using mult_le_mono2[OF assms(3), of c] by (simp add: algebra_simps)
    moreover have "b * min (c * ?d) ?p \<le> b * (c * ?d)" "b * min (c * ?d) ?p \<le> b * ?p" by simp_all
    ultimately have "b * min (c * ?d) ?p \<le> c * ?p \<and> b * min (c * ?d) ?p \<le> b * ?p"
      using order_trans by blast
    then show ?thesis by (cases "c \<le> b") (simp_all only: min_def if_True if_False)
  qed
  have "R * b * ?p = b * sum_list (map (\<lambda>c. min (c * ?d) ?p) cs)"
    using assms(1) by (simp add: level_ok_def)
  also have "\<dots> = sum_list (map (\<lambda>c. b * min (c * ?d) ?p) cs)" by (simp add: sum_list_const_mult)
  also have "\<dots> \<le> sum_list (map (\<lambda>c. min c b * ?p) cs)" by (rule sum_list_mono) (rule le)
  also have "\<dots> = sum_list (map (\<lambda>c. min c b) cs) * ?p" by (simp add: sum_list_mult_const)
  finally show ?thesis using assms(2) by (simp add: storable_def)
qed

lemma not_storable_above_level:
  assumes "level_ok cs R level" "0 < wl_numerator level" "wl_numerator level < b * wl_denominator level"
  shows "\<not> storable cs R b"
proof -
  let ?d = "wl_denominator level" and ?p = "wl_numerator level"
  have le: "min c b * ?p \<le> b * min (c * ?d) ?p" for c
  proof -
    have "c * ?p \<le> b * (c * ?d)"
      using mult_le_mono2[OF less_imp_le[OF assms(3)], of c] by (simp add: algebra_simps)
    moreover have "min c b * ?p \<le> c * ?p" "min c b * ?p \<le> b * ?p" by simp_all
    ultimately have "min c b * ?p \<le> b * (c * ?d) \<and> min c b * ?p \<le> b * ?p"
      using order_trans by blast
    then show ?thesis by (simp only: min_def split: if_split) blast
  qed
  obtain x where x: "x \<in> set cs" "0 < x" "x * ?d \<le> ?p" using assms(1,2) by (auto simp: level_ok_def)
  have "x < b"
    using x(3) assms(3) by (metis le_less_trans mult_less_cancel2)
  then have "min x b * ?p < b * min (x * ?d) ?p"
    using x assms(3) mult_strict_left_mono[OF assms(3), of x] by (simp add: min_def algebra_simps)
  with x(1) le have "sum_list (map (\<lambda>c. min c b * ?p) cs) < sum_list (map (\<lambda>c. b * min (c * ?d) ?p) cs)"
    by (intro sum_list_strict_mono_nat) auto
  also have "\<dots> = b * (R * ?p)" using assms(1) by (simp add: level_ok_def sum_list_const_mult)
  finally have "sum_list (map (\<lambda>c. min c b) cs) * ?p < R * b * ?p"
    by (simp only: sum_list_mult_const sum_list_const_mult ac_simps)
  then show ?thesis by (simp add: storable_def)
qed

lemma not_storable_dry:
  assumes "level_ok cs R level" "wl_numerator level = 0" "0 < b"
  shows "\<not> storable cs R b"
proof -
  have "sum_list (map (\<lambda>c. min c b) cs) \<le> b * length (filter (\<lambda>c. 0 < c) cs)"
    by (induction cs) auto
  also have "length (filter (\<lambda>c. 0 < c) cs) = length (filter (\<lambda>c. wl_numerator level < c * wl_denominator level) cs)"
    using assms(1,2) by (simp add: level_ok_def)
  also have "b * \<dots> < b * R" using assms(1,3) by (simp add: level_ok_def)
  finally show ?thesis by (simp add: storable_def mult.commute)
qed

section \<open>Quotas\<close>

definition quotas_ok :: "nat list \<Rightarrow> nat \<Rightarrow> nat list \<Rightarrow> bool" where
  "quotas_ok cs replicas quota \<longleftrightarrow>
     length quota = length cs \<and> list_all (\<lambda>q. q \<le> placement_shards) quota \<and>
     sum_list quota = replicas * placement_shards"

lemma sum_list_map_upt_if:
  "k \<le> n \<Longrightarrow> sum_list (map (\<lambda>i. b + (if i < k then 1 else 0)) [0..<n]) = n * b + (k :: nat)"
proof (induction n)
  case (Suc n)
  show ?case
  proof (cases "k = Suc n")
    case True
    have "map (\<lambda>i. b + (if i < k then 1 else 0)) [0..<Suc n] = map (\<lambda>_. b + 1) [0..<Suc n]"
      using True by (intro map_cong) auto
    then show ?thesis using True by (simp only: sum_list_triv length_map) (simp add: sum_list_triv)
  qed (use Suc in simp)
qed simp

lemma even_quotas_ok:
  assumes "0 < n" "required = R * placement_shards" "R \<le> n" "length cs = n"
  shows "quotas_ok cs R (exact_even_quotas n required)"
proof -
  have "required mod n \<le> n" using assms(1) by (simp add: less_imp_le)
  from sum_list_map_upt_if[OF this, of "required div n"]
  have sum: "sum_list (exact_even_quotas n required) = required" by (simp add: exact_even_quotas_def)
  have le: "required \<le> placement_shards * n" using assms(2,3) by (simp add: mult.commute)
  have "required div n + (if i < required mod n then 1 else 0) \<le> placement_shards" for i
  proof (cases "i < required mod n")
    case True
    have "required = n * (required div n) + required mod n" by simp
    then have "n * (required div n) < placement_shards * n" using True le by linarith
    then have "required div n < placement_shards" using assms(1) by (simp add: mult.commute)
    then show ?thesis by simp
  next
    case False
    have "required div n \<le> placement_shards" using div_le_mono[OF le, of n] assms(1) by simp
    then show ?thesis using False by simp
  qed
  with sum assms(2,4) show ?thesis
    by (auto simp: quotas_ok_def exact_even_quotas_def list_all_iff)
qed

text \<open>What granting slots one by one reaches, in whatever order.\<close>

lemma grant_slots:
  assumes "distinct is" "\<forall>i \<in> set is. i < length quota" "list_all (\<lambda>q. q \<le> placement_shards) quota"
    "assigned = sum_list quota" "assigned \<le> required"
    "foldl (exact_grant_slot required) (quota, assigned) is = (quota', assigned')"
  shows "length quota' = length quota \<and> list_all (\<lambda>q. q \<le> placement_shards) quota' \<and>
    assigned' = sum_list quota' \<and>
    assigned' = min required (assigned + length (filter (\<lambda>i. quota ! i < placement_shards) is))"
  using assms
proof (induction "is" arbitrary: quota assigned)
  case (Cons i "is")
  show ?case
  proof (cases "assigned < required \<and> quota ! i < placement_shards")
    case True
    let ?q = "quota[i := quota ! i + 1]"
    have i: "i < length quota" using Cons.prems(2) by simp
    have all: "list_all (\<lambda>q. q \<le> placement_shards) ?q"
      using Cons.prems(3) True i by (auto simp: list_all_length nth_list_update)
    have sum: "sum_list ?q = sum_list quota + 1"
      using i by (simp add: sum_list_update)
    have same: "filter (\<lambda>j. ?q ! j < placement_shards) is = filter (\<lambda>j. quota ! j < placement_shards) is"
      using Cons.prems(1) by (intro filter_cong) (metis distinct.simps(2) nth_list_update_neq)+
    have "length quota' = length ?q \<and> list_all (\<lambda>q. q \<le> placement_shards) quota' \<and>
        assigned' = sum_list quota' \<and>
        assigned' = min required (assigned + 1 + length (filter (\<lambda>j. ?q ! j < placement_shards) is))"
      using Cons.prems True all sum by (intro Cons.IH) (auto simp: exact_grant_slot_def)
    with same True show ?thesis by simp
  next
    case False
    have "length quota' = length quota \<and> list_all (\<lambda>q. q \<le> placement_shards) quota' \<and>
        assigned' = sum_list quota' \<and>
        assigned' = min required (assigned + length (filter (\<lambda>j. quota ! j < placement_shards) is))"
      using Cons.prems False by (intro Cons.IH) (auto simp: exact_grant_slot_def)
    with False Cons.prems(5) show ?thesis by auto
  qed
qed auto

lemma base_quota_exact:
  assumes "exact_base_quota level c = (q, r)" "0 < wl_numerator level"
  shows "q * wl_numerator level + r = min (c * wl_denominator level) (wl_numerator level) * placement_shards"
    and "r < wl_numerator level" and "q \<le> placement_shards" and "0 < r \<Longrightarrow> q < placement_shards"
proof -
  let ?d = "wl_denominator level" and ?p = "wl_numerator level"
  have *: "q * ?p + r = min (c * ?d) ?p * placement_shards \<and> r < ?p"
    using assms by (auto simp: exact_base_quota_def Let_def split: if_splits)
  then show "q * ?p + r = min (c * ?d) ?p * placement_shards" "r < ?p" by simp_all
  have le: "q * ?p + r \<le> placement_shards * ?p"
    using * by (metis min.cobounded2 mult.commute mult_le_mono2)
  then have "q * ?p \<le> placement_shards * ?p" by linarith
  then show "q \<le> placement_shards" using assms(2) by simp
  show "q < placement_shards" if "0 < r"
  proof -
    have "q * ?p < placement_shards * ?p" using le that by linarith
    then show ?thesis by simp
  qed
qed

lemma sum_remainders:
  fixes r :: "'a \<Rightarrow> nat"
  shows "(\<And>x. x \<in> set xs \<Longrightarrow> r x < p) \<Longrightarrow>
    sum_list (map r xs) \<le> p * length (filter (\<lambda>x. 0 < r x) xs)"
proof (induction xs)
  case (Cons x xs)
  from Cons.prems[of x] Cons.IH Cons.prems show ?case
    by (cases "r x = 0") (force simp: add_le_mono less_imp_le)+
qed simp

text \<open>The slots that whole quotas leave are no more than the entities that can take one.\<close>

lemma base_quotas_missing:
  assumes "level_ok cs R level" "0 < wl_numerator level"
  defines "qs \<equiv> map (\<lambda>c. fst (exact_base_quota level c)) cs"
  shows "sum_list qs \<le> R * placement_shards"
    and "R * placement_shards \<le>
      sum_list qs + length (filter (\<lambda>i. qs ! i < placement_shards) [0..<length qs])"
proof -
  let ?p = "wl_numerator level" and ?q = "\<lambda>c. fst (exact_base_quota level c)" and ?r = "\<lambda>c. snd (exact_base_quota level c)"
  note exact = base_quota_exact[OF prod.collapse[symmetric] assms(2)]
  have "sum_list qs * ?p + sum_list (map ?r cs) = sum_list (map (\<lambda>c. ?q c * ?p + ?r c) cs)"
    by (simp add: qs_def sum_list_addf sum_list_mult_const)
  also have "\<dots> = sum_list (map (\<lambda>c. min (c * wl_denominator level) ?p * placement_shards) cs)"
    by (simp only: exact(1))
  also have "\<dots> = R * ?p * placement_shards"
    using assms(1) by (simp add: level_ok_def sum_list_mult_const)
  finally have total: "sum_list qs * ?p + sum_list (map ?r cs) = R * placement_shards * ?p"
    by (simp only: ac_simps)
  then have "sum_list qs * ?p \<le> R * placement_shards * ?p" by linarith
  with assms(2) show "sum_list qs \<le> R * placement_shards" by simp
  let ?k = "length (filter (\<lambda>c. 0 < ?r c) cs)"
  have "sum_list (map ?r cs) \<le> ?p * ?k" by (rule sum_remainders) (rule exact(2))
  with total have "R * placement_shards * ?p \<le> (sum_list qs + ?k) * ?p"
    by (simp add: add_mult_distrib mult.commute[of ?p])
  with assms(2) have "R * placement_shards \<le> sum_list qs + ?k" by simp
  also have "?k \<le> length (filter (\<lambda>c. ?q c < placement_shards) cs)"
    using exact(4) by (induction cs) (auto simp: qs_def)
  also have "\<dots> = length (filter (\<lambda>q. q < placement_shards) qs)"
    by (simp add: qs_def filter_map comp_def)
  also have "\<dots> = length (filter (\<lambda>i. qs ! i < placement_shards) [0..<length qs])"
    by (subst (1) map_nth[symmetric]) (simp only: filter_map length_map comp_def)
  finally show "R * placement_shards \<le>
      sum_list qs + length (filter (\<lambda>i. qs ! i < placement_shards) [0..<length qs])" by simp
qed

definition exact_share :: "WaterLevel \<Rightarrow> nat \<Rightarrow> nat" where
  "exact_share level c = min (c * wl_denominator level) (wl_numerator level) * placement_shards div wl_numerator level"

lemma base_quota_share: "0 < wl_numerator level \<Longrightarrow> fst (exact_base_quota level c) = exact_share level c"
  by (auto simp: exact_base_quota_def exact_share_def Let_def)

text \<open>A share is the entity's part of the water level rounded down, or one more.\<close>

lemma nth_list_update_any: "xs[j := x] ! i = (if i = j \<and> j < length xs then x else xs ! i)"
  by (cases "j < length xs") (auto simp: nth_list_update list_update_beyond)

lemma grant_slots_at_most_one:
  assumes "distinct is"
  shows "fst (foldl (exact_grant_slot required) (quota, assigned) is) ! i \<in> {quota ! i, quota ! i + 1} \<and>
    (i \<notin> set is \<longrightarrow> fst (foldl (exact_grant_slot required) (quota, assigned) is) ! i = quota ! i)"
  using assms
proof (induction "is" arbitrary: quota assigned)
  case (Cons j "is")
  obtain q a where g: "exact_grant_slot required (quota, assigned) j = (q, a)" by fastforce
  have "q ! i \<in> {quota ! i, quota ! i + 1} \<and> (i \<noteq> j \<longrightarrow> q ! i = quota ! i)"
    using arg_cong[OF g, of "\<lambda>s. fst s ! i"] by (simp add: exact_grant_slot_def nth_list_update_any split: if_splits)
  with Cons.IH[of q a] Cons.prems g show ?case by (cases "i = j") auto
qed simp

lemma grant_slots_done: "required \<le> assigned \<Longrightarrow> foldl (exact_grant_slot required) (quota, assigned) is = (quota, assigned)"
  by (induction "is") (simp_all add: exact_grant_slot_def)

lemma shard_quotas_shares:
  assumes "cs \<noteq> []" "0 < R" and level_def: "level = water_level cs (min R (length cs))"
  shows "quotas_ok cs (min R (length cs)) (exact_shard_quotas cs R) \<and>
    (\<forall>i < length cs. 0 < wl_numerator level \<longrightarrow>
      exact_shard_quotas cs R ! i \<in> {exact_share level (cs ! i), exact_share level (cs ! i) + 1})"
proof -
  let ?n = "length cs" and ?R = "min R (length cs)"
  let ?S = "?R * placement_shards"
  have R: "0 < ?R" "?R \<le> ?n" using assms by auto
  have ok: "level_ok cs ?R level" unfolding level_def by (rule water_level_ok[OF assms(1) R])
  show ?thesis
  proof (cases "wl_numerator level = 0")
    case True
    then have "exact_shard_quotas cs R = exact_even_quotas ?n ?S"
      using assms by (simp add: exact_shard_quotas_def Let_def level_def)
    with even_quotas_ok[OF _ refl R(2) refl] assms(1) True show ?thesis by simp
  next
    case False
    define qs where "qs = map (\<lambda>c. fst (exact_base_quota level c)) cs"
    define order where "order = sort_key (\<lambda>i. (- int (snd (map (exact_base_quota level) cs ! i)), i)) [0..<?n]"
    obtain q1 a1 where g1: "foldl (exact_grant_slot ?S) (qs, sum_list qs) order = (q1, a1)" by fastforce
    obtain q2 a2 where g2: "foldl (exact_grant_slot ?S) (q1, a1) [0..<?n] = (q2, a2)" by fastforce
    have res: "exact_shard_quotas cs R = q2"
      using assms False g1 g2
      by (simp add: exact_shard_quotas_def Let_def level_def qs_def order_def comp_def)
    note missing = base_quotas_missing[OF ok, folded qs_def]
    have small: "list_all (\<lambda>q. q \<le> placement_shards) qs"
      using base_quota_exact(3)[OF prod.collapse[symmetric]] False by (auto simp: qs_def list_all_iff)
    have order: "distinct order" "\<forall>i \<in> set order. i < length qs" by (auto simp: order_def qs_def)
    have "length (filter P order) = length (filter P [0..<?n])" for P
      unfolding order_def by (metis mset_filter mset_sort size_mset)
    with grant_slots[OF order small refl _ g1] missing False
    have 1: "length q1 = ?n" "list_all (\<lambda>q. q \<le> placement_shards) q1" "a1 = sum_list q1" "a1 = ?S"
      by (auto simp: qs_def)
    have "q2 = q1" using grant_slots_done[of ?S a1 q1] g2 1(4) by simp
    moreover have "q1 ! i \<in> {qs ! i, qs ! i + 1}" for i
      using grant_slots_at_most_one[OF order(1), of ?S qs "sum_list qs" i] g1 by simp
    moreover have "qs ! i = exact_share level (cs ! i)" if "i < ?n" for i
      using that False base_quota_share[of level "cs ! i"] by (simp add: qs_def)
    ultimately have "exact_shard_quotas cs R ! i \<in> {exact_share level (cs ! i), exact_share level (cs ! i) + 1}" if "i < ?n" for i
      using that res by metis
    with grant_slots[OF _ _ 1(2,3) _ g2] 1 res show ?thesis by (auto simp: quotas_ok_def)
  qed
qed

lemma shard_quotas_ok: "cs \<noteq> [] \<Longrightarrow> 0 < R \<Longrightarrow> quotas_ok cs (min R (length cs)) (exact_shard_quotas cs R)"
  using shard_quotas_shares[OF _ _ refl] by blast

section \<open>The sample\<close>

definition points :: "nat \<Rightarrow> nat \<Rightarrow> nat \<Rightarrow> nat \<Rightarrow> nat set" where
  "points s R lo hi = {copy. copy < R \<and> lo \<le> s + copy * placement_shards \<and> s + copy * placement_shards < hi}"

lemma placement_shards_pos [simp]: "0 < placement_shards"
  by (simp add: placement_shards_def)

lemma has_point_iff: "exact_has_point s R lo hi \<longleftrightarrow> points s R lo hi \<noteq> {}"
  by (auto simp: exact_has_point_def points_def list_ex_iff)

lemma points_finite [simp]: "finite (points s R lo hi)"
  by (rule finite_subset[of _ "{..<R}"]) (auto simp: points_def)

lemma points_split:
  "lo \<le> mid \<Longrightarrow> mid \<le> hi \<Longrightarrow> card (points s R lo hi) = card (points s R lo mid) + card (points s R mid hi)"
  by (subst card_Un_disjoint[symmetric]) (auto simp: points_def intro!: arg_cong[where f = card])

lemma points_one:
  assumes "q \<le> placement_shards" shows "card (points s R lo (lo + q)) = (if exact_has_point s R lo (lo + q) then 1 else 0)"
proof -
  have "a = b" if "a \<in> points s R lo (lo + q)" "b \<in> points s R lo (lo + q)" for a b
  proof -
    have False if "a < b" "s + b * placement_shards < lo + q" "lo \<le> s + a * placement_shards" for a b
    proof -
      have "(a + 1) * placement_shards \<le> b * placement_shards" using that(1) by (intro mult_le_mono1) simp
      with that assms show False by (simp add: add_mult_distrib)
    qed
    from this[of a b] this[of b a] that show ?thesis by (force simp: points_def)
  qed
  then show ?thesis
    by (auto simp: has_point_iff card_eq_0_iff) (metis is_singletonI' is_singleton_altdef empty_iff One_nat_def)
qed

lemma length_sample_loop:
  "list_all (\<lambda>q. q \<le> placement_shards) qs \<Longrightarrow>
   length (exact_sample_loop s R qs i lo) = card (points s R lo (lo + sum_list qs))"
proof (induction qs arbitrary: i lo)
  case (Cons q qs)
  have "card (points s R lo (lo + sum_list (q # qs))) =
      card (points s R lo (lo + q)) + card (points s R (lo + q) (lo + q + sum_list qs))"
    by (subst points_split[of lo "lo + q"]) (simp_all add: add.assoc)
  with Cons show ?case by (simp add: points_one)
qed (auto simp: points_def)

lemma points_all:
  assumes "s < placement_shards" shows "card (points s R 0 (R * placement_shards)) = R"
proof -
  have "s + copy * placement_shards < R * placement_shards" if "copy < R" for copy
  proof -
    have "(copy + 1) * placement_shards \<le> R * placement_shards" using that by (intro mult_le_mono1) simp
    with assms show ?thesis by (simp add: add_mult_distrib)
  qed
  then have "points s R 0 (R * placement_shards) = {..<R}" by (auto simp: points_def)
  then show ?thesis by simp
qed

lemma set_sample_loop:
  "j \<in> set (exact_sample_loop s R qs i lo) \<longleftrightarrow>
     i \<le> j \<and> j < i + length qs \<and>
     exact_has_point s R (lo + sum_list (take (j - i) qs)) (lo + sum_list (take (j - i) qs) + qs ! (j - i))"
proof (induction qs arbitrary: i lo)
  case (Cons q qs)
  show ?case
  proof (cases "j = i")
    case False
    then show ?thesis
      by (cases "j - i") (auto simp: Cons.IH add.assoc Suc_diff_Suc diff_Suc split: nat.splits)
  qed (use Cons.IH[of "Suc i" "lo + q"] in auto)
qed simp

lemma distinct_sample_loop: "distinct (exact_sample_loop s R qs i lo)"
  by (induction qs arbitrary: i lo) (auto simp: set_sample_loop)

text \<open>The points of the shards, one of each, hit an interval as often as it is long.\<close>

lemma card_shards_hitting:
  assumes "q \<le> placement_shards" "lo + q \<le> R * placement_shards"
  shows "card {s. s < placement_shards \<and> exact_has_point s R lo (lo + q)} = q"
proof -
  have inj: "inj_on (\<lambda>x. x mod placement_shards) {lo..<lo + q}"
  proof (rule inj_onI)
    fix x y assume xy: "x \<in> {lo..<lo + q}" "y \<in> {lo..<lo + q}" "x mod placement_shards = y mod placement_shards"
    have eq: "a = b" if "a \<le> b" "b - a < placement_shards" "a mod placement_shards = b mod placement_shards" for a b :: nat
    proof -
      have "placement_shards dvd b - a" using that(1) that(3)[symmetric] mod_eq_dvd_iff_nat by blast
      then have "\<not> 0 < b - a" using that(2) nat_dvd_not_less by blast
      with that(1) show ?thesis by simp
    qed
    show "x = y"
    proof (cases "x \<le> y")
      case True
      then show ?thesis using eq[OF True _ xy(3)] xy(1,2) assms(1) by force
    next
      case False
      then have "y \<le> x" by simp
      then show ?thesis using eq[OF _ _ xy(3)[symmetric]] xy(1,2) assms(1) by force
    qed
  qed
  have "{s. s < placement_shards \<and> exact_has_point s R lo (lo + q)} = (\<lambda>x. x mod placement_shards) ` {lo..<lo + q}"
  proof (intro equalityI subsetI)
    fix s assume "s \<in> {s. s < placement_shards \<and> exact_has_point s R lo (lo + q)}"
    then obtain copy where "s < placement_shards" "lo \<le> s + copy * placement_shards"
      "s + copy * placement_shards < lo + q" by (auto simp: has_point_iff points_def)
    then show "s \<in> (\<lambda>x. x mod placement_shards) ` {lo..<lo + q}"
      by (intro image_eqI[of _ _ "s + copy * placement_shards"]) auto
  next
    fix s assume "s \<in> (\<lambda>x. x mod placement_shards) ` {lo..<lo + q}"
    then obtain x where x: "lo \<le> x" "x < lo + q" "s = x mod placement_shards" by auto
    have "x < R * placement_shards" using x(2) assms(2) by linarith
    then have "x div placement_shards < R" by (simp add: less_mult_imp_div_less)
    moreover have "s + x div placement_shards * placement_shards = x" using x(3) by simp
    ultimately have "x div placement_shards \<in> points s R lo (lo + q)" using x by (simp add: points_def)
    with x(3) show "s \<in> {s. s < placement_shards \<and> exact_has_point s R lo (lo + q)}" by (auto simp: has_point_iff)
  qed
  with inj show ?thesis by (simp add: card_image)
qed

lemma unat_u32_less: "unat (w :: u32) < placement_shards"
proof -
  have "unat w < 2 ^ LENGTH(32)" by (rule unsigned_less)
  then show ?thesis by (simp add: placement_shards_def)
qed


section \<open>The machine arithmetic is exact\<close>

lemma unat_u64_less: "unat (w :: u64) < 2 ^ 64"
  using unsigned_less[of w, where ?'a = nat] by simp

lemma unat_u128_of_nat: "n < 2 ^ 128 \<Longrightarrow> unat (of_nat n :: u128) = n"
  by (simp add: unat_of_nat take_bit_nat_eq_self)

lemma unat_u64_of_nat: "n < 2 ^ 64 \<Longrightarrow> unat (of_nat n :: u64) = n"
  by (simp add: unat_of_nat take_bit_nat_eq_self)

lemma unat_u128_ucast [simp]: "unat (ucast (w :: u64) :: u128) = unat w"
  using unat_u64_less[of w] by (simp add: unsigned_ucast_eq take_bit_nat_eq_self)

lemma unat_u64_ucast: "unat (w :: u128) < 2 ^ 64 \<Longrightarrow> unat (ucast w :: u64) = unat w"
  by (simp add: unsigned_ucast_eq take_bit_nat_eq_self)

lemma unat_u128_mult: "unat (a :: u128) * unat b < 2 ^ 128 \<Longrightarrow> unat (a * b) = unat a * unat b"
  using unat_mult_lem[of a b] by simp

lemma unat_u128_add: "unat (a :: u128) + unat b < 2 ^ 128 \<Longrightarrow> unat (a + b) = unat a + unat b"
  using unat_add_lem[of a b] by simp

lemma unat_sum_u128:
  "sum_list (map unat (ws :: u64 list)) < 2 ^ 128 \<Longrightarrow> unat (sum_list (map ucast ws) :: u128) = sum_list (map unat ws)"
proof (induction ws)
  case (Cons w ws)
  then show ?case using unat_u128_add[of "ucast w" "sum_list (map ucast ws)"] by simp
qed simp

lemma sum_u64_bound: "sum_list (map unat (cs :: u64 list)) \<le> length cs * (2 ^ 64 - 1)"
proof (induction cs)
  case (Cons c cs)
  then show ?case using unat_u64_less[of c] by simp
qed simp

lemma water_loop_bounds:
  assumes "R \<le> length xs"
  shows "wl_numerator (water_loop xs R k acc) \<le> acc + sum_list (drop k xs) \<and> wl_denominator (water_loop xs R k acc) \<le> max 1 R"
  using assms
proof (induction xs R k acc rule: water_loop.induct)
  case (1 xs R k acc)
  show ?case
  proof (cases "k \<ge> length xs")
    case True
    then show ?thesis by (subst (1 2) water_loop.simps) simp
  next
    case False
    then have d: "drop k xs = xs ! k # drop (k + 1) xs" by (simp add: Cons_nth_drop_Suc)
    let ?den = "int R - int (length xs) + int k + 1"
    show ?thesis
    proof (cases "?den > 0 \<and> (k + 1 = length xs \<or> acc + xs ! k \<le> nat ?den * xs ! (k + 1))")
      case True
      then have "water_loop xs R k acc = \<lparr>wl_numerator = acc + xs ! k, wl_denominator = nat ?den\<rparr>"
        using False by (subst water_loop.simps) (simp add: Let_def)
      with d False 1(2) show ?thesis by simp
    next
      case stop: False
      then have "water_loop xs R k acc = water_loop xs R (k + 1) (acc + xs ! k)"
        using False by (subst water_loop.simps) (simp only: Let_def if_False simp_thms)
      with 1(1)[OF False refl refl stop 1(2)] d show ?thesis by simp
    qed
  qed
qed

text \<open>
  The sums of the water level fit 128 bits for any vector there can be, and so do the products it
  compares them with; for up to \<open>2 ^ 32\<close> entities they fit 96.
\<close>

lemma water_level_fits:
  assumes "level = water_level (map unat (cs :: u64 list)) R" "cs \<noteq> []"
  shows "wl_numerator level \<le> length cs * (2 ^ 64 - 1)" "wl_denominator level \<le> length cs"
    "length cs \<le> 2 ^ 63 \<Longrightarrow> wl_numerator level < 2 ^ 128 \<and> wl_denominator level * unat (c :: u64) < 2 ^ 128"
proof -
  let ?R = "min R (length cs)"
  show num: "wl_numerator level \<le> length cs * (2 ^ 64 - 1)" and den: "wl_denominator level \<le> length cs"
  proof (atomize (full), cases "R = 0")
    case False
    have "sum_list (sort (map unat cs)) = sum_list (map unat cs)" using sum_list_sort[of "\<lambda>x. x" "map unat cs"] by simp
    moreover have "level = water_loop (sort (map unat cs)) ?R 0 0" using assms False by (simp add: water_level_def)
    moreover have "max 1 ?R \<le> length cs" using assms(2) by (cases cs) auto
    ultimately show "wl_numerator level \<le> length cs * (2 ^ 64 - 1) \<and> wl_denominator level \<le> length cs"
      using water_loop_bounds[of ?R "sort (map unat cs)" 0 0] sum_u64_bound[of cs] by (auto intro: order_trans)
  qed (use assms in \<open>cases cs; simp add: water_level_def\<close>)
  assume n: "length cs \<le> 2 ^ 63"
  have "wl_denominator level * unat c \<le> 2 ^ 63 * (2 ^ 64 - 1)"
    using den n unat_u64_less[of c] by (intro mult_le_mono) linarith+
  moreover have "wl_numerator level \<le> 2 ^ 63 * (2 ^ 64 - 1)"
    using num n by (meson mult_le_mono1 order_trans)
  ultimately show "wl_numerator level < 2 ^ 128 \<and> wl_denominator level * unat c < 2 ^ 128" by simp
qed

lemma div_le_share: "a \<le> b \<Longrightarrow> a * s div b \<le> (s :: nat)"
  by (metis div_le_mono div_mult_self1_is_m le0 mult_le_mono1 neq0_conv div_by_0)

lemma sort_key_same: "(\<And>x. x \<in> set xs \<Longrightarrow> f x = g x) \<Longrightarrow> sort_key f xs = sort_key g xs"
proof (induction xs)
  case (Cons x xs)
  have "insort_key f y ys = insort_key g y ys" if "\<forall>z \<in> insert y (set ys). f z = g z" for y ys
    using that by (induction ys) auto
  with Cons show ?case by simp
qed simp

lemma base_quota_unat:
  assumes "0 < wl_numerator level" "wl_numerator level < 2 ^ 96" "wl_denominator level \<le> 2 ^ 32"
  shows "(unat (fst (base_quota level c)), unat (snd (base_quota level c))) = exact_base_quota level (unat c)"
proof -
  let ?num = "of_nat (wl_numerator level) :: u128" and ?sc = "ucast c * of_nat (wl_denominator level) :: u128"
  have num: "unat ?num = wl_numerator level" using assms(2) by (intro unat_u128_of_nat) simp
  have den: "unat (of_nat (wl_denominator level) :: u128) = wl_denominator level" using assms(3) by (intro unat_u128_of_nat) simp
  have "unat c * wl_denominator level \<le> (2 ^ 64 - 1) * 2 ^ 32"
    using unat_u64_less[of c] assms(3) by (intro mult_le_mono) linarith+
  then have sc: "unat ?sc = unat c * wl_denominator level"
    using den by (subst unat_u128_mult) simp_all
  have S: "unat (of_nat placement_shards :: u128) = placement_shards" "unat (of_nat placement_shards :: u64) = placement_shards"
    by (simp_all add: placement_shards_def)
  show ?thesis
  proof (cases "?sc \<ge> ?num")
    case True
    then have "unat c * wl_denominator level \<ge> wl_numerator level" by (simp add: word_le_nat_alt num sc)
    with True S show ?thesis by (simp add: base_quota_def exact_base_quota_def Let_def)
  next
    case False
    then have less: "unat c * wl_denominator level < wl_numerator level" by (simp add: word_le_nat_alt num sc)
    let ?ex = "?sc * of_nat placement_shards :: u128"
    have "unat ?sc * placement_shards < 2 ^ 96 * 2 ^ 32"
      using less assms(2) unfolding sc placement_shards_def by (intro mult_strict_right_mono, linarith, simp)
    then have ex: "unat ?ex = unat c * wl_denominator level * placement_shards"
      using S(1) sc by (subst unat_u128_mult) simp_all
    have "unat c * wl_denominator level * placement_shards div wl_numerator level \<le> placement_shards"
      using less div_le_share[of "unat c * wl_denominator level" "wl_numerator level"] by simp
    then have "unat (?ex div ?num) < 2 ^ 64" using ex num by (simp add: unat_div placement_shards_def)
    then have "unat (ucast (?ex div ?num) :: u64) = unat c * wl_denominator level * placement_shards div wl_numerator level"
      using ex num by (simp add: unat_u64_ucast unat_div)
    moreover have "unat (?ex mod ?num) = unat c * wl_denominator level * placement_shards mod wl_numerator level"
      using ex num by (simp add: unat_mod)
    ultimately show ?thesis using False less by (simp add: base_quota_def exact_base_quota_def Let_def)
  qed
qed

lemma even_quotas_unat:
  assumes "0 < n" "R \<le> n" "n \<le> 2 ^ 32" "unat required = R * placement_shards"
  shows "map unat (even_quotas n required) = exact_even_quotas n (R * placement_shards)"
proof -
  have n: "unat (of_nat n :: u128) = n" using assms(3) by (intro unat_u128_of_nat) simp
  have "R * placement_shards div n \<le> placement_shards"
    by (rule div_le_share[OF assms(2)])
  then have q: "unat (ucast (required div of_nat n) :: u64) = R * placement_shards div n" "R * placement_shards div n < 2 ^ 33"
    using n assms(4) by (simp_all add: unat_u64_ucast unat_div placement_shards_def)
  have "R * placement_shards mod n < n" using assms(1) by simp
  then have r: "unat (ucast (required mod of_nat n) :: u64) = R * placement_shards mod n"
    using n assms(3,4) by (subst unat_u64_ucast) (simp_all add: unat_mod)
  have "unat (ucast (required div of_nat n) + 1 :: u64) = R * placement_shards div n + 1"
    using q unat_add_lem[of "ucast (required div of_nat n) :: u64" 1] by simp
  with q(1) r show ?thesis by (simp add: even_quotas_def exact_even_quotas_def Let_def)
qed

lemma grant_slot_unat:
  assumes "i < length quota"
  shows "exact_grant_slot (unat required) (map unat quota, unat assigned) i =
    (map unat (fst (grant_slot required (quota, assigned) i)), unat (snd (grant_slot required (quota, assigned) i))) \<and>
    length (fst (grant_slot required (quota, assigned) i)) = length quota"
proof -
  have S: "unat (of_nat placement_shards :: u64) = placement_shards" by (simp add: placement_shards_def)
  have "unat (assigned + 1) = unat assigned + 1" if "assigned < required"
  proof -
    have "unat assigned + 1 < 2 ^ 128" using that unsigned_less[of required, where ?'a = nat] by (simp add: word_less_nat_alt)
    then show ?thesis using unat_u128_add[of assigned 1] by simp
  qed
  moreover have "unat (quota ! i + 1) = unat (quota ! i) + 1" if "quota ! i < of_nat placement_shards"
    using that S unat_add_lem[of "quota ! i" 1] by (simp add: word_less_nat_alt placement_shards_def)
  ultimately show ?thesis
    using assms by (auto simp: exact_grant_slot_def grant_slot_def word_less_nat_alt S map_update)
qed

lemma grant_slots_unat:
  "\<forall>i \<in> set is. i < length quota \<Longrightarrow> foldl (exact_grant_slot (unat required)) (map unat quota, unat assigned) is =
    (map unat (fst (foldl (grant_slot required) (quota, assigned) is)), unat (snd (foldl (grant_slot required) (quota, assigned) is)))"
proof (induction "is" arbitrary: quota assigned)
  case (Cons i "is")
  obtain q a where g: "grant_slot required (quota, assigned) i = (q, a)" by fastforce
  with grant_slot_unat[of i quota required assigned] Cons.prems
  have "exact_grant_slot (unat required) (map unat quota, unat assigned) i = (map unat q, unat a)" "length q = length quota" by simp_all
  with Cons g show ?case by simp
qed simp

lemma grant_slots_length: "length (fst (foldl (grant_slot required) acc is)) = length (fst acc)"
  by (induction "is" arbitrary: acc) (simp_all add: grant_slot_def split_beta)

lemma base_quotas_unat:
  fixes cs :: "u64 list"
  assumes "length cs \<le> 2 ^ 32" "cs \<noteq> []" "level = water_level (map unat cs) R" "0 < wl_numerator level"
    and bases_def: "bases = map (base_quota level) cs"
  shows "map (exact_base_quota level) (map unat cs) = map (\<lambda>b. (unat (fst b), unat (snd b))) bases"
    and "unat (sum_list (map ucast (map fst bases)) :: u128) = sum_list (map unat (map fst bases))"
proof -
  note fits = water_level_fits(1,2)[OF assms(3)]
  have "wl_numerator level \<le> 2 ^ 32 * (2 ^ 64 - 1)" using fits(1)[OF assms(2)] assms(1) by (meson mult_le_mono1 order_trans)
  then have num: "wl_numerator level < 2 ^ 96" by simp
  have den: "wl_denominator level \<le> 2 ^ 32" using fits(2)[OF assms(2)] assms(1) by linarith
  note base = base_quota_unat[OF _ num den]
  show "map (exact_base_quota level) (map unat cs) = map (\<lambda>b. (unat (fst b), unat (snd b))) bases"
    using base assms(4) by (simp add: bases_def)
  have "unat (fst b) \<le> placement_shards" if "b \<in> set bases" for b
    using that base assms(4) base_quota_exact(3)[OF prod.collapse[symmetric], of level]
    by (auto simp: bases_def) (metis fst_conv)
  then have "sum_list (map (\<lambda>b. unat (fst b)) bases) \<le> length bases * placement_shards"
    by (induction bases) (auto simp: add_le_mono)
  also have "\<dots> \<le> 2 ^ 32 * 2 ^ 32" using assms(1) unfolding bases_def placement_shards_def by (intro mult_le_mono1) simp
  finally show "unat (sum_list (map ucast (map fst bases)) :: u128) = sum_list (map unat (map fst bases))"
    by (intro unat_sum_u128) (simp add: comp_def)
qed

lemma shard_quotas_unat:
  assumes "length cs \<le> 2 ^ 32"
  shows "map unat (shard_quotas cs R) = exact_shard_quotas (map unat cs) R"
proof (cases "cs = [] \<or> R = 0")
  case True
  then show ?thesis by (auto simp: shard_quotas_def exact_shard_quotas_def)
next
  case ne: False
  let ?n = "length cs" and ?R = "min R (length cs)"
  define level where "level = water_level (map unat cs) ?R"
  define required :: u128 where "required = of_nat ?R * of_nat placement_shards"
  have R: "0 < ?n" "?R \<le> ?n" and nonempty: "cs \<noteq> []" using ne by auto
  have "?R * placement_shards \<le> 2 ^ 32 * 2 ^ 32"
    using R(2) assms unfolding placement_shards_def by (intro mult_le_mono1) linarith
  then have req: "unat required = ?R * placement_shards"
    unfolding required_def using assms R(2) by (subst unat_u128_mult) (simp_all add: unat_u128_of_nat placement_shards_def)
  show ?thesis
  proof (cases "wl_numerator level = 0")
    case True
    with ne even_quotas_unat[OF R assms req] show ?thesis
      by (simp add: shard_quotas_def exact_shard_quotas_def Let_def level_def[symmetric] required_def[symmetric])
  next
    case False
    then have pos: "0 < wl_numerator level" by simp
    define bases where "bases = map (base_quota level) cs"
    note ex = base_quotas_unat(1)[OF assms _ level_def _ bases_def] and sum = base_quotas_unat(2)[OF assms _ level_def _ bases_def]
    have key: "int (snd (map (\<lambda>b. (unat (fst b), unat (snd b))) bases ! i)) = uint (snd (bases ! i))" if "i \<in> set [0..<?n]" for i
      using that by (simp add: bases_def)
    define order where "order = sort_key (\<lambda>i. (- uint (snd (bases ! i)), i)) [0..<?n]"
    have order: "sort_key (\<lambda>i. (- int (snd (map (\<lambda>b. (unat (fst b), unat (snd b))) bases ! i)), i)) [0..<?n] = order"
      unfolding order_def using key by (intro sort_key_same) simp
    have "\<forall>i \<in> set order. i < length (map fst bases)" by (simp add: order_def bases_def)
    note g1 = grant_slots_unat[OF this, of required "sum_list (map ucast (map fst bases))"]
    obtain q a where qa: "foldl (grant_slot required) (map fst bases, sum_list (map ucast (map fst bases))) order = (q, a)" by fastforce
    then have "length q = ?n" using grant_slots_length[of required _ order] by (metis bases_def fst_conv length_map)
    then have g2: "foldl (exact_grant_slot (unat required)) (map unat q, unat a) [0..<?n] =
        (map unat (fst (foldl (grant_slot required) (q, a) [0..<?n])), unat (snd (foldl (grant_slot required) (q, a) [0..<?n])))"
      by (intro grant_slots_unat) simp
    have m: "map fst (map (\<lambda>b. (unat (fst b), unat (snd b))) bases) = map unat (map fst bases)" by simp
    have "exact_shard_quotas (map unat cs) R = fst (foldl (exact_grant_slot (unat required))
        (foldl (exact_grant_slot (unat required)) (map unat (map fst bases), sum_list (map unat (map fst bases))) order) [0..<?n])"
      using ne pos unfolding exact_shard_quotas_def Let_def length_map level_def[symmetric] ex[OF nonempty pos] order m req by simp
    also have "\<dots> = map unat (fst (foldl (grant_slot required) (q, a) [0..<?n]))"
      unfolding sum[OF nonempty pos, symmetric] g1 qa fst_conv snd_conv g2 by simp
    also have "fst (foldl (grant_slot required) (q, a) [0..<?n]) = shard_quotas cs R"
      using ne pos qa
      by (simp add: shard_quotas_def Let_def level_def[symmetric] required_def[symmetric] bases_def[symmetric] order_def[symmetric])
    finally show ?thesis by simp
  qed
qed

section \<open>Sampling with machine arithmetic\<close>

lemma shard_quotas_length: "length (shard_quotas cs R) = length cs"
  by (simp add: shard_quotas_def Let_def even_quotas_def grant_slots_length)

lemma has_point_unat:
  assumes "unat shard + R * placement_shards < 2 ^ 128" "R < 2 ^ 64"
  shows "has_point shard R lo hi \<longleftrightarrow> exact_has_point (unat shard) R (unat lo) (unat hi)"
proof -
  have "unat (ucast shard + of_nat copy * of_nat placement_shards :: u128) = unat shard + copy * placement_shards" if "copy < R" for copy
  proof -
    have "copy * placement_shards \<le> R * placement_shards" using that by (intro mult_le_mono1) simp
    then have b: "unat shard + copy * placement_shards < 2 ^ 128" using assms(1) by linarith
    have "unat (of_nat copy :: u128) = copy" using that assms(2) by (intro unat_u128_of_nat) simp
    then have m: "unat (of_nat copy * of_nat placement_shards :: u128) = copy * placement_shards"
      using b by (subst unat_u128_mult) (simp_all add: placement_shards_def)
    with b show ?thesis by (subst unat_u128_add) simp_all
  qed
  then show ?thesis by (auto simp: has_point_def exact_has_point_def list_ex_iff word_le_nat_alt word_less_nat_alt Let_def)
qed

lemma sample_loop_unat:
  assumes "unat shard + R * placement_shards < 2 ^ 128" "R < 2 ^ 64" "unat lo + sum_list (map unat qs) < 2 ^ 128"
  shows "sample_loop shard R qs i lo = exact_sample_loop (unat shard) R (map unat qs) i (unat lo)"
  using assms(3)
proof (induction qs arbitrary: i lo)
  case (Cons q qs)
  then have "unat (lo + ucast q) = unat lo + unat q" by (subst unat_u128_add) simp_all
  with Cons has_point_unat[OF assms(1,2), of lo "lo + ucast q"] show ?case by simp
qed simp

text \<open>Whatever the quotas are, a sample is of different entities, as many as asked for at least.\<close>

lemma sample_loop_any: "distinct (sample_loop shard R qs i lo) \<and> set (sample_loop shard R qs i lo) \<subseteq> {i..<i + length qs}"
proof (induction qs arbitrary: i lo)
  case (Cons q qs)
  from Cons[of "i + 1" "lo + ucast q"] show ?case by auto
qed simp

lemma fill_sample_any:
  assumes "distinct sel" "set sel \<subseteq> {..<n}" "R \<le> n"
  shows "distinct (fill_sample n R sel) \<and> set (fill_sample n R sel) \<subseteq> {..<n} \<and> R \<le> length (fill_sample n R sel)"
proof -
  let ?step = "\<lambda>sel i. if length sel < R \<and> i \<notin> set sel then sel @ [i] else sel"
  have "m \<le> n \<Longrightarrow> let r = foldl ?step sel [0..<m] in
      distinct r \<and> set r \<subseteq> {..<n} \<and> (R \<le> length r \<or> {..<m} \<subseteq> set r)" for m
  proof (induction m)
    case (Suc m)
    then show ?case by (auto simp: Let_def lessThan_Suc)
  qed (use assms in simp)
  from this[of n] have r: "distinct (fill_sample n R sel)" "set (fill_sample n R sel) \<subseteq> {..<n}"
    "R \<le> length (fill_sample n R sel) \<or> {..<n} \<subseteq> set (fill_sample n R sel)" by (simp_all add: fill_sample_def Let_def)
  have "n \<le> length (fill_sample n R sel)" if "{..<n} \<subseteq> set (fill_sample n R sel)"
    using card_mono[OF finite_set that] r(1) by (simp add: distinct_card)
  with r assms(3) show ?thesis by auto
qed

lemma sample_shard_any:
  assumes "cs \<noteq> []" "0 < R"
  shows "distinct (sample_shard shard cs R)" "set (sample_shard shard cs R) \<subseteq> {..<length cs}"
    "min R (length cs) \<le> length (sample_shard shard cs R)"
proof -
  let ?R = "min R (length cs)"
  let ?l = "sample_loop (ucast shard) ?R (shard_quotas cs ?R) 0 0"
  have l: "distinct ?l" "set ?l \<subseteq> {..<length cs}"
    using sample_loop_any[of "ucast shard" ?R "shard_quotas cs ?R" 0 0] by (auto simp: shard_quotas_length)
  have "sample_shard shard cs R = (if length ?l < ?R then fill_sample (length cs) ?R ?l else ?l)"
    using assms by (simp add: sample_shard_def Let_def)
  with l fill_sample_any[OF l, of ?R] show "distinct (sample_shard shard cs R)" "set (sample_shard shard cs R) \<subseteq> {..<length cs}"
    "min R (length cs) \<le> length (sample_shard shard cs R)" by auto
qed

lemma sample_shard_exact:
  assumes "cs \<noteq> []" "0 < R" "length cs \<le> 2 ^ 32"
  shows "sample_shard shard cs R =
    exact_sample_loop (unat shard) (min R (length cs)) (exact_shard_quotas (map unat cs) (min R (length cs))) 0 0"
    and "length (sample_shard shard cs R) = min R (length cs)"
proof -
  let ?R = "min R (length cs)"
  let ?q = "exact_shard_quotas (map unat cs) ?R"
  let ?l = "sample_loop (ucast shard) ?R (shard_quotas cs ?R) 0 0"
  have ok: "quotas_ok (map unat cs) ?R ?q" using shard_quotas_ok[of "map unat cs" ?R] assms by simp
  have R: "?R \<le> 2 ^ 32" using assms(3) by simp
  have RS: "?R * placement_shards \<le> 2 ^ 32 * 2 ^ 32" using R unfolding placement_shards_def by (intro mult_le_mono1)
  have s: "unat (ucast shard :: u64) = unat shard" "unat shard < placement_shards"
    using unat_u32_less[of shard] by (simp_all add: unsigned_ucast_eq take_bit_nat_eq_self placement_shards_def)
  have "unat (ucast shard :: u64) + ?R * placement_shards < 2 ^ 128" using RS s by (simp add: placement_shards_def)
  moreover have "?R < 2 ^ 64" by (rule order_le_less_trans[OF R]) simp
  moreover have "sum_list (map unat (shard_quotas cs ?R)) = ?R * placement_shards"
    using ok unfolding shard_quotas_unat[OF assms(3)] by (simp add: quotas_ok_def)
  then have "unat (0 :: u128) + sum_list (map unat (shard_quotas cs ?R)) < 2 ^ 128" using RS by simp
  ultimately have l: "?l = exact_sample_loop (unat shard) ?R ?q 0 0"
    using sample_loop_unat[of "ucast shard" ?R 0 "shard_quotas cs ?R" 0] s(1) shard_quotas_unat[OF assms(3)] by simp
  then have len: "length ?l = ?R" using ok s(2) by (simp add: length_sample_loop points_all quotas_ok_def)
  with assms l show "sample_shard shard cs R = exact_sample_loop (unat shard) ?R ?q 0 0" by (simp add: sample_shard_def Let_def)
  with l len show "length (sample_shard shard cs R) = ?R" by simp
qed

lemma card_words_nat: "card {w :: u32. P (unat w)} = card {s. s < placement_shards \<and> P s}"
proof -
  have "unat ` {w :: u32. P (unat w)} = {s. s < placement_shards \<and> P s}"
  proof (intro equalityI subsetI)
    fix s assume "s \<in> {s. s < placement_shards \<and> P s}"
    then show "s \<in> unat ` {w :: u32. P (unat w)}"
      by (intro image_eqI[of _ _ "of_nat s"]) (auto simp: placement_shards_def unat_of_nat take_bit_eq_mod)
  next
    fix s assume "s \<in> unat ` {w :: u32. P (unat w)}"
    then show "s \<in> {s. s < placement_shards \<and> P s}"
      using unat_u32_less by auto
  qed
  moreover have "inj_on unat {w :: u32. P (unat w)}" by (rule inj_onI) (simp add: unsigned_word_eqI)
  ultimately show ?thesis by (metis card_image)
qed

lemma sum_take_le: "i < length qs \<Longrightarrow> sum_list (take i qs) + qs ! i \<le> (sum_list qs :: nat)"
proof (induction qs arbitrary: i)
  case (Cons q qs)
  then show ?case by (cases i) auto
qed simp

section \<open>Rendezvous\<close>

lemma pick_domains_full: "length out = number \<Longrightarrow> pick_domains number domains out ns = out"
  by (cases ns) simp_all

lemma pick_rest_full: "length out = number \<Longrightarrow> pick_rest number out ns = out"
  by (cases ns) simp_all

lemma pick_domains_keeps: "set out \<subseteq> set (pick_domains number domains out ns)"
  by (induction number domains out ns rule: pick_domains.induct) auto

lemma pick_rest_keeps: "set out \<subseteq> set (pick_rest number out ns)"
  by (induction number out ns rule: pick_rest.induct) auto

lemma pick_domains_spec:
  assumes "length out \<le> number" "distinct (map rendezvous_domain out)"
    "set domains = rendezvous_domain ` set out"
    "r = pick_domains number domains out ns"
  shows "length r \<le> number \<and> distinct (map rendezvous_domain r) \<and> set r \<subseteq> set out \<union> set ns \<and>
    (length r = number \<or> rendezvous_domain ` set ns \<subseteq> rendezvous_domain ` set r)"
  using assms(1-3) unfolding assms(4)
proof (induction number domains out ns rule: pick_domains.induct)
  case (2 number domains out n ns)
  consider (full) "length out = number" | (old) "length out \<noteq> number" "rendezvous_domain n \<in> set domains"
    | (new) "length out \<noteq> number" "rendezvous_domain n \<notin> set domains" by blast
  then show ?case
  proof cases
    case old
    have "rendezvous_domain n \<in> rendezvous_domain ` set (pick_domains number domains out ns)"
      using old(2) "2.prems"(3) pick_domains_keeps by (metis image_mono subsetD)
    with old "2.IH"(1) "2.prems" show ?thesis by auto
  next
    case new
    have "n \<in> set (pick_domains number (rendezvous_domain n # domains) (out @ [n]) ns)"
      using pick_domains_keeps[of "out @ [n]"] by auto
    moreover have "length (out @ [n]) \<le> number" using new(1) "2.prems"(1) by simp
    moreover have "distinct (map rendezvous_domain (out @ [n]))" using new(2) "2.prems"(2,3) by auto
    ultimately show ?thesis using new "2.IH"(2)[OF new] "2.prems"(3) by auto
  qed (use "2.prems" in auto)
qed auto

lemma pick_rest_spec:
  assumes "length out \<le> number" "distinct (map ni_id out)" "distinct (map ni_id ns)"
  shows "distinct (map ni_id (pick_rest number out ns)) \<and>
    set (pick_rest number out ns) \<subseteq> set out \<union> set ns \<and> length (pick_rest number out ns) \<le> number \<and>
    (length (pick_rest number out ns) = number \<or> ni_id ` set ns \<subseteq> ni_id ` set (pick_rest number out ns))"
  using assms
proof (induction number out ns rule: pick_rest.induct)
  case (2 number out n ns)
  consider (full) "length out = number" | (old) "length out \<noteq> number" "ni_id n \<in> set (map ni_id out)"
    | (new) "length out \<noteq> number" "ni_id n \<notin> set (map ni_id out)" by blast
  then show ?case
  proof cases
    case old
    have "ni_id n \<in> ni_id ` set (pick_rest number out ns)"
      using old(2) pick_rest_keeps by (metis image_mono set_map subsetD)
    with old "2.IH"(1) "2.prems" show ?thesis by auto
  next
    case new
    have "n \<in> set (pick_rest number (out @ [n]) ns)" using pick_rest_keeps[of "out @ [n]"] by auto
    moreover have "length (out @ [n]) \<le> number" using new(1) "2.prems"(1) by simp
    moreover have "distinct (map ni_id (out @ [n]))" using new(2) "2.prems"(2) by auto
    ultimately show ?thesis using new "2.IH"(2)[OF new] "2.prems"(3) by auto
  qed (use "2.prems" in auto)
qed auto

lemma pick_domains_remove:
  "n \<notin> set (pick_domains number domains out ns) \<Longrightarrow>
   pick_domains number domains out (filter (\<lambda>m. m \<noteq> n) ns) = pick_domains number domains out ns"
proof (induction number domains out ns rule: pick_domains.induct)
  case (2 number domains out m ns)
  show ?case
  proof (cases "length out = number")
    case False
    with 2 show ?thesis
      using pick_domains_keeps[of "out @ [m]" number "rendezvous_domain m # domains" ns] by (auto split: if_splits)
  qed (simp add: pick_domains_full)
qed simp

lemma pick_rest_remove:
  "n \<notin> set (pick_rest number out ns) \<Longrightarrow>
   pick_rest number out (filter (\<lambda>m. m \<noteq> n) ns) = pick_rest number out ns"
proof (induction number out ns rule: pick_rest.induct)
  case (2 number out m ns)
  show ?case
  proof (cases "length out = number")
    case False
    with 2 show ?thesis
      using pick_rest_keeps[of "out @ [m]" number ns] by (auto split: if_splits)
  qed (simp add: pick_rest_full)
qed simp

lemma rendezvous_order_perm [simp]:
  "mset (rendezvous_order C key nodes) = mset nodes" "set (rendezvous_order C key nodes) = set nodes"
  "length (rendezvous_order C key nodes) = length nodes"
  by (simp_all add: rendezvous_order_def)

lemma distinct_ids_order [simp]:
  "distinct (map ni_id (rendezvous_order C key nodes)) \<longleftrightarrow> distinct (map ni_id nodes)"
  by (metis mset_eq_imp_distinct_iff mset_map rendezvous_order_perm(1))

lemma rendezvous_spec:
  assumes "distinct (map ni_id nodes)"
  shows "distinct (map ni_id (rendezvous_nodes C key nodes number))"
    and "set (rendezvous_nodes C key nodes number) \<subseteq> set nodes"
    and "length (rendezvous_nodes C key nodes number) = min number (length nodes)"
    and "card (rendezvous_domain ` set (rendezvous_nodes C key nodes number)) =
      min number (card (rendezvous_domain ` set nodes))"
proof -
  let ?s = "rendezvous_order C key nodes" and ?m = "min number (length nodes)"
  let ?d = "pick_domains ?m [] [] ?s"
  let ?r = "pick_rest ?m ?d ?s"
  have r: "rendezvous_nodes C key nodes number = ?r" by (simp add: rendezvous_nodes_def Let_def)
  have d: "length ?d \<le> ?m" "distinct (map rendezvous_domain ?d)" "set ?d \<subseteq> set nodes"
    "length ?d = ?m \<or> rendezvous_domain ` set nodes \<subseteq> rendezvous_domain ` set ?d"
    using pick_domains_spec[of "[]" ?m "[]" ?d ?s] by simp_all
  have inj: "inj_on ni_id (set nodes)" "distinct nodes" using assms by (simp_all add: distinct_map)
  have "distinct ?d" using d(2) by (simp add: distinct_map)
  then have ids: "distinct (map ni_id ?d)" using inj d(3) by (simp add: distinct_map inj_on_subset)
  from pick_rest_spec[OF d(1) this, of ?s] assms d(3)
  have p: "distinct (map ni_id ?r)" "set ?r \<subseteq> set nodes" "length ?r \<le> ?m"
    "length ?r = ?m \<or> ni_id ` set nodes \<subseteq> ni_id ` set ?r"
    by auto
  have len: "length ?r = ?m"
  proof (cases "length ?r = ?m")
    case False
    then have "card (ni_id ` set nodes) \<le> card (ni_id ` set ?r)" using p(4) by (intro card_mono) auto
    also have "\<dots> \<le> length ?r" by (metis card_length length_map set_map)
    finally have "length nodes \<le> length ?r" using inj by (simp add: card_image distinct_card)
    with p(3) show ?thesis by linarith
  qed
  from p(1,2) len show "distinct (map ni_id (rendezvous_nodes C key nodes number))"
    "set (rendezvous_nodes C key nodes number) \<subseteq> set nodes"
    "length (rendezvous_nodes C key nodes number) = ?m" by (simp_all add: r)
  have sub: "rendezvous_domain ` set ?d \<subseteq> rendezvous_domain ` set ?r" using pick_rest_keeps by blast
  have cd: "card (rendezvous_domain ` set ?d) = length ?d"
    using d(2) by (metis distinct_card length_map set_map)
  have le: "length ?d \<le> card (rendezvous_domain ` set ?r)" using card_mono[OF _ sub] cd by simp
  have "card (rendezvous_domain ` set ?r) \<le> ?m"
    using len by (metis card_length length_map set_map)
  moreover have "card (rendezvous_domain ` set ?r) \<le> card (rendezvous_domain ` set nodes)"
    using p(2) by (intro card_mono) auto
  moreover have "length ?d = ?m \<or> card (rendezvous_domain ` set nodes) \<le> length ?d"
    using d(4) cd by (metis List.finite_set card_mono finite_imageI)
  moreover have "card (rendezvous_domain ` set nodes) \<le> length nodes"
    by (metis card_length length_map set_map)
  ultimately show "card (rendezvous_domain ` set (rendezvous_nodes C key nodes number)) =
      min number (card (rendezvous_domain ` set nodes))"
    unfolding r using le by linarith
qed

lemma filter_not_in: "n \<notin> set xs \<Longrightarrow> filter (\<lambda>m. m \<noteq> n) xs = xs"
  by (rule filter_True) blast

lemma length_removeAll_distinct:
  "distinct xs \<Longrightarrow> n \<in> set xs \<Longrightarrow> length (filter (\<lambda>m. m \<noteq> n) xs) = length xs - 1"
proof (induction xs)
  case (Cons x xs)
  then show ?case by (cases "x = n") (auto simp: filter_not_in dest: length_pos_if_in_set)
qed simp

lemma card_image_length: "card (f ` set xs) \<le> length xs"
  by (metis card_length length_map set_map)

lemma rendezvous_all:
  assumes "distinct (map ni_id nodes)" "length nodes \<le> number"
  shows "set (rendezvous_nodes C key nodes number) = set nodes"
proof (rule card_subset_eq)
  let ?r = "rendezvous_nodes C key nodes number"
  have "distinct ?r" "distinct nodes" using rendezvous_spec(1)[OF assms(1)] assms(1) by (simp_all add: distinct_map)
  then show "card (set ?r) = card (set nodes)"
    using rendezvous_spec(3)[OF assms(1), of C key number] assms(2) by (simp add: distinct_card)
qed (use rendezvous_spec(2)[OF assms(1)] in simp_all)

section \<open>Failure domains\<close>

definition groups_ok :: "NodeInfo list \<Rightarrow> CapacityEntity list \<Rightarrow> bool" where
  "groups_ok nodes gs \<longleftrightarrow>
     distinct (map ce_stable_id gs) \<and> mset (concat (map ce_nodes gs)) = mset nodes \<and>
     (\<forall>g \<in> set gs. ce_nodes g \<noteq> [] \<and> (\<forall>n \<in> set (ce_nodes g). domain_key n = ce_stable_id g))"

lemma add_to_group_ids:
  "set (map ce_stable_id (add_to_group n gs)) = insert (domain_key n) (set (map ce_stable_id gs))"
  by (induction gs) auto

lemma add_to_group_ok:
  assumes "groups_ok nodes gs" shows "groups_ok (nodes @ [n]) (add_to_group n gs)"
proof -
  have 1: "distinct (map ce_stable_id gs) \<Longrightarrow> distinct (map ce_stable_id (add_to_group n gs))"
  proof (induction gs)
    case (Cons g gs)
    then show ?case using add_to_group_ids[of n gs] by (auto simp: image_iff)
  qed simp
  have 2: "mset (concat (map ce_nodes (add_to_group n gs))) = mset (concat (map ce_nodes gs)) + mset [n]"
    by (induction gs) auto
  have 3: "\<forall>g \<in> set gs. ce_nodes g \<noteq> [] \<and> (\<forall>m \<in> set (ce_nodes g). domain_key m = ce_stable_id g) \<Longrightarrow>
    \<forall>g \<in> set (add_to_group n gs). ce_nodes g \<noteq> [] \<and> (\<forall>m \<in> set (ce_nodes g). domain_key m = ce_stable_id g)"
    by (induction gs) auto
  show ?thesis
    using assms unfolding groups_ok_def mset_append 2 by (elim conjE) (intro conjI 1 3, simp_all only: simp_thms)
qed

lemma foldl_groups_ok: "groups_ok old gs \<Longrightarrow> groups_ok (old @ nodes) (foldl (\<lambda>gs n. add_to_group n gs) gs nodes)"
proof (induction nodes arbitrary: old gs)
  case (Cons n nodes)
  from Cons.IH[OF add_to_group_ok[OF Cons.prems]] show ?case by simp
qed simp

lemma mset_concat_map: "mset (concat (map f xs)) = (\<Sum>x \<in># mset xs. mset (f x))"
  by (induction xs) auto

lemma sort_key_Nil_iff: "sort_key f xs = [] \<longleftrightarrow> xs = []"
  by (metis length_0_conv length_sort)

lemma failure_domains_ok: "groups_ok nodes (failure_domains nodes)"
proof -
  let ?gs = "foldl (\<lambda>gs n. add_to_group n gs) [] nodes"
  let ?sorted = "sort_key (\<lambda>g. string_bytes (ce_stable_id g)) ?gs"
  have ok: "groups_ok nodes ?gs" using foldl_groups_ok[of "[]" "[]" nodes] by (simp add: groups_ok_def)
  have "mset (map ce_stable_id ?sorted) = mset (map ce_stable_id ?gs)" by simp
  then have "distinct (map ce_stable_id ?sorted)"
    using ok by (metis groups_ok_def mset_eq_imp_distinct_iff)
  with ok show ?thesis
    by (auto simp: groups_ok_def failure_domains_def mset_concat_map comp_def sort_key_Nil_iff)
qed

lemma groups_ok_set: "groups_ok nodes gs \<Longrightarrow> set nodes = (\<Union>g \<in> set gs. set (ce_nodes g))"
  using mset_eq_setD[of "concat (map ce_nodes gs)" nodes] by (simp add: groups_ok_def)

lemma groups_ok_nonempty: "groups_ok nodes gs \<Longrightarrow> g \<in> set gs \<Longrightarrow> ce_nodes g \<noteq> []"
  by (simp add: groups_ok_def)

lemma groups_ok_key: "groups_ok nodes gs \<Longrightarrow> g \<in> set gs \<Longrightarrow> n \<in> set (ce_nodes g) \<Longrightarrow> domain_key n = ce_stable_id g"
  by (simp add: groups_ok_def)

lemma groups_ok_domains:
  assumes "groups_ok nodes gs" shows "length gs = card (domain_key ` set nodes)"
proof -
  have "ce_stable_id ` set gs \<subseteq> domain_key ` set nodes"
  proof
    fix k assume "k \<in> ce_stable_id ` set gs"
    then obtain g where g: "g \<in> set gs" "k = ce_stable_id g" by blast
    then have n: "hd (ce_nodes g) \<in> set (ce_nodes g)" using groups_ok_nonempty[OF assms] by simp
    then have "hd (ce_nodes g) \<in> set nodes" using g(1) groups_ok_set[OF assms] by blast
    moreover have "k = domain_key (hd (ce_nodes g))" using groups_ok_key[OF assms g(1) n] g(2) by simp
    ultimately show "k \<in> domain_key ` set nodes" by blast
  qed
  moreover have "domain_key ` set nodes \<subseteq> ce_stable_id ` set gs"
    using groups_ok_set[OF assms] groups_ok_key[OF assms] by blast
  ultimately have "set (map ce_stable_id gs) = domain_key ` set nodes" by auto
  moreover have "card (set (map ce_stable_id gs)) = length gs"
    using assms distinct_card[of "map ce_stable_id gs"] by (simp only: groups_ok_def length_map)
  ultimately show ?thesis by simp
qed

lemma choose_within_group_in:
  assumes "ce_nodes g \<noteq> []" shows "choose_within_group C key g \<in> set (ce_nodes g)"
proof (cases "length (ce_nodes g) = 1")
  case False
  define p where "p = systematic_shard_sample C (sha256 C (key @ string_bytes (ce_stable_id g)))
    (map ni_capacity (ce_nodes g)) 1"
  have "set p \<subseteq> {..<length (ce_nodes g)}"
    unfolding p_def systematic_shard_sample_def
    using sample_shard_any(2)[of "map ni_capacity (ce_nodes g)" 1] assms by simp
  then have "(if p = [] then 0 else hd p) < length (ce_nodes g)"
    using assms by (cases p) auto
  moreover have "choose_within_group C key g = ce_nodes g ! (if p = [] then 0 else hd p)"
    using False by (simp only: choose_within_group_def Let_def p_def if_False)
  ultimately show ?thesis by (simp only: nth_mem)
qed (use assms in \<open>simp add: choose_within_group_def\<close>)

lemma take_new_spec:
  "distinct (map ni_id (take_new chosen ns)) \<and> set (take_new chosen ns) \<subseteq> set ns \<and>
   ni_id ` set (take_new chosen ns) \<inter> set chosen = {}"
  by (induction chosen ns rule: take_new.induct) auto

lemma take_new_all:
  "distinct (map ni_id ns) \<Longrightarrow> ni_id ` set ns \<inter> set chosen = {} \<Longrightarrow> take_new chosen ns = ns"
  by (induction chosen ns rule: take_new.induct) auto

text \<open>The node chosen in each sampled domain: one from every domain, no domain twice.\<close>

lemma preferred_nodes:
  assumes ok: "groups_ok nodes gs" and ids: "distinct (map ni_id nodes)"
    and sel: "distinct sel" "set sel \<subseteq> {..<length gs}"
    and ch_def: "ch = map (\<lambda>i. choose_within_group C key (gs ! i)) sel"
  shows "distinct (map domain_key ch)" "set ch \<subseteq> set nodes" "take_new [] ch = ch"
proof -
  have gin: "gs ! i \<in> set gs" if "i \<in> set sel" for i using that sel(2) by auto
  have cin: "choose_within_group C key (gs ! i) \<in> set (ce_nodes (gs ! i))" if "i \<in> set sel" for i
    using choose_within_group_in groups_ok_nonempty[OF ok gin[OF that]] by blast
  then have key: "domain_key (choose_within_group C key (gs ! i)) = ce_stable_id (gs ! i)" if "i \<in> set sel" for i
    using groups_ok_key[OF ok gin[OF that]] that by blast
  have "map domain_key ch = map (\<lambda>i. map ce_stable_id gs ! i) sel"
    using key sel(2) by (auto simp: ch_def)
  moreover have "distinct (map ce_stable_id gs)" using ok by (simp add: groups_ok_def)
  then have "inj_on (\<lambda>i. map ce_stable_id gs ! i) (set sel)"
    using sel(2) by (auto simp: inj_on_def nth_eq_iff_index_eq subset_iff simp del: nth_map)
  ultimately show 1: "distinct (map domain_key ch)" using sel(1) by (simp only: distinct_map)
  show 2: "set ch \<subseteq> set nodes"
    using cin gin groups_ok_set[OF ok] unfolding ch_def by auto
  have "distinct ch" using 1 by (simp add: distinct_map)
  moreover have "inj_on ni_id (set ch)" using ids 2 by (meson distinct_map inj_on_subset)
  ultimately show "take_new [] ch = ch" by (intro take_new_all) (auto simp: distinct_map)
qed

lemma preferred_rest_mset:
  assumes "distinct (map ni_id nodes)" "distinct (map ni_id ps)" "set ps \<subseteq> set nodes"
  shows "mset ps + mset (filter (\<lambda>n. ni_id n \<notin> set (map ni_id ps)) nodes) = mset nodes"
proof -
  let ?f = "filter (\<lambda>n. ni_id n \<notin> set (map ni_id ps)) nodes"
  have inj: "inj_on ni_id (set nodes)" "distinct nodes" using assms(1) by (simp_all add: distinct_map)
  have "n \<in> set ps" if "n \<in> set nodes" "ni_id n \<in> ni_id ` set ps" for n
    using that inj(1) assms(3) by (metis image_iff inj_on_eq_iff subset_iff)
  then have "set (ps @ ?f) = set nodes" using assms(3) by auto
  moreover have "distinct (ps @ ?f)" using assms(2) inj by (auto simp: distinct_map)
  ultimately have "mset (ps @ ?f) = mset nodes" using inj(2) by (metis set_eq_iff_mset_eq_distinct)
  then show ?thesis by simp
qed

text \<open>What an ordering for copies has to be: every node once, the first ones in different failure domains.\<close>

definition placement_ok :: "NodeInfo list \<Rightarrow> nat \<Rightarrow> NodeInfo list \<Rightarrow> bool" where
  "placement_ok nodes number ordered \<longleftrightarrow>
     mset ordered = mset nodes \<and>
     distinct (map domain_key (take (min number (card (domain_key ` set nodes))) ordered))"

lemma placement_okI:
  assumes "distinct (map ni_id nodes)" "distinct (map ni_id ps)" "set ps \<subseteq> set nodes"
    "mset rest = mset (filter (\<lambda>n. ni_id n \<notin> set (map ni_id ps)) nodes)" "ps = ch @ extra"
    "distinct (map domain_key ch)" "min number (card (domain_key ` set nodes)) \<le> length ch"
  shows "placement_ok nodes number (ps @ rest)"
  using preferred_rest_mset[OF assms(1-3)] assms(4-) by (simp add: placement_ok_def add.assoc distinct_take flip: take_map)

lemma sample_nodes:
  assumes "cs = map f nodes" "nodes \<noteq> []" "0 < R"
  shows "set (map (\<lambda>i. nodes ! i) (systematic_shard_sample C key cs R)) \<subseteq> set nodes"
proof -
  have "i < length nodes" if "i \<in> set (systematic_shard_sample C key cs R)" for i
    using that sample_shard_any(2)[of cs R "shard_for C key"] assms by (auto simp: systematic_shard_sample_def)
  then show ?thesis by auto
qed

lemma distinct_map_append_take_new:
  "distinct (map ni_id ch) \<Longrightarrow> distinct (map ni_id (ch @ take_new (map ni_id ch) ns))"
  using take_new_spec[of "map ni_id ch" ns] by auto

lemma capacity_placement_ok:
  fixes fallback_score :: "Bytes \<Rightarrow> NodeInfo \<Rightarrow> 'score::linorder"
  assumes ids: "distinct (map ni_id nodes)" and n: "1 < number" "number \<le> length nodes"
  shows "placement_ok nodes number (capacity_placement_nodes C fallback_score key nodes number)"
proof -
  let ?gs = "failure_domains nodes"
  define sel where "sel = systematic_shard_sample C key (capacities_of ?gs) (min number (length ?gs))"
  define ch where "ch = map (\<lambda>i. choose_within_group C key (?gs ! i)) sel"
  define remaining where "remaining = sort_key ni_id (filter (\<lambda>n. ni_id n \<notin> set (map ni_id ch)) nodes)"
  define more where "more = map (\<lambda>i. remaining ! i)
      (systematic_shard_sample C (sha256 C (key @ string_bytes ''macha/data-extra-domain/v7''))
        (map ni_capacity remaining) (number - length ch))"
  define extra where "extra = (if length ch < number then take_new (map ni_id ch) more else [])"
  have ne: "nodes \<noteq> []" using n by auto
  have gok: "groups_ok nodes ?gs" by (rule failure_domains_ok)
  have card: "length ?gs = card (domain_key ` set nodes)" by (rule groups_ok_domains[OF gok])
  then have gne: "?gs \<noteq> []" using ne by auto
  have sel: "distinct sel" "set sel \<subseteq> {..<length ?gs}" "min number (length ?gs) \<le> length sel"
    using sample_shard_any[of "capacities_of ?gs" "min number (length ?gs)" "shard_for C key"] n gne
    by (simp_all add: sel_def systematic_shard_sample_def capacities_of_def)
  note pref = preferred_nodes[OF gok ids sel(1,2) ch_def]
  have chids: "distinct (map ni_id ch)"
    using take_new_spec[of "[]" ch] pref(3) by simp
  have extra_in: "set extra \<subseteq> set nodes"
  proof (cases "length ch < number")
    case True
    have "mset ch + mset remaining = mset nodes"
      using preferred_rest_mset[OF ids chids pref(2)] by (simp add: remaining_def)
    then have "length ch + length remaining = length nodes" by (metis size_mset size_union)
    then have "remaining \<noteq> []" using True n by auto
    then have "set more \<subseteq> set remaining"
      unfolding more_def by (intro sample_nodes[OF refl]) (use True in simp_all)
    moreover have "set extra \<subseteq> set more" using True take_new_spec by (simp add: extra_def)
    moreover have "set remaining \<subseteq> set nodes" by (auto simp: remaining_def)
    ultimately show ?thesis by blast
  qed (simp add: extra_def)
  have exids: "distinct (map ni_id (ch @ extra))"
    using distinct_map_append_take_new[OF chids] chids by (simp add: extra_def)
  let ?rest = "sort_key (\<lambda>n. (fallback_score key n, ni_id n)) (filter (\<lambda>n. ni_id n \<notin> set (map ni_id (ch @ extra))) nodes)"
  have "capacity_placement_nodes C fallback_score key nodes number = (ch @ extra) @ ?rest"
    using n ne pref(3)
    by (simp add: capacity_placement_nodes_def Let_def ch_def[symmetric] sel_def[symmetric]
        extra_def more_def remaining_def image_Un)
  moreover have "min number (card (domain_key ` set nodes)) \<le> length ch" using sel(3) card by (simp add: ch_def)
  ultimately show ?thesis
    using placement_okI[OF ids exids _ _ refl pref(1)] pref(2) extra_in by simp
qed

section \<open>Properties\<close>

text \<open>
  C24: \<open>max_logical_capacity\<close> is the greatest number of bytes that can be stored as that many copies on
  distinct entities, as far as 64 bits can tell.
\<close>

theorem max_logical_capacity_greatest:
  assumes "cs \<noteq> []" "0 < R"
  shows "storable cs (min R (length cs)) (max_logical_capacity cs R) \<and>
    (\<forall>bytes < 2 ^ 64. storable cs (min R (length cs)) bytes \<longrightarrow> bytes \<le> max_logical_capacity cs R)"
proof -
  let ?R = "min R (length cs)"
  define level where "level = water_level cs R"
  have "water_level cs R = water_level cs ?R" using assms by (simp add: water_level_def min_def)
  then have ok: "level_ok cs ?R level"
    using water_level_ok[of cs ?R] assms by (simp add: level_def)
  show ?thesis
  proof (cases "wl_numerator level = 0")
    case True
    then have "max_logical_capacity cs R = 0" by (simp add: max_logical_capacity_def level_def Let_def)
    with not_storable_dry[OF ok True] show ?thesis by (auto simp: storable_def)
  next
    case False
    let ?m = "wl_numerator level div wl_denominator level"
    have max: "max_logical_capacity cs R = min ?m (2 ^ 64 - 1)"
      using False by (simp add: max_logical_capacity_def level_def Let_def)
    have den: "0 < wl_denominator level" using ok by (simp add: level_ok_def)
    have iff: "storable cs ?R b \<longleftrightarrow> b \<le> ?m" for b
      using storable_below_level[OF ok, of b] not_storable_above_level[OF ok, of b] False den
      by (cases "wl_numerator level < b * wl_denominator level") (auto simp: less_eq_div_iff_mult_less_eq)
    show ?thesis unfolding iff max by auto
  qed
qed

theorem max_logical_capacity_greatest_witness:
  "storable [3, 1, 2] 2 (max_logical_capacity [3, 1, 2] 2) \<and> 3 \<le> max_logical_capacity [3, 1, 2] 2"
proof -
  note greatest = max_logical_capacity_greatest[of "[3, 1, 2]" 2]
  have "storable [3, 1, 2] 2 3" by (simp add: storable_def)
  with greatest have "3 \<le> max_logical_capacity [3, 1, 2] 2" by (simp add: min_def)
  moreover from greatest have "storable [3, 1, 2] 2 (max_logical_capacity [3, 1, 2] 2)" by (simp add: min_def)
  ultimately show ?thesis by simp
qed

text \<open>
  C25: The shares of the shards, computed with 64 and 128-bit words, for up to \<open>2 ^ 32\<close> entities: every
  entity gets at most all of them, and together they get exactly one for each copy of each shard,
  whatever the remainders were. Where capacities count, each share is the entity's part of the water
  level rounded down, or one more.
\<close>

theorem shard_quotas_exact:
  fixes cs :: "u64 list"
  assumes "cs \<noteq> []" "0 < R" "length cs \<le> 2 ^ 32" "level = water_level (map unat cs) (min R (length cs))"
  shows "length (shard_quotas cs R) = length cs \<and> (\<forall>q \<in> set (shard_quotas cs R). unat q \<le> placement_shards) \<and>
    sum_list (map unat (shard_quotas cs R)) = min R (length cs) * placement_shards \<and>
    (\<forall>i < length cs. 0 < wl_numerator level \<longrightarrow>
      unat (shard_quotas cs R ! i) \<in> {exact_share level (unat (cs ! i)), exact_share level (unat (cs ! i)) + 1})"
proof -
  note shares = shard_quotas_shares[of "map unat cs" R level]
  have "quotas_ok (map unat cs) (min R (length cs)) (map unat (shard_quotas cs R))"
    unfolding shard_quotas_unat[OF assms(3)] using shares assms by simp
  moreover have "unat (shard_quotas cs R ! i) = exact_shard_quotas (map unat cs) R ! i" if "i < length cs" for i
    using that by (metis nth_map shard_quotas_length shard_quotas_unat[OF assms(3)])
  ultimately show ?thesis
    using shares assms(1,2,4) by (auto simp: quotas_ok_def list_all_iff)
qed

theorem shard_quotas_exact_witness:
  "sum_list (map unat (shard_quotas [7, 0, 3] 2)) = 2 * placement_shards \<and> unat (shard_quotas [7, 1, 3] 2 ! 1) \<in> {2 ^ 30, 2 ^ 30 + 1}"
proof -
  have l: "\<lparr>wl_numerator = 4, wl_denominator = 1\<rparr> = water_level (map unat [7, 1, 3 :: u64]) (min 2 (length [7, 1, 3 :: u64]))"
    by code_simp
  have "sum_list (map unat (shard_quotas [7, 0, 3] 2)) = min 2 (length [7, 0, 3 :: u64]) * placement_shards"
    using shard_quotas_exact[of "[7, 0, 3]" 2, OF _ _ _ refl] by simp
  moreover have "unat (shard_quotas [7, 1, 3] 2 ! 1) \<in> {2 ^ 30, 2 ^ 30 + 1}"
    using shard_quotas_exact[of "[7, 1, 3]" 2, OF _ _ _ l] by (auto simp: exact_share_def placement_shards_def)
  ultimately show ?thesis by simp
qed

text \<open>
  C26: With the same arithmetic, for up to \<open>2 ^ 32\<close> entities, every shard is placed on exactly the number of
  entities asked for, all different, and over all shards an entity is chosen exactly as often as its
  quota says.
\<close>

theorem sample_shard_fair:
  fixes cs :: "u64 list"
  assumes "cs \<noteq> []" "0 < R" "i < length cs" "length cs \<le> 2 ^ 32"
  shows "length (sample_shard shard cs R) = min R (length cs) \<and> distinct (sample_shard shard cs R) \<and>
    set (sample_shard shard cs R) \<subseteq> {..<length cs} \<and>
    card {shard. i \<in> set (sample_shard shard cs R)} = unat (shard_quotas cs (min R (length cs)) ! i)"
proof -
  let ?R = "min R (length cs)"
  let ?q = "exact_shard_quotas (map unat cs) ?R"
  have ok: "quotas_ok (map unat cs) ?R ?q" using shard_quotas_ok[of "map unat cs" ?R] assms by simp
  then have i: "i < length ?q" and small: "?q ! i \<le> placement_shards"
    and sum: "sum_list ?q = ?R * placement_shards"
    using assms(3) by (auto simp: quotas_ok_def list_all_length)
  let ?lo = "sum_list (take i ?q)"
  have "card {shard. i \<in> set (sample_shard shard cs R)} =
      card {shard :: u32. exact_has_point (unat shard) ?R ?lo (?lo + ?q ! i)}"
    using i by (simp add: sample_shard_exact(1)[OF assms(1,2,4)] set_sample_loop)
  also have "\<dots> = ?q ! i"
    unfolding card_words_nat[of "\<lambda>s. exact_has_point s ?R ?lo (?lo + ?q ! i)"]
    by (rule card_shards_hitting[OF small]) (use sum_take_le[OF i] sum in simp)
  also have "\<dots> = unat (shard_quotas cs ?R ! i)"
    using assms(3) by (metis nth_map shard_quotas_length shard_quotas_unat[OF assms(4)])
  finally show ?thesis
    using sample_shard_exact(2)[OF assms(1,2,4)] sample_shard_any[OF assms(1,2)] by simp
qed

theorem sample_shard_fair_witness:
  "length (sample_shard 5 [7, 0, 3] 2) = 2 \<and>
   card {shard. 2 \<in> set (sample_shard shard [7, 0, 3] 2)} = unat (shard_quotas [7, 0, 3] 2 ! 2)"
proof -
  have two: "min 2 (length [7, 0, 3 :: u64]) = 2" by simp
  have "[7, 0, 3 :: u64] \<noteq> []" "0 < (2 :: nat)" "2 < length [7, 0, 3 :: u64]" "length [7, 0, 3 :: u64] \<le> 2 ^ 32"
    by simp_all
  from sample_shard_fair[OF this, of 5, unfolded two] show ?thesis by blast
qed

text \<open>
  C27: the rendezvous choice is as many different nodes as asked for, and they are spread over as many
  failure domains as there are to have.
\<close>

theorem rendezvous_diverse:
  assumes "distinct (map ni_id nodes)"
  shows "distinct (map ni_id (rendezvous_nodes C key nodes number)) \<and>
    set (rendezvous_nodes C key nodes number) \<subseteq> set nodes \<and>
    length (rendezvous_nodes C key nodes number) = min number (length nodes) \<and>
    card (rendezvous_domain ` set (rendezvous_nodes C key nodes number)) =
      min number (card (rendezvous_domain ` set nodes))"
  using rendezvous_spec[OF assms] by simp

definition sample_node :: "u8 \<Rightarrow> string \<Rightarrow> u64 \<Rightarrow> NodeInfo" where
  "sample_node i domain capacity =
     \<lparr>ni_id = replicate 16 i, ni_host = ''host'', ni_failure_domain = domain, ni_port = 1,
      ni_capacity = capacity, ni_used = 0, ni_seen_unix_ms = 0, ni_metadata_generation = 0,
      ni_metadata_write_replicas_required = 1, ni_flags = node_flags_default\<rparr>"

theorem rendezvous_diverse_witness:
  "length (rendezvous_nodes plain_crypto [1] [sample_node 1 ''a'' 5, sample_node 2 ''a'' 5, sample_node 3 ''b'' 5] 2) = 2"
  using rendezvous_diverse[of "[sample_node 1 ''a'' 5, sample_node 2 ''a'' 5, sample_node 3 ''b'' 5]" plain_crypto "[1]" 2]
  by (simp add: sample_node_def)

text \<open>
  C28: the rendezvous choice moves as little as it can: when a node that was not chosen goes away, the choice
  is the same.
\<close>

theorem rendezvous_removal_stable:
  assumes "distinct (map ni_id nodes)" "n \<notin> set (rendezvous_nodes C key nodes number)"
  shows "rendezvous_nodes C key (filter (\<lambda>m. m \<noteq> n) nodes) number = rendezvous_nodes C key nodes number"
proof (cases "n \<in> set nodes")
  case True
  let ?s = "rendezvous_order C key nodes" and ?keep = "\<lambda>m. m \<noteq> n"
  let ?d = "pick_domains number [] [] ?s"
  have "set nodes \<noteq> set (rendezvous_nodes C key nodes number)" using True assms(2) by blast
  then have less: "number < length nodes" using rendezvous_all[OF assms(1)] by fastforce
  have "distinct nodes" using assms(1) by (simp add: distinct_map)
  then have "length (filter ?keep nodes) = length nodes - 1"
    using True by (simp add: length_removeAll_distinct)
  then have number: "min number (length (filter ?keep nodes)) = number" "min number (length nodes) = number"
    using less by simp_all
  have order: "rendezvous_order C key (filter ?keep nodes) = filter ?keep ?s"
    by (simp add: rendezvous_order_def filter_sort rev_filter[symmetric])
  have len: "min number (length (filter ?keep ?s)) = number"
    using number(1) order by (metis rendezvous_order_perm(3))
  have full: "rendezvous_nodes C key nodes number = pick_rest number ?d ?s"
    using number by (simp add: rendezvous_nodes_def Let_def)
  have "n \<notin> set ?d" using assms(2) pick_rest_keeps unfolding full by blast
  from pick_domains_remove[OF this] pick_rest_remove[of n number ?d ?s] assms(2)
  show ?thesis
    unfolding full by (simp add: rendezvous_nodes_def Let_def order len)
qed (simp add: filter_not_in)

text \<open>Two of three nodes are chosen; the third goes away.\<close>

lemma replicate_16: "replicate 16 x = x # replicate 15 x"
  using replicate_Suc[of 15 x] by simp

definition three_nodes :: "NodeInfo list" where
  "three_nodes = [sample_node 1 ''a'' 5, sample_node 2 ''b'' 5, sample_node 3 ''a'' 5]"

theorem rendezvous_removal_stable_witness:
  "rendezvous_nodes plain_crypto [1] three_nodes 2 = [sample_node 3 ''a'' 5, sample_node 2 ''b'' 5] \<and>
   rendezvous_nodes plain_crypto [1] (filter (\<lambda>m. m \<noteq> sample_node 1 ''a'' 5) three_nodes) 2 =
     [sample_node 3 ''a'' 5, sample_node 2 ''b'' 5]"
proof -
  have "sorted (map (\<lambda>n. (sha256 plain_crypto ([1] @ ni_id n), ni_id n)) three_nodes)"
    unfolding three_nodes_def sample_node_def by (simp add: plain_crypto_def less_eq_prod_def replicate_16)
  then have "rendezvous_order plain_crypto [1] three_nodes = rev three_nodes"
    by (simp add: rendezvous_order_def sort_key_id_if_sorted)
  then have c: "rendezvous_nodes plain_crypto [1] three_nodes 2 = [sample_node 3 ''a'' 5, sample_node 2 ''b'' 5]"
    by (simp add: rendezvous_nodes_def three_nodes_def sample_node_def rendezvous_domain_def)
  have "distinct (map ni_id three_nodes)" "sample_node 1 ''a'' 5 \<notin> set (rendezvous_nodes plain_crypto [1] three_nodes 2)"
    unfolding c by (simp_all add: three_nodes_def sample_node_def)
  from rendezvous_removal_stable[OF this] c show ?thesis by simp
qed

text \<open>
  C9: the order in which nodes are tried for a copy names every node exactly once, and its first nodes, as many as
  there are copies or failure domains, are all in different failure domains.
\<close>

theorem capacity_placement_diverse:
  fixes fallback_score :: "Bytes \<Rightarrow> NodeInfo \<Rightarrow> 'score::linorder"
  assumes "distinct (map ni_id nodes)" "0 < number"
  shows "mset (capacity_placement_nodes C fallback_score key nodes number) = mset nodes \<and>
    distinct (map domain_key (take (min number (card (domain_key ` set nodes)))
      (capacity_placement_nodes C fallback_score key nodes number)))"
proof (cases "1 < min number (length nodes)")
  case True
  let ?m = "min number (length nodes)"
  have not_zero: "?m \<noteq> 0" using True by linarith
  have "capacity_placement_nodes C fallback_score key nodes number =
      capacity_placement_nodes C fallback_score key nodes ?m"
    using True by (simp add: capacity_placement_nodes_def not_zero)
  moreover have "card (domain_key ` set nodes) \<le> length nodes" by (rule card_image_length)
  then have "min ?m (card (domain_key ` set nodes)) = min number (card (domain_key ` set nodes))" by simp
  ultimately show ?thesis
    using capacity_placement_ok[OF assms(1) True, of C fallback_score key] by (simp add: placement_ok_def)
next
  case False
  have one: "distinct (map domain_key (take k (xs :: NodeInfo list)))" if "k \<le> 1" for k xs
    using that by (cases xs; cases k) auto
  from False assms(2) consider "nodes = []" | "min number (length nodes) = 1"
    by (cases nodes) (auto simp: min_def split: if_splits)
  then show ?thesis
  proof cases
    case 2
    have "card (domain_key ` set nodes) \<le> length nodes" by (rule card_image_length)
    then have "min number (card (domain_key ` set nodes)) \<le> 1" using 2 by linarith
    moreover have "nodes \<noteq> []" using 2 by auto
    ultimately show ?thesis using one 2 assms(2) by (simp add: capacity_placement_nodes_def Let_def)
  qed (simp add: capacity_placement_nodes_def)
qed

theorem capacity_placement_diverse_witness:
  "mset (capacity_placement_nodes plain_crypto (\<lambda>_ _. 0 :: nat) [1] [sample_node 1 ''a'' 5, sample_node 2 ''b'' 5] 2) =
   {#sample_node 1 ''a'' 5, sample_node 2 ''b'' 5#}"
  using capacity_placement_diverse[of "[sample_node 1 ''a'' 5, sample_node 2 ''b'' 5]" 2 plain_crypto
      "\<lambda>_ _. 0 :: nat" "[1]"]
  by (simp add: sample_node_def)

end
