(* ===== verification/Node_Cache.thy ===== *)
theory Node_Cache
  imports Prelude
begin

text \<open>
  \<^verbatim>\<open>ObjectTrie::NodeCache\<close> of \<^verbatim>\<open>src/ledger/object_trie.cpp\<close>: the saved trie nodes read from disk,
  shared by a trie and its snapshots, least recently used out first. The \<^verbatim>\<open>std::map\<close> of entries is
  an association list, \<open>nc_recent\<close> the list of keys by recency that the code threads through it.
\<close>

type_synonym cache_key = "u64 \<times> u64" \<comment> \<open>generation of the node file, offset in it\<close>

record 'n Cached =
  cd_node :: 'n
  cd_bytes :: nat

record 'n NodeCache =
  nc_entries :: "(cache_key \<times> 'n Cached) list"
  nc_recent :: "cache_key list"
  nc_used :: nat
  nc_bound :: nat
  nc_loads :: nat

definition NodeCache_new :: "nat \<Rightarrow> 'n NodeCache" where
  "NodeCache_new bound =
     \<lparr>nc_entries = [], nc_recent = [], nc_used = 0, nc_bound = bound, nc_loads = 0\<rparr>"

definition cache_find :: "u64 \<Rightarrow> u64 \<Rightarrow> 'n NodeCache \<Rightarrow> 'n option \<times> 'n NodeCache" where
  "cache_find generation offset c =
     (case map_of (nc_entries c) (generation, offset) of
        None \<Rightarrow> (None, c)
      | Some cached \<Rightarrow>
          (Some (cd_node cached),
           c\<lparr>nc_recent := (generation, offset) # remove1 (generation, offset) (nc_recent c)\<rparr>))"

text \<open>The eviction loop of \<open>insert\<close>, and one turn of it.\<close>

definition cache_evict_one :: "'n NodeCache \<Rightarrow> 'n NodeCache" where
  "cache_evict_one c =
     (let victim = last (nc_recent c) in
      c\<lparr>nc_recent := butlast (nc_recent c),
        nc_used := nc_used c - (case map_of (nc_entries c) victim of
                                  None \<Rightarrow> 0 | Some v \<Rightarrow> cd_bytes v),
        nc_entries := filter (\<lambda>e. fst e \<noteq> victim) (nc_entries c)\<rparr>)"

function cache_evict :: "'n NodeCache \<Rightarrow> 'n NodeCache" where
  "cache_evict c =
     (if nc_used c > nc_bound c \<and> length (nc_recent c) > 1
      then cache_evict (cache_evict_one c) else c)"
  by auto
termination
  by (relation "measure (\<lambda>c. length (nc_recent c))") (auto simp: cache_evict_one_def Let_def)

declare cache_evict.simps [simp del]

lemma cache_evict_go:
  "nc_used c > nc_bound c \<and> length (nc_recent c) > 1 \<Longrightarrow> cache_evict c = cache_evict (cache_evict_one c)"
  by (subst cache_evict.simps) simp

lemma cache_evict_stop:
  "\<not> (nc_used c > nc_bound c \<and> length (nc_recent c) > 1) \<Longrightarrow> cache_evict c = c"
  by (subst cache_evict.simps) auto

definition cache_insert :: "u64 \<Rightarrow> u64 \<Rightarrow> 'n \<Rightarrow> nat \<Rightarrow> 'n NodeCache \<Rightarrow> 'n NodeCache" where
  "cache_insert generation offset node bytes c =
     (let c = c\<lparr>nc_loads := nc_loads c + 1\<rparr>; key = (generation, offset) in
      if map_of (nc_entries c) key \<noteq> None then c
      else cache_evict (c\<lparr>nc_recent := key # nc_recent c,
             nc_entries := (key, \<lparr>cd_node = node, cd_bytes = bytes\<rparr>) # nc_entries c,
             nc_used := nc_used c + bytes\<rparr>))"

text \<open>The loop of \<open>drop_generation\<close> over the entries.\<close>

fun drop_entries ::
    "u64 \<Rightarrow> (cache_key \<times> 'n Cached) list \<Rightarrow> nat \<Rightarrow> cache_key list \<Rightarrow>
     (cache_key \<times> 'n Cached) list \<times> nat \<times> cache_key list" where
  "drop_entries generation [] used recent = ([], used, recent)"
| "drop_entries generation ((key, cached) # es) used recent =
     (if fst key \<noteq> generation
      then (case drop_entries generation es used recent of
              (es', used', recent') \<Rightarrow> ((key, cached) # es', used', recent'))
      else drop_entries generation es (used - cd_bytes cached) (remove1 key recent))"

definition cache_drop_generation :: "u64 \<Rightarrow> 'n NodeCache \<Rightarrow> 'n NodeCache" where
  "cache_drop_generation generation c =
     (case drop_entries generation (nc_entries c) (nc_used c) (nc_recent c) of
        (es, used, recent) \<Rightarrow> c\<lparr>nc_entries := es, nc_used := used, nc_recent := recent\<rparr>)"

text \<open>\<^verbatim>\<open>NodeCache::usage\<close>: bytes, nodes, loads.\<close>

definition cache_usage :: "'n NodeCache \<Rightarrow> nat \<times> nat \<times> nat" where
  "cache_usage c = (nc_used c, length (nc_entries c), nc_loads c)"

section \<open>The invariant\<close>

definition entry_bytes :: "(cache_key \<times> 'n Cached) list \<Rightarrow> nat" where
  "entry_bytes es = sum_list (map (\<lambda>e. cd_bytes (snd e)) es)"

definition cache_wf :: "'n NodeCache \<Rightarrow> bool" where
  "cache_wf c \<longleftrightarrow>
     distinct (map fst (nc_entries c)) \<and> distinct (nc_recent c) \<and>
     set (nc_recent c) = fst ` set (nc_entries c) \<and> nc_used c = entry_bytes (nc_entries c)"

text \<open>The promise of the cache: its bytes within the bound, but for a single larger node.\<close>

definition cache_bounded :: "'n NodeCache \<Rightarrow> bool" where
  "cache_bounded c \<longleftrightarrow> nc_used c \<le> nc_bound c \<or> length (nc_entries c) \<le> 1"

definition cache_inv :: "'n NodeCache \<Rightarrow> bool" where
  "cache_inv c \<longleftrightarrow> cache_wf c \<and> cache_bounded c"

lemma cache_wf_length: "cache_wf c \<Longrightarrow> length (nc_entries c) = length (nc_recent c)"
  unfolding cache_wf_def by (metis distinct_card length_map set_map)

lemma cache_inv_new: "cache_inv (NodeCache_new b)"
  by (simp add: cache_inv_def cache_wf_def cache_bounded_def NodeCache_new_def entry_bytes_def)

lemma entry_bytes_filter:
  assumes "distinct (map fst es)" "map_of es k = Some v"
  shows "entry_bytes (filter (\<lambda>e. fst e \<noteq> k) es) + cd_bytes v = entry_bytes es"
  using assms
proof (induction es)
  case (Cons e es)
  show ?case
  proof (cases "fst e = k")
    case True
    with Cons.prems have "\<forall>x \<in> set es. fst x \<noteq> k" by (metis distinct.simps(2) image_eqI list.map(2) set_map)
    then have "filter (\<lambda>e. fst e \<noteq> k) es = es" by simp
    with True Cons.prems show ?thesis by (cases e) (auto simp: entry_bytes_def)
  next
    case False
    with Cons show ?thesis by (cases e) (auto simp: entry_bytes_def)
  qed
qed simp

lemma cache_wf_evict_one:
  assumes "cache_wf c" "nc_recent c \<noteq> []"
  shows "cache_wf (cache_evict_one c)"
proof -
  let ?k = "last (nc_recent c)"
  have d: "distinct (nc_recent c)" "distinct (map fst (nc_entries c))"
    and s: "set (nc_recent c) = fst ` set (nc_entries c)" using assms by (auto simp: cache_wf_def)
  have "?k \<in> fst ` set (nc_entries c)" using assms(2) s by (metis last_in_set)
  then obtain v where v: "map_of (nc_entries c) ?k = Some v"
    by (metis map_of_eq_None_iff not_None_eq)
  have split: "nc_recent c = butlast (nc_recent c) @ [?k]" using assms(2) by simp
  have "set (butlast (nc_recent c)) = set (nc_recent c) - {?k}"
    using d(1) by (subst (2) split, subst (asm) split) auto
  then have "set (butlast (nc_recent c)) = fst ` set (filter (\<lambda>e. fst e \<noteq> ?k) (nc_entries c))"
    using s by auto
  moreover have "nc_used c - cd_bytes v = entry_bytes (filter (\<lambda>e. fst e \<noteq> ?k) (nc_entries c))"
    using entry_bytes_filter[OF d(2) v] assms(1) by (simp add: cache_wf_def)
  ultimately show ?thesis
    using d v by (auto simp: cache_wf_def distinct_butlast distinct_map_filter
        cache_evict_one_def Let_def)
qed

lemma cache_evict_inv:
  assumes "cache_wf c"
  shows "cache_inv (cache_evict c)"
  using assms
proof (induction c rule: cache_evict.induct)
  case (1 c)
  show ?case
  proof (cases "nc_used c > nc_bound c \<and> length (nc_recent c) > 1")
    case True
    then have "nc_recent c \<noteq> []" by auto
    with 1 True cache_wf_evict_one[OF \<open>cache_wf c\<close>] show ?thesis
      by (subst cache_evict.simps) simp
  next
    case False
    with 1(2) cache_wf_length[OF 1(2)] show ?thesis
      by (subst cache_evict.simps) (auto simp: cache_inv_def cache_bounded_def)
  qed
qed

text \<open>Eviction takes the least recently used first: what stays is a leading part by recency.\<close>

lemma cache_evict_recent:
  "\<exists>k. nc_recent (cache_evict c) = take k (nc_recent c)"
proof (induction c rule: cache_evict.induct)
  case (1 c)
  show ?case
  proof (cases "nc_used c > nc_bound c \<and> length (nc_recent c) > 1")
    case True
    with 1 obtain k where "nc_recent (cache_evict (cache_evict_one c)) = take k (butlast (nc_recent c))"
      by (auto simp: cache_evict_one_def Let_def)
    then show ?thesis unfolding cache_evict_go[OF True] by (auto simp: butlast_conv_take)
  next
    case False
    show ?thesis unfolding cache_evict_stop[OF False]
      by (rule exI[of _ "length (nc_recent c)"]) simp
  qed
qed

lemma cache_evict_head:
  "nc_recent c \<noteq> [] \<Longrightarrow>
     nc_recent (cache_evict c) \<noteq> [] \<and> hd (nc_recent (cache_evict c)) = hd (nc_recent c)"
proof (induction c rule: cache_evict.induct)
  case (1 c)
  show ?case
  proof (cases "nc_used c > nc_bound c \<and> length (nc_recent c) > 1")
    case True
    then have "butlast (nc_recent c) \<noteq> []" "hd (butlast (nc_recent c)) = hd (nc_recent c)"
      by (cases "nc_recent c"; simp)+
    with 1(1)[OF True] have "nc_recent (cache_evict (cache_evict_one c)) \<noteq> [] \<and>
        hd (nc_recent (cache_evict (cache_evict_one c))) = hd (nc_recent c)"
      by (simp add: cache_evict_one_def Let_def)
    with True show ?thesis by (simp add: cache_evict_go)
  qed (simp add: 1 cache_evict_stop)
qed

text \<open>Every operation only ever drops entries, or adds the one inserted.\<close>

lemma cache_evict_entries: "set (nc_entries (cache_evict c)) \<subseteq> set (nc_entries c)"
proof (induction c rule: cache_evict.induct)
  case (1 c)
  then show ?case by (subst cache_evict.simps) (auto simp: cache_evict_one_def Let_def)
qed

lemma cache_evict_one_keeps [simp]:
  "nc_bound (cache_evict_one c) = nc_bound c" "nc_loads (cache_evict_one c) = nc_loads c"
  by (simp_all add: cache_evict_one_def Let_def)

lemma cache_evict_keeps [simp]:
  "nc_bound (cache_evict c) = nc_bound c" "nc_loads (cache_evict c) = nc_loads c"
  by (induction c rule: cache_evict.induct; subst cache_evict.simps; simp)+

lemma cache_inv_touch:
  assumes "cache_inv c" "k \<in> set (nc_recent c)"
  shows "cache_inv (c\<lparr>nc_recent := k # remove1 k (nc_recent c)\<rparr>)"
proof -
  have "distinct (nc_recent c)" using assms(1) by (simp add: cache_inv_def cache_wf_def)
  then have "set (k # remove1 k (nc_recent c)) = set (nc_recent c)" using assms(2) by auto
  with assms show ?thesis by (auto simp: cache_inv_def cache_wf_def cache_bounded_def)
qed

lemma cache_find_inv:
  assumes "cache_inv c" "cache_find g off c = (r, c')"
  shows "cache_inv c'" "nc_entries c' = nc_entries c"
    "r = map_option cd_node (map_of (nc_entries c) (g, off))"
proof -
  have "(g, off) \<in> set (nc_recent c)" if "map_of (nc_entries c) (g, off) = Some v" for v
    using that assms(1) by (metis cache_inv_def cache_wf_def fst_conv imageI map_of_SomeD)
  with assms show "cache_inv c'" "nc_entries c' = nc_entries c"
    "r = map_option cd_node (map_of (nc_entries c) (g, off))"
    by (auto simp: cache_find_def split: option.splits intro!: cache_inv_touch)
qed

lemma cache_insert_inv:
  assumes "cache_inv c"
  shows "cache_inv (cache_insert g off n b c)"
proof (cases "map_of (nc_entries c) (g, off)")
  case None
  then have "(g, off) \<notin> fst ` set (nc_entries c)" by (simp add: map_of_eq_None_iff)
  with assms None show ?thesis unfolding cache_insert_def
    by (auto simp: Let_def cache_inv_def[of c] cache_wf_def entry_bytes_def intro!: cache_evict_inv)
next
  case (Some v)
  with assms show ?thesis
    by (auto simp: cache_insert_def cache_inv_def cache_wf_def cache_bounded_def Let_def)
qed

lemma cache_insert_entries:
  "set (nc_entries (cache_insert g off n b c)) \<subseteq>
     insert ((g, off), \<lparr>cd_node = n, cd_bytes = b\<rparr>) (set (nc_entries c))"
  using cache_evict_entries[of "c\<lparr>nc_loads := nc_loads c + 1, nc_recent := (g, off) # nc_recent c,
    nc_entries := ((g, off), \<lparr>cd_node = n, cd_bytes = b\<rparr>) # nc_entries c, nc_used := nc_used c + b\<rparr>"]
  by (auto simp: cache_insert_def Let_def simp del: split_paired_All)

lemma drop_entries_eq:
  assumes "distinct (map fst es)" "used = entry_bytes es + extra" "distinct recent"
    "drop_entries g es used recent = (es', used', recent')"
  shows "es' = filter (\<lambda>e. fst (fst e) \<noteq> g) es \<and> used' = entry_bytes es' + extra \<and>
    recent' = filter (\<lambda>k. \<not> (fst k = g \<and> k \<in> fst ` set es)) recent"
  using assms
proof (induction g es used recent arbitrary: es' used' recent' extra rule: drop_entries.induct)
  case (1 g used recent)
  then show ?case by simp
next
  case (2 g key cached es used recent)
  show ?case
  proof (cases "fst key \<noteq> g")
    case True
    obtain es1 u1 r1 where d: "drop_entries g es used recent = (es1, u1, r1)" by (metis prod_cases3)
    have "used = entry_bytes es + (extra + cd_bytes cached)"
      using "2.prems"(2) by (simp add: entry_bytes_def)
    with 2(1)[OF True _ this _ d] "2.prems" True d show ?thesis
      by (auto simp: entry_bytes_def intro!: filter_cong)
  next
    case False
    have "used - cd_bytes cached = entry_bytes es + extra"
      using "2.prems"(2) by (simp add: entry_bytes_def)
    with 2(2)[of extra es' used' recent'] "2.prems" False
    have "es' = filter (\<lambda>e. fst (fst e) \<noteq> g) es \<and> used' = entry_bytes es' + extra \<and>
        recent' = filter (\<lambda>k. \<not> (fst k = g \<and> k \<in> fst ` set es)) (remove1 key recent)" by simp
    with False "2.prems"(3) show ?thesis
      by (auto simp: distinct_remove1_removeAll removeAll_filter_not_eq intro!: filter_cong)
  qed
qed

lemma cache_drop_generation_eq:
  assumes "cache_inv c"
  shows "nc_entries (cache_drop_generation g c) = filter (\<lambda>e. fst (fst e) \<noteq> g) (nc_entries c)"
    "cache_inv (cache_drop_generation g c)"
proof -
  obtain es u r where d: "drop_entries g (nc_entries c) (nc_used c) (nc_recent c) = (es, u, r)"
    by (metis prod_cases3)
  from assms have "distinct (map fst (nc_entries c))" "nc_used c = entry_bytes (nc_entries c) + 0"
    "distinct (nc_recent c)" by (auto simp: cache_inv_def cache_wf_def)
  from drop_entries_eq[OF this d] have eq: "es = filter (\<lambda>e. fst (fst e) \<noteq> g) (nc_entries c)"
    "u = entry_bytes es" "r = filter (\<lambda>k. \<not> (fst k = g \<and> k \<in> fst ` set (nc_entries c))) (nc_recent c)"
    by auto
  have "entry_bytes es \<le> entry_bytes (nc_entries c)"
    unfolding eq(1) entry_bytes_def by (rule sum_list_filter_le_nat)
  moreover have "length es \<le> length (nc_entries c)" unfolding eq(1) by (rule length_filter_le)
  moreover have "set r = fst ` set es" "distinct r" using assms eq(1,3) by (auto simp: cache_inv_def cache_wf_def)
  ultimately have "u \<le> nc_bound c \<or> length es \<le> 1"
    using assms eq(2) unfolding cache_inv_def cache_wf_def cache_bounded_def by linarith
  moreover have "distinct (map fst es)"
    using assms eq(1) by (simp add: cache_inv_def cache_wf_def distinct_map_filter)
  ultimately show "cache_inv (cache_drop_generation g c)"
    using d eq(2) \<open>set r = fst ` set es\<close> \<open>distinct r\<close>
    by (simp add: cache_drop_generation_def cache_inv_def cache_wf_def cache_bounded_def)
  show "nc_entries (cache_drop_generation g c) = filter (\<lambda>e. fst (fst e) \<noteq> g) (nc_entries c)"
    using d eq(1) by (simp add: cache_drop_generation_def)
qed

section \<open>Properties\<close>

lemma cache_insert_new:
  assumes "cache_inv c" "(g, off) \<notin> set (nc_recent c)"
  shows "(\<exists>k. nc_recent (cache_insert g off n b c) = take k ((g, off) # nc_recent c)) \<and>
    hd (nc_recent (cache_insert g off n b c)) = (g, off)"
proof -
  define c' where "c' = c\<lparr>nc_loads := nc_loads c + 1, nc_recent := (g, off) # nc_recent c,
    nc_entries := ((g, off), \<lparr>cd_node = n, cd_bytes = b\<rparr>) # nc_entries c, nc_used := nc_used c + b\<rparr>"
  have "map_of (nc_entries c) (g, off) = None"
    using assms by (simp add: cache_inv_def cache_wf_def map_of_eq_None_iff)
  then have eq: "cache_insert g off n b c = cache_evict c'" by (simp add: cache_insert_def Let_def c'_def)
  have r: "nc_recent c' = (g, off) # nc_recent c" by (simp add: c'_def)
  show ?thesis
    using cache_evict_recent[of c'] cache_evict_head[of c'] unfolding eq r by simp
qed

text \<open>
  C16: Inserting a node the cache does not have keeps the cache's invariant: its byte count is the sum
  over its entries, within the bound unless a single node is larger. It evicts in
  least-recently-used order: what stays is the new node followed by a leading part of the old
  recency list; every cached node was there before, or is the one inserted.
\<close>

theorem cache_insert_lru:
  assumes "cache_inv c" "(g, off) \<notin> set (nc_recent c)"
  shows "cache_inv (cache_insert g off n b c) \<and>
    (\<exists>k. nc_recent (cache_insert g off n b c) = take k ((g, off) # nc_recent c)) \<and>
    hd (nc_recent (cache_insert g off n b c)) = (g, off) \<and>
    set (nc_entries (cache_insert g off n b c)) \<subseteq>
      insert ((g, off), \<lparr>cd_node = n, cd_bytes = b\<rparr>) (set (nc_entries c))"
  using cache_insert_new[OF assms]
  by (intro conjI cache_insert_inv[OF assms(1)] cache_insert_entries) simp_all

theorem cache_insert_lru_witness:
  "cache_inv (cache_insert 0 1 CHR ''b'' 60 (cache_insert 0 0 CHR ''a'' 60 (NodeCache_new 100))) \<and>
   hd (nc_recent (cache_insert 0 1 CHR ''b'' 60 (cache_insert 0 0 CHR ''a'' 60 (NodeCache_new 100)))) = (0, 1)"
proof -
  have "(0, 1) \<notin> set (nc_recent (cache_insert 0 0 CHR ''a'' 60 (NodeCache_new 100)))"
    by (simp add: cache_insert_def NodeCache_new_def Let_def cache_evict_stop)
  from cache_insert_lru[OF cache_insert_inv[OF cache_inv_new] this, where n = "CHR ''b''" and b = 60]
  show ?thesis by simp
qed

end
