(* ===== verification/Trie_Node.thy ===== *)
theory Trie_Node
  imports Sealed_Journal Node_Cache
begin

text \<open>
  The nodes of the object ledger's trie (\<^verbatim>\<open>src/ledger/object_trie.{hpp,cpp}\<close>): the data types, the
  hash of a leaf and of an interior node, and the encoding of a node in the node file, with the
  format 1 leaves that an upgrade reads. The theorems are the round trip of the encoding and
  that a node's hash determines what it was computed from.
\<close>

section \<open>Data\<close>

type_synonym Record = "ObjectId \<times> Bytes"

record Change =
  cg_id :: ObjectId
  cg_value :: "Bytes option"

text \<open>
  \<^verbatim>\<open>ObjectTrie::Node\<close> and \<^verbatim>\<open>ObjectTrie::Child\<close>. A shared pointer to a node that is never changed is
  the node; a depth is at most 32.
\<close>

datatype Node =
    Node (nd_depth: nat) (nd_leaf: bool) (nd_records: "Record list") (nd_children: "Child list")
      (nd_count: u64) (nd_hash: Hash256)
and Child =
    Child (ch_offset: u64) (ch_size: u32) (ch_count: u64) (ch_hash: Hash256) (ch_node: "Node option")

definition unsaved :: u64 where
  "unsaved = not 0"

definition leaf_max :: nat where
  "leaf_max = 128"

definition value_max :: nat where
  "value_max = 16 * 1024"

definition fanout :: nat where
  "fanout = 256"

definition empty_child :: Child where
  "empty_child = Child unsaved 0 0 Hash256_0 None"

definition child_empty :: "Child \<Rightarrow> bool" where
  "child_empty c \<longleftrightarrow> ch_count c = 0"

definition max_frame :: nat where
  "max_frame = 4 * 1024 * 1024"

definition kind_leaf :: u8 where "kind_leaf = 1"
definition kind_interior :: u8 where "kind_interior = 2"

text \<open>\<^verbatim>\<open>ObjectTrie::Summary\<close>: a record count and a hash.\<close>

record Summary =
  sm_count :: u64
  sm_hash :: Hash256

definition Summary_0 :: Summary where
  "Summary_0 = \<lparr>sm_count = 0, sm_hash = Hash256_0\<rparr>"

section \<open>Hashes\<close>

definition write_record :: "Writer \<Rightarrow> Record \<Rightarrow> Writer result" where
  "write_record w r = writer_bytes (writer_fixed w (fst r)) (snd r)"

definition leaf_hash :: "crypto \<Rightarrow> Record list \<Rightarrow> Hash256 result" where
  "leaf_hash C records =
     (if records = [] then Inr Hash256_0
      else bindR (foldR write_record (writer_u8 [] 0x4C) records) (\<lambda>w. Inr (sha256 C w)))"

definition write_slot :: "Writer \<Rightarrow> nat \<times> Summary \<Rightarrow> Writer" where
  "write_slot w slot =
     (case slot of (i, s) \<Rightarrow>
        if sm_count s = 0 then w
        else writer_u64 (writer_fixed (writer_u8 w (of_nat i)) (sm_hash s)) (sm_count s))"

definition interior_hash :: "crypto \<Rightarrow> Summary list \<Rightarrow> Hash256" where
  "interior_hash C slots = sha256 C (foldl write_slot (writer_u8 [] 0x49) (enumerate 0 slots))"

definition leaf_summary :: "crypto \<Rightarrow> Record list \<Rightarrow> Summary result" where
  "leaf_summary C records =
     bindR (leaf_hash C records) (\<lambda>h. Inr \<lparr>sm_count = of_nat (length records), sm_hash = h\<rparr>)"

definition interior_summary :: "crypto \<Rightarrow> Summary list \<Rightarrow> Summary" where
  "interior_summary C children =
     foldl (\<lambda>out child. out\<lparr>sm_count := sm_count out + sm_count child\<rparr>)
       \<lparr>sm_count = 0, sm_hash = interior_hash C children\<rparr> children"

definition child_summary :: "Child \<Rightarrow> Summary" where
  "child_summary c = \<lparr>sm_count = ch_count c, sm_hash = ch_hash c\<rparr>"

definition make_leaf :: "crypto \<Rightarrow> nat \<Rightarrow> Record list \<Rightarrow> Node result" where
  "make_leaf C depth records =
     bindR (leaf_hash C records) (\<lambda>h.
       Inr (Node depth True records [] (of_nat (length records)) h))"

definition make_interior :: "crypto \<Rightarrow> nat \<Rightarrow> Child list \<Rightarrow> Node" where
  "make_interior C depth children =
     Node depth False [] children (foldl (\<lambda>n child. n + ch_count child) 0 children)
       (interior_hash C (map child_summary children))"

definition child_of :: "Node \<Rightarrow> Child" where
  "child_of node = Child unsaved 0 (nd_count node) (nd_hash node) (Some node)"

section \<open>Encoding\<close>

text \<open>The bit of slot \<open>i\<close> in the 32 bytes that say which slots follow.\<close>

definition present_bytes :: "bool list \<Rightarrow> Bytes" where
  "present_bytes slots =
     foldl (\<lambda>present i. if slots ! i
              then present[i div 8 := or (present ! (i div 8)) (push_bit (i mod 8) 1)] else present)
       (replicate 32 0) [0..<fanout]"

definition present_bit :: "Bytes \<Rightarrow> nat \<Rightarrow> bool" where
  "present_bit present i \<longleftrightarrow> and (present ! (i div 8)) (push_bit (i mod 8) 1) \<noteq> 0"

definition write_child :: "Writer \<Rightarrow> Child \<Rightarrow> Writer result" where
  "write_child w child =
     (if child_empty child then Inr w
      else if ch_offset child = unsaved
      then Inl (LogicError ''object trie: encoding a node with an unsaved child'')
      else Inr (writer_fixed (writer_u64 (writer_u32 (writer_u64 w (ch_offset child))
             (ch_size child)) (ch_count child)) (ch_hash child)))"

definition encode :: "Node \<Rightarrow> Bytes result" where
  "encode node =
     (if nd_leaf node
      then foldR write_record
             (writer_u32 (writer_u8 (writer_u8 [] kind_leaf) (of_nat (nd_depth node)))
               (of_nat (length (nd_records node))))
             (nd_records node)
      else foldR write_child
             (writer_fixed (writer_u8 (writer_u8 [] kind_interior) (of_nat (nd_depth node)))
               (present_bytes (map (\<lambda>c. \<not> child_empty c) (nd_children node))))
             (nd_children node))"

definition format1_value :: "u64 \<Rightarrow> Bytes" where
  "format1_value v = writer_u64 [] v"

definition format1_record :: "Record list \<times> Writer \<Rightarrow> (Reader, Record list \<times> Writer) prog" where
  "format1_record acc =
     bindM (reader_fixed 32) (\<lambda>i. bindM reader_u64 (\<lambda>v.
       retM (fst acc @ [(i, format1_value v)], writer_u64 (writer_fixed (snd acc) i) v)))"

definition format1_leaf_hash :: "crypto \<Rightarrow> nat \<Rightarrow> (Reader, Record list \<times> Hash256) prog" where
  "format1_leaf_hash C count =
     bindM (foldM (\<lambda>acc _. format1_record acc) ([], writer_u8 [] 0x4C) [0..<count])
       (\<lambda>acc. retM (fst acc, sha256 C (snd acc)))"

definition in_order :: "Record list \<Rightarrow> bool" where
  "in_order records \<longleftrightarrow> list_all (\<lambda>i. fst (records ! (i - 1)) < fst (records ! i)) [1..<length records]"

definition read_record :: "Record list \<Rightarrow> (Reader, Record list) prog" where
  "read_record records =
     bindM (reader_fixed 32) (\<lambda>i. bindM (reader_bytes value_max) (\<lambda>v.
       if records \<noteq> [] \<and> \<not> fst (last records) < i
       then raiseM (DecodeError ''object trie leaf out of order'')
       else retM (records @ [(i, v)])))"

definition decode_leaf :: "crypto \<Rightarrow> nat \<Rightarrow> bool \<Rightarrow> (Reader, Node) prog" where
  "decode_leaf C depth format1 =
     bindM reader_u32 (\<lambda>count.
     if count = 0 \<or> unat count > leaf_max
     then raiseM (DecodeError ''object trie leaf of the wrong size'')
     else if format1 then
       bindM (format1_leaf_hash C (unat count)) (\<lambda>rh.
       bindM reader_finish (\<lambda>_.
       if \<not> in_order (fst rh) then raiseM (DecodeError ''object trie leaf out of order'')
       else retM (Node depth True (fst rh) [] (of_nat (length (fst rh))) (snd rh))))
     else
       bindM (foldM (\<lambda>records _. read_record records) [] [0..<unat count]) (\<lambda>records.
       bindM reader_finish (\<lambda>_. liftM (make_leaf C depth records))))"

definition read_child :: "Bytes \<Rightarrow> nat \<Rightarrow> (Reader, Child) prog" where
  "read_child present i =
     (if \<not> present_bit present i then retM empty_child
      else bindM reader_u64 (\<lambda>offset. bindM reader_u32 (\<lambda>size. bindM reader_u64 (\<lambda>count.
           bindM (reader_fixed 32) (\<lambda>hash.
             if offset = unsaved \<or> count = 0
             then raiseM (DecodeError ''object trie child not saved'')
             else retM (Child offset size count hash None))))))"

definition decode_interior :: "crypto \<Rightarrow> nat \<Rightarrow> (Reader, Node) prog" where
  "decode_interior C depth =
     bindM (reader_fixed 32) (\<lambda>present.
     bindM (mapM (read_child present) [0..<fanout]) (\<lambda>children.
     bindM reader_finish (\<lambda>_.
       let node = make_interior C depth children in
       if unat (nd_count node) \<le> leaf_max
       then raiseM (DecodeError ''object trie interior node too small'')
       else retM node)))"

definition decode :: "crypto \<Rightarrow> Bytes \<Rightarrow> bool \<Rightarrow> Node result" where
  "decode C bytes format1 =
     fst (bindM reader_u8 (\<lambda>kind. bindM reader_u8 (\<lambda>depth.
       if unat depth \<ge> 32 then raiseM (DecodeError ''object trie node too deep'')
       else if kind = kind_leaf then decode_leaf C (unat depth) format1
       else if kind \<noteq> kind_interior then raiseM (DecodeError ''unknown object trie node'')
       else decode_interior C (unat depth))) (reader bytes))"

section \<open>Records\<close>

definition id_ok :: "ObjectId \<Rightarrow> bool" where
  "id_ok i \<longleftrightarrow> length i = 32"

definition record_ok :: "Record \<Rightarrow> bool" where
  "record_ok r \<longleftrightarrow> id_ok (fst r) \<and> length (snd r) \<le> value_max"

text \<open>Records as a trie holds them: sorted by id, unique, of the right sizes.\<close>

definition records_ok :: "Record list \<Rightarrow> bool" where
  "records_ok rs \<longleftrightarrow> sorted_wrt (<) (map fst rs) \<and> list_all record_ok rs"

definition enc_record :: "Record \<Rightarrow> Bytes" where
  "enc_record r = fst r @ enc_bytes (snd r)"

lemma write_record_ok: "record_ok r \<Longrightarrow> write_record w r = Inr (w @ enc_record r)"
  by (simp add: write_record_def record_ok_def value_max_def writer_simps writer_bytes_append
      enc_record_def)

lemma write_records_ok:
  "list_all record_ok rs \<Longrightarrow> foldR write_record w rs = Inr (w @ concat (map enc_record rs))"
  by (induction rs arbitrary: w) (auto simp: write_record_ok)

interpretation recordc: codec enc_record
  "bindM (reader_fixed 32) (\<lambda>i. bindM (reader_bytes value_max) (\<lambda>v. retM (i, v)))" record_ok
proof unfold_locales
  fix r assume r: "record_ok r"
  have v: "length (snd r) \<le> 4294967295" "length (snd r) \<le> value_max" "length (fst r) = 32"
    using r by (auto simp: record_ok_def value_max_def id_ok_def)
  have "reads (bindM (reader_fixed 32) (\<lambda>i. bindM (reader_bytes value_max) (\<lambda>v. retM (i, v))))
      (fst r @ enc_bytes (snd r) @ []) (fst r, snd r)"
    by (rule reads_bind[OF reads_fixed[OF v(3)]], rule reads_bind[OF reads_bytes[OF v(2,1)]]) auto
  then show "reads (bindM (reader_fixed 32) (\<lambda>i. bindM (reader_bytes value_max) (\<lambda>v. retM (i, v))))
      (enc_record r) r" by (simp add: enc_record_def)
  have "cuts (bindM (reader_fixed 32) (\<lambda>i. bindM (reader_bytes value_max) (\<lambda>v. retM (i, v))))
      (fst r @ enc_bytes (snd r) @ [])"
    by (rule cuts_bind[OF reads_fixed[OF v(3)] cuts_raw(1)[OF v(3)]],
        rule cuts_bind[OF reads_bytes[OF v(2,1)] cuts_bytes[OF v(2,1)]], rule cuts_ret)
  then show "cuts (bindM (reader_fixed 32) (\<lambda>i. bindM (reader_bytes value_max) (\<lambda>v. retM (i, v))))
      (enc_record r)" by (simp add: enc_record_def)
qed

lemma reads_read_record:
  assumes "record_ok r" "acc = [] \<or> fst (last acc) < fst r"
  shows "reads (read_record acc) (enc_record r) (acc @ [r])"
proof -
  have v: "length (snd r) \<le> 4294967295" "length (snd r) \<le> value_max" "length (fst r) = 32"
    using assms by (auto simp: record_ok_def value_max_def id_ok_def)
  have "reads (read_record acc) (fst r @ enc_bytes (snd r) @ []) (acc @ [(fst r, snd r)])"
    unfolding read_record_def using assms(2)
    by (intro reads_bind[OF reads_fixed[OF v(3)]] reads_bind[OF reads_bytes[OF v(2,1)]] reads_if
        reads_ret) auto
  then show ?thesis by (simp add: enc_record_def)
qed

lemma reads_records:
  assumes "list_all record_ok rs" "sorted_wrt (<) (map fst (acc @ rs))" "length xs = length rs"
  shows "reads (foldM (\<lambda>records _. read_record records) acc xs) (concat (map enc_record rs)) (acc @ rs)"
  using assms
proof (induction rs arbitrary: acc xs)
  case (Cons r rs)
  obtain x ys where xs: "xs = x # ys" "length ys = length rs" using Cons.prems by (cases xs) auto
  have "reads (read_record acc) (enc_record r) (acc @ [r])"
    using Cons.prems by (intro reads_read_record) (auto simp: sorted_wrt_append dest: last_in_set)
  moreover have "reads (foldM (\<lambda>records _. read_record records) (acc @ [r]) ys)
      (concat (map enc_record rs)) ((acc @ [r]) @ rs)"
    using Cons.prems xs by (intro Cons.IH) auto
  ultimately show ?case using xs by (auto intro!: reads_bind)
qed auto

definition leaf_bytes :: "Record list \<Rightarrow> Bytes" where
  "leaf_bytes rs = enc_u8 0x4C @ concat (map enc_record rs)"

definition leaf_digest :: "crypto \<Rightarrow> Record list \<Rightarrow> Hash256" where
  "leaf_digest C rs = (if rs = [] then Hash256_0 else sha256 C (leaf_bytes rs))"

lemma leaf_hash_ok: "list_all record_ok rs \<Longrightarrow> leaf_hash C rs = Inr (leaf_digest C rs)"
  by (simp add: leaf_hash_def leaf_digest_def leaf_bytes_def write_records_ok writer_simps)

lemma make_leaf_ok: "list_all record_ok rs \<Longrightarrow>
    make_leaf C d rs = Inr (Node d True rs [] (of_nat (length rs)) (leaf_digest C rs))"
  by (simp add: make_leaf_def leaf_hash_ok)

section \<open>The round trip of a leaf\<close>

definition enc_leaf :: "nat \<Rightarrow> Record list \<Rightarrow> Bytes" where
  "enc_leaf d rs = enc_u8 kind_leaf @ enc_u8 (of_nat d) @ enc_u32 (of_nat (length rs)) @
     concat (map enc_record rs)"

lemma unat_depth: "d < 32 \<Longrightarrow> unat (of_nat d :: u8) = d"
  by (simp add: unat_of_nat take_bit_nat_eq_self)

lemma encode_leaf:
  "list_all record_ok rs \<Longrightarrow> encode (Node d True rs cs n h) = Inr (enc_leaf d rs)"
  by (simp add: encode_def enc_leaf_def write_records_ok writer_simps)

text \<open>A decoder run to the end of its input.\<close>

lemma reads_finish:
  assumes "reads m bs x"
  shows "fst (bindM m (\<lambda>x. bindM reader_finish (\<lambda>_. f x)) (reader bs)) = fst (f x (advanced (length bs) (reader bs)))"
proof -
  have at: "reader_at (reader bs) (bs @ [])" by (simp add: reader_at_reader)
  show ?thesis
    using readsD[OF assms at] finish_at[OF reader_at_advanced[OF at]] by (simp add: bindM_def)
qed

lemma decode_header:
  assumes "d < 32" "bs = enc_u8 kind @ enc_u8 (of_nat d) @ body"
    "kind = kind_leaf \<or> kind = kind_interior"
    "reader_at (advanced 2 (reader bs)) body \<Longrightarrow>
      fst ((if kind = kind_leaf then decode_leaf C d fmt else decode_interior C d)
        (advanced 2 (reader bs))) = r"
  shows "decode C bs fmt = r"
proof -
  have at: "reader_at (reader bs) (enc_u8 kind @ enc_u8 (of_nat d) @ body)"
    using assms(2) by (simp add: reader_at_reader)
  from readsD[OF reads_u8 at] have 1: "reader_u8 (reader bs) = (Inr kind, advanced 1 (reader bs))"
    by simp
  have at2: "reader_at (advanced 1 (reader bs)) (enc_u8 (of_nat d) @ body)"
    using reader_at_advanced[OF at] by simp
  from readsD[OF reads_u8 at2]
  have 2: "reader_u8 (advanced 1 (reader bs)) = (Inr (of_nat d), advanced 2 (reader bs))"
    by (simp add: numeral_2_eq_2)
  have "reader_at (advanced 2 (reader bs)) body"
    using reader_at_advanced[OF at2] by (simp add: numeral_2_eq_2)
  with 1 2 assms(1,3,4) show ?thesis
    by (auto simp: decode_def bindM_def unat_depth kind_leaf_def kind_interior_def)
qed

lemma reads_then_finish:
  assumes "reads m bs x" "reader_at r bs"
  shows "fst (bindM m (\<lambda>x. bindM reader_finish (\<lambda>_. f x)) r) = fst (f x (advanced (length bs) r))"
proof -
  have at: "reader_at r (bs @ [])" using assms(2) by simp
  show ?thesis
    using readsD[OF assms(1) at] finish_at[OF reader_at_advanced[OF at]] by (simp add: bindM_def)
qed

theorem decode_encode_leaf:
  assumes "d < 32" "records_ok rs" "rs \<noteq> []" "length rs \<le> leaf_max"
  shows "decode C (enc_leaf d rs) False = make_leaf C d rs"
proof (rule decode_header[OF assms(1), where kind = kind_leaf])
  let ?r = "advanced 2 (reader (enc_leaf d rs))"
  assume at: "reader_at ?r (enc_u32 (of_nat (length rs)) @ concat (map enc_record rs))"
  have n: "unat (of_nat (length rs) :: u32) = length rs"
    using assms(4) by (simp add: unat_of_nat leaf_max_def take_bit_nat_eq_self)
  then have nz: "(of_nat (length rs) :: u32) \<noteq> 0" using assms(3) by (metis length_0_conv unat_0)
  have rd: "reads (foldM (\<lambda>records _. read_record records) [] [0..<length rs])
      (concat (map enc_record rs)) ([] @ rs)"
    using assms(2) by (intro reads_records) (auto simp: records_ok_def)
  have "fst (decode_leaf C d False ?r) = make_leaf C d rs"
    using readsD[OF reads_u32 at] reads_then_finish[OF rd reader_at_advanced[OF at], where f = "\<lambda>rs. liftM (make_leaf C d rs)"] n nz assms(4)
    by (simp add: decode_leaf_def bindM_Inr)
  then show "fst ((if kind_leaf = kind_leaf then decode_leaf C d False else decode_interior C d) ?r) =
      make_leaf C d rs" by simp
qed (simp_all add: enc_leaf_def)

section \<open>The round trip of an interior node\<close>

lemma present_bit_bit: "present_bit p i \<longleftrightarrow> bit (p ! (i div 8)) (i mod 8)"
  by (simp add: present_bit_def push_bit_of_1 and_exp_eq_0_iff_not_bit)

lemma present_bit_update:
  assumes "length p = 32" "n < 256"
  shows "present_bit (p[n div 8 := or (p ! (n div 8)) (push_bit (n mod 8) 1)]) i \<longleftrightarrow>
    i = n \<or> present_bit p i"
proof -
  have n: "n div 8 < 32" using assms(2) by simp
  show ?thesis
  proof (cases "i div 8 = n div 8")
    case True
    then have "i mod 8 = n mod 8 \<longleftrightarrow> i = n" by (metis div_mult_mod_eq)
    moreover have "present_bit (p[n div 8 := or (p ! (n div 8)) (push_bit (n mod 8) 1)]) i \<longleftrightarrow>
        bit (p ! (i div 8)) (i mod 8) \<or> i mod 8 = n mod 8"
      using True assms(1) n by (auto simp: present_bit_bit bit_or_iff bit_exp_iff)
    ultimately show ?thesis by (auto simp: present_bit_bit)
  next
    case False
    then show ?thesis by (auto simp: present_bit_bit)
  qed
qed

lemma present_bytes_upto:
  assumes "n \<le> 256"
  shows "length (foldl (\<lambda>present i. if slots ! i
            then present[i div 8 := or (present ! (i div 8)) (push_bit (i mod 8) 1)] else present)
          (replicate 32 (0 :: u8)) [0..<n]) = 32 \<and>
    (\<forall>i < 256. present_bit (foldl (\<lambda>present i. if slots ! i
            then present[i div 8 := or (present ! (i div 8)) (push_bit (i mod 8) 1)] else present)
          (replicate 32 0) [0..<n]) i \<longleftrightarrow> i < n \<and> slots ! i)"
  using assms
proof (induction n)
  case 0
  then show ?case by (auto simp: present_bit_bit)
next
  case (Suc n)
  let ?f = "\<lambda>present i. if slots ! i
      then present[i div 8 := or (present ! (i div 8)) (push_bit (i mod 8) (1 :: u8))] else present"
  define p where "p = foldl ?f (replicate 32 0) [0..<n]"
  from Suc have IH: "length p = 32" "\<And>i. i < 256 \<Longrightarrow> present_bit p i \<longleftrightarrow> i < n \<and> slots ! i"
    unfolding p_def by auto
  have eq: "foldl ?f (replicate 32 0) [0..<Suc n] = ?f p n" by (simp add: p_def)
  have "present_bit (?f p n) i \<longleftrightarrow> i < Suc n \<and> slots ! i" if "i < 256" for i
  proof (cases "slots ! n")
    case True
    then show ?thesis
      using present_bit_update[OF IH(1), of n i] IH(2)[OF that] Suc.prems by (auto simp: less_Suc_eq)
  next
    case False
    with IH(2)[OF that] show ?thesis by (auto simp: less_Suc_eq)
  qed
  with IH(1) show ?case unfolding eq by simp
qed

lemma present_bytes_bit:
  "i < fanout \<Longrightarrow> present_bit (present_bytes slots) i \<longleftrightarrow> slots ! i"
  "length (present_bytes slots) = 32"
  using present_bytes_upto[of 256 slots] by (auto simp: present_bytes_def fanout_def)

text \<open>A child as an interior node on disk has it: absent, or saved and not in memory.\<close>

definition child_on_disk :: "Child \<Rightarrow> bool" where
  "child_on_disk c \<longleftrightarrow> c = empty_child \<or>
     ch_count c \<noteq> 0 \<and> ch_offset c \<noteq> unsaved \<and> length (ch_hash c) = 32 \<and> ch_node c = None"

definition enc_child :: "Child \<Rightarrow> Bytes" where
  "enc_child c = (if child_empty c then []
     else enc_u64 (ch_offset c) @ enc_u32 (ch_size c) @ enc_u64 (ch_count c) @ ch_hash c)"

definition enc_interior :: "nat \<Rightarrow> Child list \<Rightarrow> Bytes" where
  "enc_interior d cs = enc_u8 kind_interior @ enc_u8 (of_nat d) @
     present_bytes (map (\<lambda>c. \<not> child_empty c) cs) @ concat (map enc_child cs)"

lemma child_empty_empty [simp]: "child_empty empty_child"
  by (simp add: child_empty_def empty_child_def)

lemma write_children_ok:
  "list_all child_on_disk cs \<Longrightarrow> foldR write_child w cs = Inr (w @ concat (map enc_child cs))"
  by (induction cs arbitrary: w)
     (auto simp: write_child_def child_on_disk_def child_empty_def enc_child_def writer_simps
       empty_child_def)

lemma encode_interior:
  "list_all child_on_disk cs \<Longrightarrow> encode (Node d False rs cs n h) = Inr (enc_interior d cs)"
  by (simp add: encode_def enc_interior_def write_children_ok writer_simps)

lemma reads_mapM:
  "(\<And>x. x \<in> set xs \<Longrightarrow> reads (f x) (e x) (g x)) \<Longrightarrow> reads (mapM f xs) (concat (map e xs)) (map g xs)"
proof (induction xs)
  case (Cons x xs)
  have "reads (bindM (mapM f xs) (\<lambda>ys. retM (g x # ys))) (concat (map e xs) @ []) (g x # map g xs)"
    by (rule reads_bind[OF Cons.IH]) (auto intro: Cons.prems)
  with Cons.prems[of x] show ?case by (auto intro: reads_bind)
qed auto

lemma reads_child:
  assumes "child_on_disk c" "present_bit p i \<longleftrightarrow> \<not> child_empty c"
  shows "reads (read_child p i) (enc_child c) c"
proof (cases "c = empty_child")
  case True
  with assms show ?thesis by (auto simp: read_child_def enc_child_def)
next
  case False
  with assms have c: "ch_count c \<noteq> 0" "ch_offset c \<noteq> unsaved" "length (ch_hash c) = 32"
    "ch_node c = None" by (auto simp: child_on_disk_def)
  have "reads (read_child p i)
      (enc_u64 (ch_offset c) @ enc_u32 (ch_size c) @ enc_u64 (ch_count c) @ ch_hash c @ [])
      (Child (ch_offset c) (ch_size c) (ch_count c) (ch_hash c) None)"
    using c(1,2) assms(2) unfolding read_child_def
    by (simp only: child_empty_def not_False_eq_True simp_thms if_False)
       (intro reads_bind[OF reads_u64] reads_bind[OF reads_u32] reads_bind[OF reads_fixed[OF c(3)]]
         reads_if reads_ret, auto)
  with c show ?thesis by (cases c) (auto simp: enc_child_def child_empty_def)
qed

theorem decode_encode_interior:
  assumes "d < 32" "list_all child_on_disk cs" "length cs = fanout"
    "unat (nd_count (make_interior C d cs)) > leaf_max"
  shows "decode C (enc_interior d cs) fmt = Inr (make_interior C d cs)"
proof (rule decode_header[OF assms(1), where kind = kind_interior])
  let ?r = "advanced 2 (reader (enc_interior d cs))"
  let ?p = "present_bytes (map (\<lambda>c. \<not> child_empty c) cs)"
  assume at: "reader_at ?r (?p @ concat (map enc_child cs))"
  have "reads (mapM (read_child ?p) [0..<fanout]) (concat (map (\<lambda>i. enc_child (cs ! i)) [0..<fanout]))
      (map ((!) cs) [0..<fanout])"
    using assms(2,3)
    by (intro reads_mapM reads_child) (auto simp: list_all_length present_bytes_bit)
  moreover have "map ((!) cs) [0..<fanout] = cs" using assms(3) by (metis map_nth)
  then have "map (\<lambda>i. enc_child (cs ! i)) [0..<fanout] = map enc_child cs"
    by (metis (no_types, lifting) map_eq_conv map_map comp_apply)
  ultimately have rd: "reads (mapM (read_child ?p) [0..<fanout]) (concat (map enc_child cs)) cs"
    using \<open>map ((!) cs) [0..<fanout] = cs\<close> by simp
  have pl: "length ?p = 32" by (rule present_bytes_bit)
  define k :: "Child list \<Rightarrow> (Reader, Node) prog" where "k children = (let node = make_interior C d children in
      if unat (nd_count node) \<le> leaf_max
      then raiseM (DecodeError ''object trie interior node too small'') else retM node)"
    for children :: "Child list"
  have "fst (k cs (advanced (length (concat (map enc_child cs))) (advanced (length ?p) ?r)))
      = Inr (make_interior C d cs)" using assms(4) by (simp add: k_def Let_def)
  then have "fst (decode_interior C d ?r) = Inr (make_interior C d cs)"
    using readsD[OF reads_fixed[OF pl] at] reads_then_finish[OF rd reader_at_advanced[OF at], where f = k]
    unfolding decode_interior_def k_def[symmetric] by (simp add: bindM_Inr)
  then show "fst ((if kind_interior = kind_leaf then decode_leaf C d fmt else decode_interior C d) ?r) =
      Inr (make_interior C d cs)" by (simp add: kind_leaf_def kind_interior_def)
qed (simp_all add: enc_interior_def)

section \<open>What a hash covers\<close>

lemma leaf_bytes_inj:
  assumes "list_all record_ok rs" "list_all record_ok rs'" "leaf_bytes rs = leaf_bytes rs'"
  shows "rs = rs'"
proof (rule recordc.concat_enc_inj_nonempty[OF assms(1,2)])
  show "enc_record r \<noteq> []" if "record_ok r" for r
    using that by (auto simp: enc_record_def record_ok_def id_ok_def)
  show "concat (map enc_record rs) = concat (map enc_record rs')"
    using assms(3) by (simp add: leaf_bytes_def)
qed

definition slot_ok :: "nat \<times> Summary \<Rightarrow> bool" where
  "slot_ok s \<longleftrightarrow> fst s < fanout \<and> length (sm_hash (snd s)) = 32"

definition enc_slot :: "nat \<times> Summary \<Rightarrow> Bytes" where
  "enc_slot s = enc_u8 (of_nat (fst s)) @ sm_hash (snd s) @ enc_u64 (sm_count (snd s))"

definition used_slots :: "Summary list \<Rightarrow> (nat \<times> Summary) list" where
  "used_slots slots = filter (\<lambda>s. sm_count (snd s) \<noteq> 0) (enumerate 0 slots)"

definition interior_bytes :: "Summary list \<Rightarrow> Bytes" where
  "interior_bytes slots = enc_u8 0x49 @ concat (map enc_slot (used_slots slots))"

lemma foldl_write_slot:
  "foldl write_slot w xs = w @ concat (map enc_slot (filter (\<lambda>s. sm_count (snd s) \<noteq> 0) xs))"
  by (induction xs arbitrary: w) (auto simp: write_slot_def enc_slot_def writer_simps)

lemma interior_hash_bytes: "interior_hash C slots = sha256 C (interior_bytes slots)"
  by (simp add: interior_hash_def interior_bytes_def used_slots_def foldl_write_slot writer_simps)

text \<open>Slots as tries have them: 256, the empty ones all zero.\<close>

definition slots_ok :: "Summary list \<Rightarrow> bool" where
  "slots_ok slots \<longleftrightarrow> length slots = fanout \<and>
     list_all (\<lambda>s. length (sm_hash s) = 32 \<and> (sm_count s = 0 \<longrightarrow> s = Summary_0)) slots"

interpretation slotc: codec enc_slot
  "bindM reader_u8 (\<lambda>i. bindM (reader_fixed 32) (\<lambda>h. bindM reader_u64 (\<lambda>n.
     retM (unat i, \<lparr>sm_count = n, sm_hash = h\<rparr>))))" slot_ok
proof unfold_locales
  fix s assume ok: "slot_ok s"
  let ?i = "of_nat (fst s) :: u8" and ?h = "sm_hash (snd s)" and ?n = "sm_count (snd s)"
  let ?dec = "bindM reader_u8 (\<lambda>i. bindM (reader_fixed 32) (\<lambda>h. bindM reader_u64 (\<lambda>n.
     retM (unat i, \<lparr>sm_count = n, sm_hash = h\<rparr>))))"
  have h: "length ?h = 32" using ok by (simp add: slot_ok_def)
  have i: "unat ?i = fst s" using ok by (simp add: slot_ok_def fanout_def unat_of_nat take_bit_nat_eq_self)
  have "reads ?dec (enc_u8 ?i @ ?h @ enc_u64 ?n @ []) (unat ?i, \<lparr>sm_count = ?n, sm_hash = ?h\<rparr>)"
    by (rule reads_bind[OF reads_u8], rule reads_bind[OF reads_fixed[OF h]],
        rule reads_bind[OF reads_u64], rule reads_ret)
  moreover have "(unat ?i, \<lparr>sm_count = ?n, sm_hash = ?h\<rparr>) = s" using i by (cases s) simp
  ultimately show "reads ?dec (enc_slot s) s" by (simp add: enc_slot_def)
  have "cuts ?dec (enc_u8 ?i @ ?h @ enc_u64 ?n @ [])"
    by (rule cuts_bind[OF reads_u8 cuts_ints(1)], rule cuts_bind[OF reads_fixed[OF h] cuts_raw(1)[OF h]],
        rule cuts_bind[OF reads_u64 cuts_ints(4)], rule cuts_ret)
  then show "cuts ?dec (enc_slot s)" by (simp add: enc_slot_def)
qed

lemma used_slots_eq:
  assumes "slots_ok xs" "slots_ok ys" "used_slots xs = used_slots ys"
  shows "xs = ys"
proof (rule nth_equalityI)
  show len: "length xs = length ys" using assms(1,2) by (simp add: slots_ok_def)
  fix i assume i: "i < length xs"
  have mem: "(i, s) \<in> set (used_slots zs) \<longleftrightarrow> zs ! i = s \<and> sm_count s \<noteq> 0" if "i < length zs" for zs s
    using that by (auto simp: used_slots_def in_set_enumerate_eq)
  have z: "zs ! i = Summary_0" if "slots_ok zs" "i < length zs" "sm_count (zs ! i) = 0" for zs
    using that by (auto simp: slots_ok_def list_all_length)
  show "xs ! i = ys ! i"
    using mem[of xs "xs ! i"] mem[of ys "xs ! i"] mem[of xs "ys ! i"] mem[of ys "ys ! i"]
      z[OF assms(1)] z[OF assms(2)] i len assms(3) by metis
qed

lemma interior_bytes_inj:
  assumes "slots_ok xs" "slots_ok ys" "interior_bytes xs = interior_bytes ys"
  shows "xs = ys"
proof (rule used_slots_eq[OF assms(1,2)], rule slotc.concat_enc_inj_nonempty)
  have "list_all slot_ok (used_slots zs)" if "slots_ok zs" for zs
    using that
    by (auto simp: used_slots_def slot_ok_def slots_ok_def list_all_iff in_set_enumerate_eq)
  then show "list_all slot_ok (used_slots xs)" "list_all slot_ok (used_slots ys)"
    using assms(1,2) by auto
  show "concat (map enc_slot (used_slots xs)) = concat (map enc_slot (used_slots ys))"
    using assms(3) by (simp add: interior_bytes_def)
qed (simp add: enc_slot_def enc_u8_def writer_u8_def)

lemma leaf_interior_bytes: "leaf_bytes rs \<noteq> interior_bytes slots"
  by (simp add: leaf_bytes_def interior_bytes_def enc_u8_def writer_u8_def)

section \<open>Properties\<close>

text \<open>
  C17: A leaf written to the node file is read back as it was: for up to \<open>leaf_max\<close> records of the
  sizes the ledger takes, sorted by id, \<open>encode\<close> succeeds and \<open>decode\<close> of its bytes gives the
  leaf with the same records, count and hash.
\<close>

theorem leaf_roundtrip:
  assumes "d < 32" "records_ok rs" "rs \<noteq> []" "length rs \<le> leaf_max" "make_leaf C d rs = Inr n"
  shows "\<exists>bytes. encode n = Inr bytes \<and> decode C bytes False = Inr n"
proof -
  have "list_all record_ok rs" using assms(2) by (simp add: records_ok_def)
  with assms(5) encode_leaf have "encode n = Inr (enc_leaf d rs)" by (auto simp: make_leaf_ok)
  with decode_encode_leaf[OF assms(1-4), of C] assms(5) show ?thesis by simp
qed

theorem leaf_roundtrip_witness:
  "\<exists>n bytes. make_leaf plain_crypto 0 [(replicate 32 7, [1, 2])] = Inr n \<and>
     encode n = Inr bytes \<and> decode plain_crypto bytes False = Inr n"
proof -
  have ok: "records_ok [(replicate 32 7, [1, 2])]"
    by (simp add: records_ok_def record_ok_def id_ok_def value_max_def)
  then obtain n where n: "make_leaf plain_crypto 0 [(replicate 32 7, [1, 2])] = Inr n"
    by (simp add: make_leaf_ok records_ok_def)
  from leaf_roundtrip[OF _ ok _ _ n] n show ?thesis by (auto simp: leaf_max_def)
qed

text \<open>
  C18: An interior node all of whose children are saved is read back as it was, whatever format the
  reader is in.
\<close>

theorem interior_roundtrip:
  assumes "d < 32" "list_all child_on_disk cs" "length cs = fanout"
    "unat (nd_count (make_interior C d cs)) > leaf_max"
  shows "\<exists>bytes. encode (make_interior C d cs) = Inr bytes \<and>
    decode C bytes format1 = Inr (make_interior C d cs)"
proof -
  have "encode (make_interior C d cs) = Inr (enc_interior d cs)"
    using encode_interior[OF assms(2)] by (simp add: make_interior_def)
  with decode_encode_interior[OF assms, of format1] show ?thesis by simp
qed

definition one_big_child :: "Child list" where
  "one_big_child = Child 64 50 200 (replicate 32 3) None # replicate (fanout - 1) empty_child"

theorem interior_roundtrip_witness:
  "\<exists>bytes. encode (make_interior plain_crypto 0 one_big_child) = Inr bytes \<and>
    decode plain_crypto bytes False = Inr (make_interior plain_crypto 0 one_big_child)"
proof (rule interior_roundtrip)
  show "list_all child_on_disk one_big_child"
    by (simp add: one_big_child_def list_all_iff child_on_disk_def unsaved_def)
  have "foldl (\<lambda>n child. n + ch_count child) v (replicate k empty_child) = v" for v k
    by (induction k arbitrary: v) (simp_all add: empty_child_def)
  then show "leaf_max < unat (nd_count (make_interior plain_crypto 0 one_big_child))"
    by (simp add: make_interior_def one_big_child_def leaf_max_def)
  show "length one_big_child = fanout" by (simp add: one_big_child_def fanout_def)
qed simp

text \<open>
  C39: A leaf of depth 32, which \<open>build\<close> makes below 31 shared bytes of more ids than a leaf takes,
  is written but refused when it is read.
\<close>

theorem deepest_leaf_unreadable:
  assumes "list_all record_ok rs" "make_leaf C 32 rs = Inr n"
  shows "\<exists>bytes. encode n = Inr bytes \<and>
    decode C bytes False = Inl (DecodeError ''object trie node too deep'')"
proof -
  have n: "encode n = Inr (enc_leaf 32 rs)" using assms by (auto simp: make_leaf_ok encode_leaf)
  let ?bs = "enc_leaf 32 rs"
  have at: "reader_at (reader ?bs) (enc_u8 kind_leaf @ enc_u8 32 @
      enc_u32 (of_nat (length rs)) @ concat (map enc_record rs))"
    by (simp add: enc_leaf_def reader_at_reader)
  have 1: "reader_u8 (reader ?bs) = (Inr kind_leaf, advanced 1 (reader ?bs))"
    using readsD[OF reads_u8 at] by simp
  have at2: "reader_at (advanced 1 (reader ?bs)) (enc_u8 32 @
      enc_u32 (of_nat (length rs)) @ concat (map enc_record rs))"
    using reader_at_advanced[OF at] by simp
  have "reader_u8 (advanced 1 (reader ?bs)) = (Inr 32, advanced 2 (reader ?bs))"
    using readsD[OF reads_u8 at2] by (simp add: numeral_2_eq_2)
  with n 1 show ?thesis by (simp add: decode_def bindM_def)
qed

theorem deepest_leaf_unreadable_witness:
  "\<exists>n bytes. make_leaf plain_crypto 32 [(replicate 32 7, [])] = Inr n \<and> encode n = Inr bytes \<and>
     decode plain_crypto bytes False = Inl (DecodeError ''object trie node too deep'')"
proof -
  have ok: "list_all record_ok [(replicate 32 7, [])]"
    by (simp add: record_ok_def id_ok_def)
  then obtain n where n: "make_leaf plain_crypto 32 [(replicate 32 7, [])] = Inr n"
    by (simp add: make_leaf_ok)
  from deepest_leaf_unreadable[OF ok n] n show ?thesis by blast
qed

end
