(* ===== verification/Object_Trie.thy ===== *)
theory Object_Trie
  imports Trie_Node
begin

text \<open>
  The object ledger: \<^verbatim>\<open>ObjectTrie\<close> of \<^verbatim>\<open>src/ledger/object_trie.cpp\<close>, operation by operation. The
  state is the object with the files it keeps in its directory: the published root, the journal,
  the node file of the current generation and any node file of another generation.

  What the allocator decides is a parameter: \<open>ot_footprint\<close> is the memory a cached node takes.
  Recursions over saved nodes follow offsets read from disk; they carry a bound of
  \<open>load_fuel\<close> loads, one more than a trie over 32-byte ids can nest.
\<close>

section \<open>State\<close>

record TrieOptions =
  op_cache_bytes :: nat
  op_checkpoint_bytes :: nat
  op_rewrite_floor_bytes :: nat

record ObjectTrie =
  ot_crypto :: crypto
  ot_key :: Bytes
  ot_options :: TrieOptions
  ot_footprint :: "Node \<Rightarrow> nat"
  ot_nonces :: "u64 \<Rightarrow> nat \<Rightarrow> Bytes"
  ot_root_file :: "Bytes option"
  ot_other_files :: "(u64 \<times> Bytes) list"
  ot_journal :: SealedJournal
  ot_nodes :: SealedJournal
  ot_generation :: u64
  ot_format1 :: bool
  ot_root :: Child
  ot_live_bytes :: nat
  ot_superseded_bytes :: nat
  ot_cache :: "Node NodeCache"
  ot_checkpoints :: nat
  ot_rewrites :: nat

definition journal_aad :: Bytes where
  "journal_aad = string_bytes ''MACHLJ01''"

definition nodes_aad :: Bytes where
  "nodes_aad = string_bytes ''MACHLN01''"

definition root_magic :: Bytes where
  "root_magic = string_bytes ''MLTR0002''"

definition format1_root_magic :: Bytes where
  "format1_root_magic = string_bytes ''MLTR0001''"

definition changes_per_frame :: nat where
  "changes_per_frame = 65536"

definition journal_version :: u8 where "journal_version = 2"
definition format1_journal_version :: u8 where "format1_journal_version = 1"

definition load_fuel :: nat where
  "load_fuel = 34"

section \<open>Loading\<close>

definition load_from ::
    "crypto \<Rightarrow> (Node \<Rightarrow> nat) \<Rightarrow> Child \<Rightarrow> u64 \<Rightarrow> (u64 \<Rightarrow> Bytes result) \<Rightarrow> bool \<Rightarrow>
     (Node NodeCache, Node) prog" where
  "load_from C footprint child generation read format1 =
     (case ch_node child of
        Some node \<Rightarrow> retM node
      | None \<Rightarrow>
          if child_empty child \<or> ch_offset child = unsaved
          then raiseM (LogicError ''object trie: loading an empty child'')
          else bindM (\<lambda>c. case cache_find generation (ch_offset child) c of (r, c') \<Rightarrow> (Inr r, c')) (\<lambda>cached.
            case cached of
              Some node \<Rightarrow> retM node
            | None \<Rightarrow>
                bindM (liftM (bindR (read (ch_offset child)) (\<lambda>bytes. decode C bytes format1))) (\<lambda>node.
                if nd_hash node \<noteq> ch_hash child \<or> nd_count node \<noteq> ch_count child
                then raiseM (RuntimeError (''object trie node at '' @ decimal (unat (ch_offset child)) @
                       '' does not match its parent''))
                else bindM (modifyM (cache_insert generation (ch_offset child) node (footprint node)))
                       (\<lambda>_. retM node))))"

definition trie_load :: "Child \<Rightarrow> (ObjectTrie, Node) prog" where
  "trie_load child = (\<lambda>t.
     zoomM ot_cache (\<lambda>c t. t\<lparr>ot_cache := c\<rparr>)
       (load_from (ot_crypto t) (ot_footprint t) child (ot_generation t)
          (\<lambda>offset. journal_read_at (ot_nodes t) (unat offset)) (ot_format1 t)) t)"

section \<open>Building and changing\<close>

function build :: "crypto \<Rightarrow> nat \<Rightarrow> Record list \<Rightarrow> Child result" where
  "build C depth records =
     (if records = [] then Inr empty_child
      else if length records \<le> leaf_max
      then bindR (make_leaf C depth records) (\<lambda>n. Inr (child_of n))
      else if depth \<ge> 32 then Inl (LogicError ''object trie: more records than ids allow'')
      else bindR (foldR (\<lambda>children group.
               bindR (build C (depth + 1) (snd group)) (\<lambda>c. Inr (children[unat (fst group) := c])))
             (replicate fanout empty_child) (runs (\<lambda>r. fst r ! depth) records))
           (\<lambda>children. Inr (child_of (make_interior C depth children))))"
  by pat_completeness auto
termination
  by (relation "measure (\<lambda>(_, depth, _). 32 - depth)") auto

declare build.simps [simp del]

text \<open>A saved node no longer reached.\<close>

definition supersede :: "Child \<Rightarrow> (ObjectTrie, unit) prog" where
  "supersede child = modifyM (\<lambda>t.
     if ch_offset child \<noteq> unsaved
     then t\<lparr>ot_superseded_bytes := ot_superseded_bytes t + unat (ch_size child)\<rparr> else t)"

fun gather :: "nat \<Rightarrow> Child \<Rightarrow> Record list \<Rightarrow> bool \<Rightarrow> (ObjectTrie, Record list) prog" where
  "gather 0 child out superseding = raiseM OutOfFuel"
| "gather (Suc fuel) child out superseding =
     (if child_empty child then retM out
      else bindM (trie_load child) (\<lambda>node.
        bindM (if superseding then supersede child else retM ()) (\<lambda>_.
        if nd_leaf node then retM (out @ nd_records node)
        else foldM (\<lambda>out below. gather fuel below out superseding) out (nd_children node))))"

text \<open>The merge of a leaf's records with the changes, both sorted by id.\<close>

fun merge_changes :: "Record list \<Rightarrow> Change list \<Rightarrow> Record list" where
  "merge_changes old [] = old"
| "merge_changes old (change # changes) =
     (let before = takeWhile (\<lambda>r. fst r < cg_id change) old;
          at = dropWhile (\<lambda>r. fst r < cg_id change) old;
          at' = (case at of [] \<Rightarrow> [] | r # rs \<Rightarrow> if fst r = cg_id change then rs else r # rs);
          here = (case cg_value change of None \<Rightarrow> [] | Some v \<Rightarrow> [(cg_id change, v)])
      in before @ here @ merge_changes at' changes)"

definition child_counts :: "Child list \<Rightarrow> u64" where
  "child_counts children = foldl (\<lambda>n child. n + ch_count child) 0 children"

function mutate :: "nat \<Rightarrow> Child \<Rightarrow> Change list \<Rightarrow> (ObjectTrie, Child) prog" where
  "mutate depth child changes =
     (if changes = [] then retM child
      else bindM (if child_empty child then retM None
                  else bindM (trie_load child) (\<lambda>n. retM (Some n))) (\<lambda>node.
        if node = None \<or> nd_leaf (the node) then
          bindM (if node \<noteq> None then supersede child else retM ()) (\<lambda>_.
          bindM getM (\<lambda>t.
            liftM (build (ot_crypto t) depth
              (merge_changes (case node of None \<Rightarrow> [] | Some n \<Rightarrow> nd_records n) changes))))
        else bindM (supersede child) (\<lambda>_.
          if depth \<ge> 32 then raiseM UndefinedBehaviour
          else bindM (foldM (\<lambda>children group.
                 bindM (mutate (depth + 1) (children ! unat (fst group)) (snd group))
                   (\<lambda>c. retM (children[unat (fst group) := c])))
                 (nd_children (the node)) (runs (\<lambda>c. cg_id c ! depth) changes)) (\<lambda>children.
            if unat (child_counts children) \<le> leaf_max
            then bindM (foldM (\<lambda>all below. gather load_fuel below all True) [] children) (\<lambda>all.
                   bindM getM (\<lambda>t. liftM (build (ot_crypto t) depth all)))
            else bindM getM (\<lambda>t. retM (child_of (make_interior (ot_crypto t) depth children)))))))"
  by pat_completeness auto
termination
  by (relation "measure (\<lambda>(depth, _, _). 32 - depth)") auto

declare mutate.simps [simp del]

definition apply_unjournaled :: "Change list \<Rightarrow> (ObjectTrie, unit) prog" where
  "apply_unjournaled changes = bindM getM (\<lambda>t.
     bindM (mutate 0 (ot_root t) changes) (\<lambda>c. modifyM (\<lambda>t. t\<lparr>ot_root := c\<rparr>)))"

section \<open>Saving\<close>

text \<open>
  \<open>save\<close> writes the unsaved nodes below a child, children first, into a node file; the result
  names where the child is. The loop over the 256 slots is \<open>save_children\<close>.
\<close>

definition save_node :: "Node \<Rightarrow> (SealedJournal, Child) prog" where
  "save_node saved =
     bindM (liftM (encode saved)) (\<lambda>bytes.
     bindM getM (\<lambda>before.
     bindM (append_unsynced bytes) (\<lambda>offset.
     bindM getM (\<lambda>after.
       retM (Child (of_nat offset) (of_nat (sj_bytes after - sj_bytes before))
              (nd_count saved) (nd_hash saved) None)))))"

definition release_node :: "Child \<Rightarrow> Child" where
  "release_node c =
     (if ch_offset c \<noteq> unsaved
      then Child (ch_offset c) (ch_size c) (ch_count c) (ch_hash c) None else c)"

fun save :: "crypto \<Rightarrow> Child \<Rightarrow> (SealedJournal, Child) prog"
and save_children :: "crypto \<Rightarrow> Child list \<Rightarrow> (SealedJournal, Child list) prog" where
  "save C (Child offset sz count hash node) =
     (if count = 0 \<or> offset \<noteq> unsaved then retM (Child offset sz count hash node)
      else case node of
        None \<Rightarrow> raiseM UndefinedBehaviour
      | Some (Node depth leaf records children count' hash') \<Rightarrow>
          if leaf then save_node (Node depth leaf records children count' hash')
          else bindM (save_children C children) (\<lambda>saved. save_node (make_interior C depth saved)))"
| "save_children C [] = retM []"
| "save_children C (c # cs) =
     bindM (save C c) (\<lambda>c'. bindM (save_children C cs) (\<lambda>cs'. retM (release_node c' # cs')))"

definition encode_root :: "crypto \<Rightarrow> u64 \<Rightarrow> Child \<Rightarrow> nat \<Rightarrow> Bytes" where
  "encode_root C generation root live_bytes =
     (let w = writer_u64 (writer_fixed (writer_u64 (writer_u32 (writer_u64 (writer_u64
            (writer_fixed [] root_magic) generation) (ch_offset root)) (ch_size root))
            (ch_count root)) (ch_hash root)) (of_nat live_bytes)
      in writer_fixed w (sha256 C w))"

definition publish_root :: "(ObjectTrie, unit) prog" where
  "publish_root = modifyM (\<lambda>t.
     t\<lparr>ot_root_file := Some (encode_root (ot_crypto t) (ot_generation t) (ot_root t) (ot_live_bytes t))\<rparr>)"

definition load_root :: "(ObjectTrie, unit) prog" where
  "load_root = bindM getM (\<lambda>t.
     if child_empty (ot_root t) then retM ()
     else bindM (trie_load (ot_root t)) (\<lambda>n.
       modifyM (\<lambda>t. t\<lparr>ot_root := (case ot_root t of Child o' s c h _ \<Rightarrow> Child o' s c h (Some n))\<rparr>)))"

section \<open>Checkpoints\<close>

definition drop_node :: "Child \<Rightarrow> Child" where
  "drop_node c = Child (ch_offset c) (ch_size c) (ch_count c) (ch_hash c) None"

text \<open>The first part of \<^verbatim>\<open>checkpoint\<close>: unsaved nodes into the node file, synced, and the accounts.\<close>

definition checkpoint_save :: "(ObjectTrie, unit) prog" where
  "checkpoint_save = bindM getM (\<lambda>t0.
     bindM (zoomM ot_nodes (\<lambda>j t. t\<lparr>ot_nodes := j\<rparr>) (save (ot_crypto t0) (ot_root t0))) (\<lambda>saved.
     bindM (zoomM ot_nodes (\<lambda>j t. t\<lparr>ot_nodes := j\<rparr>) journal_sync) (\<lambda>_.
     modifyM (\<lambda>t.
       let written = sj_bytes (ot_nodes t) - sj_bytes (ot_nodes t0) in
       t\<lparr>ot_live_bytes := ot_live_bytes t + written -
             min (ot_live_bytes t + written) (ot_superseded_bytes t),
         ot_superseded_bytes := 0, ot_root := drop_node saved\<rparr>))))"

definition checkpoint_reset :: "(ObjectTrie, unit) prog" where
  "checkpoint_reset = modifyM (\<lambda>t.
     t\<lparr>ot_journal := journal_reset (ot_journal t), ot_checkpoints := ot_checkpoints t + 1\<rparr>)"

text \<open>The copy a rewrite makes: the whole trie, unsaved.\<close>

fun copy_trie :: "nat \<Rightarrow> Child \<Rightarrow> (ObjectTrie, Child) prog" where
  "copy_trie 0 child = raiseM OutOfFuel"
| "copy_trie (Suc fuel) child =
     (if child_empty child then retM empty_child
      else bindM (trie_load child) (\<lambda>node. bindM getM (\<lambda>t.
        if nd_leaf node
        then liftM (bindR (make_leaf (ot_crypto t) (nd_depth node) (nd_records node))
                      (\<lambda>n. Inr (child_of n)))
        else bindM (mapM (copy_trie fuel) (nd_children node)) (\<lambda>children.
               retM (child_of (make_interior (ot_crypto t) (nd_depth node) children))))))"

definition rewrite_due :: "ObjectTrie \<Rightarrow> bool" where
  "rewrite_due t \<longleftrightarrow>
     (let fl = sj_bytes (ot_nodes t) in
      fl > 2 * ot_live_bytes t \<and> fl - ot_live_bytes t > op_rewrite_floor_bytes (ot_options t))"

text \<open>The new node file written beside the old one; it is not the trie's yet.\<close>

definition rewrite_copy :: "(ObjectTrie, SealedJournal \<times> Child) prog" where
  "rewrite_copy = bindM getM (\<lambda>t.
     let next = ot_generation t + 1;
         fresh = SealedJournal_open (ot_crypto t) (ot_nonces t next) (ot_key t) nodes_aad max_frame []
     in bindM (copy_trie load_fuel (ot_root t)) (\<lambda>copied.
        case save (ot_crypto t) copied fresh of
          (Inl e, _) \<Rightarrow> raiseM e
        | (Inr rewritten, written) \<Rightarrow>
            let synced = snd (journal_sync written) in
            bindM (modifyM (\<lambda>t. t\<lparr>ot_other_files := [(next, sj_file synced)]\<rparr>)) (\<lambda>_.
            retM (synced, rewritten))))"

definition rewrite_switch :: "SealedJournal \<Rightarrow> Child \<Rightarrow> (ObjectTrie, unit) prog" where
  "rewrite_switch fresh rewritten = modifyM (\<lambda>t.
     t\<lparr>ot_generation := ot_generation t + 1, ot_root := rewritten,
       ot_live_bytes := sj_bytes fresh, ot_nodes := fresh,
       ot_other_files := [(ot_generation t, sj_file (ot_nodes t))],
       ot_cache := cache_drop_generation (ot_generation t) (ot_cache t)\<rparr>)"

definition rewrite_cleanup :: "(ObjectTrie, unit) prog" where
  "rewrite_cleanup = modifyM (\<lambda>t. t\<lparr>ot_other_files := [], ot_rewrites := ot_rewrites t + 1\<rparr>)"

definition rewrite_if_due :: "(ObjectTrie, unit) prog" where
  "rewrite_if_due = bindM getM (\<lambda>t.
     if \<not> rewrite_due t then retM ()
     else bindM rewrite_copy (\<lambda>fr.
          bindM (rewrite_switch (fst fr) (snd fr)) (\<lambda>_.
          bindM publish_root (\<lambda>_.
          bindM rewrite_cleanup (\<lambda>_. load_root)))))"

definition checkpoint :: "(ObjectTrie, unit) prog" where
  "checkpoint =
     bindM checkpoint_save (\<lambda>_.
     bindM publish_root (\<lambda>_.
     bindM checkpoint_reset (\<lambda>_.
     bindM load_root (\<lambda>_. rewrite_if_due))))"

section \<open>Writing\<close>

function chunks :: "nat \<Rightarrow> 'a list \<Rightarrow> 'a list list" where
  "chunks n xs = (if xs = [] \<or> n = 0 then [] else take n xs # chunks n (drop n xs))"
  by pat_completeness auto
termination
  by (relation "measure (\<lambda>(_, xs). length xs)") auto

declare chunks.simps [simp del]

definition write_change :: "Writer \<Rightarrow> Change \<Rightarrow> Writer result" where
  "write_change w change =
     (let w = writer_u8 (writer_fixed w (cg_id change)) (if cg_value change \<noteq> None then 1 else 0) in
      case cg_value change of None \<Rightarrow> Inr w | Some v \<Rightarrow> writer_bytes w v)"

definition encode_changes :: "Change list \<Rightarrow> Bytes result" where
  "encode_changes part =
     foldR write_change (writer_u32 (writer_u8 [] journal_version) (of_nat (length part))) part"

definition change_too_large :: "Change \<Rightarrow> bool" where
  "change_too_large c \<longleftrightarrow> (case cg_value c of None \<Rightarrow> False | Some v \<Rightarrow> length v > value_max)"

definition trie_write :: "Change list \<Rightarrow> (ObjectTrie, unit) prog" where
  "trie_write sorted_unique =
     (if list_ex change_too_large sorted_unique
      then raiseM (InvalidArgument ''object trie value too large'')
      else forM (\<lambda>part. bindM (liftM (encode_changes part)) (\<lambda>bytes.
             zoomM ot_journal (\<lambda>j t. t\<lparr>ot_journal := j\<rparr>) (journal_append bytes)))
           (chunks changes_per_frame sorted_unique))"

definition checkpoint_if_due :: "(ObjectTrie, unit) prog" where
  "checkpoint_if_due = bindM getM (\<lambda>t.
     if sj_bytes (ot_journal t) \<ge> op_checkpoint_bytes (ot_options t) then checkpoint else retM ())"

definition trie_install :: "Change list \<Rightarrow> (ObjectTrie, unit) prog" where
  "trie_install sorted_unique =
     (if sorted_unique = [] then retM ()
      else bindM (apply_unjournaled sorted_unique) (\<lambda>_. checkpoint_if_due))"

text \<open>Sorted by id, a later change to the same id winning.\<close>

definition push_unique :: "Change list \<Rightarrow> Change \<Rightarrow> Change list" where
  "push_unique unique change =
     (if unique \<noteq> [] \<and> cg_id (last unique) = cg_id change then butlast unique @ [change]
      else unique @ [change])"

definition sort_changes :: "Change list \<Rightarrow> Change list" where
  "sort_changes input = foldl push_unique [] (sort_key cg_id input)"

definition trie_apply :: "Change list \<Rightarrow> (ObjectTrie, unit) prog" where
  "trie_apply input =
     (if input = [] then retM ()
      else bindM (trie_write (sort_changes input)) (\<lambda>_. trie_install (sort_changes input)))"

definition replace_all :: "Record list \<Rightarrow> (ObjectTrie, unit) prog" where
  "replace_all records =
     bindM (modifyM (\<lambda>t. t\<lparr>ot_superseded_bytes := ot_live_bytes t\<rparr>)) (\<lambda>_.
     bindM getM (\<lambda>t.
     bindM (liftM (build (ot_crypto t) 0 records)) (\<lambda>c.
     bindM (modifyM (\<lambda>t. t\<lparr>ot_root := c\<rparr>)) (\<lambda>_. checkpoint))))"

section \<open>Reading\<close>

text \<open>
  The readers take the function that loads a child, as the code does: the trie's own, or a
  snapshot's.
\<close>

type_synonym 's loader = "Child \<Rightarrow> ('s, Node) prog"

definition lower_bound_find :: "ObjectId \<Rightarrow> Record list \<Rightarrow> Bytes option" where
  "lower_bound_find i records =
     (case dropWhile (\<lambda>r. fst r < i) records of
        [] \<Rightarrow> None
      | r # _ \<Rightarrow> if fst r \<noteq> i then None else Some (snd r))"

fun find_loop :: "nat \<Rightarrow> 's loader \<Rightarrow> ObjectId \<Rightarrow> Node \<Rightarrow> ('s, Bytes option) prog" where
  "find_loop 0 load i node = raiseM OutOfFuel"
| "find_loop (Suc fuel) load i node =
     (if nd_leaf node then retM (lower_bound_find i (nd_records node))
      else let child = nd_children node ! unat (i ! nd_depth node) in
        if child_empty child then retM None
        else bindM (load child) (find_loop fuel load i))"

definition trie_find :: "Child \<Rightarrow> ObjectId \<Rightarrow> 's loader \<Rightarrow> ('s, Bytes option) prog" where
  "trie_find root i load =
     (if child_empty root then retM None
      else bindM (load root) (find_loop load_fuel load i))"

fun collect_leaf :: "ObjectId option \<Rightarrow> bool \<Rightarrow> nat \<Rightarrow> Record list \<Rightarrow> Record list \<Rightarrow> Record list" where
  "collect_leaf after bounded limit out [] = out"
| "collect_leaf after bounded limit out (r # rs) =
     (if length out \<ge> limit then out
      else if bounded \<and> \<not> the after < fst r then collect_leaf after bounded limit out rs
      else collect_leaf after bounded limit (out @ [r]) rs)"

fun collect :: "nat \<Rightarrow> Child \<Rightarrow> ObjectId option \<Rightarrow> bool \<Rightarrow> nat \<Rightarrow> Record list \<Rightarrow> 's loader \<Rightarrow>
    ('s, Record list) prog" where
  "collect 0 child after bounded limit out load = raiseM OutOfFuel"
| "collect (Suc fuel) child after bounded limit out load =
     (if child_empty child \<or> length out \<ge> limit then retM out
      else bindM (load child) (\<lambda>node.
        if nd_leaf node then retM (collect_leaf after bounded limit out (nd_records node))
        else let start = (if bounded then unat (the after ! nd_depth node) else 0) in
          foldM (\<lambda>out i. if length out < limit
                   then collect fuel (nd_children node ! i) after (bounded \<and> i = start) limit out load
                   else retM out)
            out [start..<fanout]))"

definition trie_get :: "ObjectId \<Rightarrow> (ObjectTrie, Bytes option) prog" where
  "trie_get i = bindM getM (\<lambda>t. trie_find (ot_root t) i trie_load)"

definition trie_next :: "ObjectId option \<Rightarrow> nat \<Rightarrow> (ObjectTrie, Record list) prog" where
  "trie_next after limit = bindM getM (\<lambda>t.
     collect load_fuel (ot_root t) after (after \<noteq> None) limit [] trie_load)"

definition trie_size :: "ObjectTrie \<Rightarrow> u64" where
  "trie_size t = ch_count (ot_root t)"

definition root_hash :: "ObjectTrie \<Rightarrow> Hash256" where
  "root_hash t = ch_hash (ot_root t)"

record TrieStats =
  ts_journal_bytes :: nat
  ts_node_file_bytes :: nat
  ts_live_bytes :: nat
  ts_cache_bytes :: nat
  ts_cached_nodes :: nat
  ts_loads :: nat
  ts_checkpoints :: nat
  ts_rewrites :: nat

definition trie_stats :: "ObjectTrie \<Rightarrow> TrieStats" where
  "trie_stats t =
     (case cache_usage (ot_cache t) of (bytes, nodes, loads) \<Rightarrow>
        \<lparr>ts_journal_bytes = sj_bytes (ot_journal t), ts_node_file_bytes = sj_bytes (ot_nodes t),
         ts_live_bytes = ot_live_bytes t, ts_cache_bytes = bytes, ts_cached_nodes = nodes,
         ts_loads = loads, ts_checkpoints = ot_checkpoints t, ts_rewrites = ot_rewrites t\<rparr>)"

section \<open>Opening\<close>

text \<open>What a trie's directory holds.\<close>

record TrieDisk =
  td_root :: "Bytes option"
  td_nodes :: "(u64 \<times> Bytes) list"
  td_journal :: Bytes

definition decode_root :: "crypto \<Rightarrow> Bytes \<Rightarrow> (bool \<times> u64 \<times> Child \<times> nat) result" where
  "decode_root C bytes =
     fst (bindM (reader_fixed 8) (\<lambda>magic.
       if magic \<noteq> root_magic \<and> magic \<noteq> format1_root_magic
       then raiseM (DecodeError ''object trie root of another format'')
       else bindM reader_u64 (\<lambda>generation. bindM reader_u64 (\<lambda>offset. bindM reader_u32 (\<lambda>sz.
            bindM reader_u64 (\<lambda>count. bindM (reader_fixed 32) (\<lambda>hash. bindM reader_u64 (\<lambda>live.
            bindM (reader_fixed 32) (\<lambda>check. bindM reader_finish (\<lambda>_.
              if sha256 C (take (length bytes - 32) bytes) \<noteq> check
              then raiseM (DecodeError ''object trie root is damaged'')
              else retM (magic = format1_root_magic, generation,
                     (if count = 0 then empty_child else Child offset sz count hash None),
                     unat live)))))))))) (reader bytes))"

definition read_change :: "bool \<Rightarrow> Change list \<Rightarrow> (Reader, Change list) prog" where
  "read_change u64_values changes =
     bindM (reader_fixed 32) (\<lambda>i. bindM reader_u8 (\<lambda>present.
     bindM (if present = 0 then retM None
            else if u64_values then bindM reader_u64 (\<lambda>v. retM (Some (format1_value v)))
            else bindM (reader_bytes value_max) (\<lambda>v. retM (Some v))) (\<lambda>value.
       if changes \<noteq> [] \<and> \<not> cg_id (last changes) < i
       then raiseM (DecodeError ''object trie journal frame out of order'')
       else retM (changes @ [\<lparr>cg_id = i, cg_value = value\<rparr>]))))"

definition decode_changes :: "Bytes \<Rightarrow> Change list result" where
  "decode_changes plain =
     fst (bindM reader_u8 (\<lambda>version.
       if version \<noteq> journal_version \<and> version \<noteq> format1_journal_version
       then raiseM (DecodeError ''object trie journal of another version'')
       else bindM reader_u32 (\<lambda>count.
         if unat count > changes_per_frame
         then raiseM (DecodeError ''object trie journal frame too large'')
         else bindM (foldM (\<lambda>changes _. read_change (version = format1_journal_version) changes) []
                      [0..<unat count]) (\<lambda>changes.
              bindM reader_finish (\<lambda>_. retM changes)))) (reader plain))"

definition replay_changes :: "Bytes \<Rightarrow> (ObjectTrie, unit) prog" where
  "replay_changes plain = bindM (liftM (decode_changes plain)) apply_unjournaled"

definition file_of :: "(u64 \<times> Bytes) list \<Rightarrow> u64 \<Rightarrow> Bytes" where
  "file_of files generation = (case map_of files generation of None \<Rightarrow> [] | Some f \<Rightarrow> f)"

text \<open>The constructor, in three parts: the members, the journal's replay, what follows it.\<close>

definition trie_members :: "crypto \<Rightarrow> (Node \<Rightarrow> nat) \<Rightarrow> (u64 \<Rightarrow> nat \<Rightarrow> Bytes) \<Rightarrow> (nat \<Rightarrow> Bytes) \<Rightarrow>
    Bytes \<Rightarrow> TrieOptions \<Rightarrow> TrieDisk \<Rightarrow> ObjectTrie result" where
  "trie_members C footprint nonces journal_nonces key options disk =
     bindR (case td_root disk of
              None \<Rightarrow> Inr (False, 0, empty_child, 0)
            | Some bytes \<Rightarrow> decode_root C bytes) (\<lambda>(format1, generation, root, live).
       Inr \<lparr>ot_crypto = C, ot_key = key, ot_options = options, ot_footprint = footprint,
            ot_nonces = nonces, ot_root_file = td_root disk, ot_other_files = [],
            ot_journal = SealedJournal_open C journal_nonces key journal_aad max_frame (td_journal disk),
            ot_nodes = SealedJournal_open C (nonces generation) key nodes_aad max_frame
              (file_of (td_nodes disk) generation),
            ot_generation = generation, ot_format1 = format1, ot_root = root,
            ot_live_bytes = live, ot_superseded_bytes = 0,
            ot_cache = NodeCache_new (op_cache_bytes options), ot_checkpoints = 0, ot_rewrites = 0\<rparr>)"

definition trie_replay :: "(ObjectTrie, unit) prog" where
  "trie_replay = (\<lambda>t.
     case SealedJournal_replay replay_changes max_frame (ot_journal t) t of
       (journal, t') \<Rightarrow> (Inr (), t'\<lparr>ot_journal := journal\<rparr>))"

definition trie_upgrade :: "(ObjectTrie, unit) prog" where
  "trie_upgrade = bindM getM (\<lambda>t.
     if ot_format1 t
     then bindM (trie_next None (unat (ch_count (ot_root t)))) (\<lambda>records.
          bindM (modifyM (\<lambda>t. t\<lparr>ot_format1 := False\<rparr>)) (\<lambda>_. replace_all records))
     else checkpoint_if_due)"

definition ObjectTrie_open :: "crypto \<Rightarrow> (Node \<Rightarrow> nat) \<Rightarrow> (u64 \<Rightarrow> nat \<Rightarrow> Bytes) \<Rightarrow> (nat \<Rightarrow> Bytes) \<Rightarrow>
    Bytes \<Rightarrow> TrieOptions \<Rightarrow> TrieDisk \<Rightarrow> ObjectTrie result" where
  "ObjectTrie_open C footprint nonces journal_nonces key options disk =
     bindR (trie_members C footprint nonces journal_nonces key options disk) (\<lambda>t0.
       case bindM load_root (\<lambda>_. bindM trie_replay (\<lambda>_. trie_upgrade)) t0 of
         (Inl e, _) \<Rightarrow> Inl e
       | (Inr _, t) \<Rightarrow> Inr t)"

section \<open>Prefixes and snapshots\<close>

record Prefix =
  px_bytes :: Bytes
  px_length :: nat

definition Prefix_0 :: Prefix where
  "Prefix_0 = \<lparr>px_bytes = replicate 32 0, px_length = 0\<rparr>"

definition prefix_child :: "Prefix \<Rightarrow> u8 \<Rightarrow> Prefix" where
  "prefix_child p byte = \<lparr>px_bytes = (px_bytes p)[px_length p := byte], px_length = px_length p + 1\<rparr>"

definition covers :: "Prefix \<Rightarrow> ObjectId \<Rightarrow> bool" where
  "covers p i \<longleftrightarrow> take (px_length p) (px_bytes p) = take (px_length p) i"

record Snapshot =
  sn_crypto :: crypto
  sn_footprint :: "Node \<Rightarrow> nat"
  sn_generation :: u64
  sn_file :: FrameReader
  sn_root :: Child

definition trie_snapshot :: "ObjectTrie \<Rightarrow> Snapshot" where
  "trie_snapshot t =
     \<lparr>sn_crypto = ot_crypto t, sn_footprint = ot_footprint t, sn_generation = ot_generation t,
      sn_file = journal_reader (ot_nodes t), sn_root = ot_root t\<rparr>"

text \<open>The state a snapshot's operations change is the cache it shares with the trie.\<close>

definition snapshot_load :: "Snapshot \<Rightarrow> (Node NodeCache) loader" where
  "snapshot_load s child =
     load_from (sn_crypto s) (sn_footprint s) child (sn_generation s)
       (\<lambda>offset. frame_reader_read_at (sn_file s) (unat offset)) False"

definition snapshot_get :: "Snapshot \<Rightarrow> ObjectId \<Rightarrow> (Node NodeCache, Bytes option) prog" where
  "snapshot_get s i =
     (if child_empty (sn_root s) then retM None else trie_find (sn_root s) i (snapshot_load s))"

definition snapshot_next :: "Snapshot \<Rightarrow> ObjectId option \<Rightarrow> nat \<Rightarrow> (Node NodeCache, Record list) prog" where
  "snapshot_next s after limit =
     (if child_empty (sn_root s) then retM []
      else collect load_fuel (sn_root s) after (after \<noteq> None) limit [] (snapshot_load s))"

definition page_size :: nat where
  "page_size = 4096"

text \<open>The loop of \<^verbatim>\<open>ids()\<close>; it ends with the first short page.\<close>

fun snapshot_ids_loop :: "nat \<Rightarrow> Snapshot \<Rightarrow> ObjectId option \<Rightarrow> ObjectId list \<Rightarrow>
    (Node NodeCache, ObjectId list) prog" where
  "snapshot_ids_loop 0 s after out = raiseM OutOfFuel"
| "snapshot_ids_loop (Suc fuel) s after out =
     bindM (snapshot_next s after page_size) (\<lambda>page.
       let out' = out @ map fst page in
       if length page < page_size then retM out'
       else snapshot_ids_loop fuel s (Some (fst (last page))) out')"

definition snapshot_ids :: "nat \<Rightarrow> Snapshot \<Rightarrow> (Node NodeCache, ObjectId list) prog" where
  "snapshot_ids fuel s = snapshot_ids_loop fuel s None []"

fun descend_loop :: "nat \<Rightarrow> Prefix \<Rightarrow> 's loader \<Rightarrow> Node \<Rightarrow> ('s, Node option) prog" where
  "descend_loop 0 pfx load node = raiseM OutOfFuel"
| "descend_loop (Suc fuel) pfx load node =
     (if nd_leaf node \<or> \<not> nd_depth node < px_length pfx then retM (Some node)
      else let child = nd_children node ! unat (px_bytes pfx ! nd_depth node) in
        if child_empty child then retM None
        else bindM (load child) (descend_loop fuel pfx load))"

definition descend :: "Child \<Rightarrow> Prefix \<Rightarrow> 's loader \<Rightarrow> ('s, Node option) prog" where
  "descend root pfx load =
     (if child_empty root then retM None
      else bindM (load root) (descend_loop load_fuel pfx load))"

text \<open>The 256 subtrees one byte below a prefix, from the leaf that holds everything below it.\<close>

definition leaf_children :: "crypto \<Rightarrow> Prefix \<Rightarrow> Record list \<Rightarrow> (Summary list) result" where
  "leaf_children C pfx records =
     foldR (\<lambda>out group.
         case fst group of
           None \<Rightarrow> Inr out
         | Some byte \<Rightarrow>
             bindR (leaf_hash C (snd group)) (\<lambda>h.
               Inr (out[unat byte := \<lparr>sm_count = of_nat (length (snd group)), sm_hash = h\<rparr>])))
       (replicate fanout Summary_0)
       (runs (\<lambda>r. if covers pfx (fst r) then Some (fst r ! px_length pfx) else None) records)"

definition snapshot_children_one :: "Snapshot \<Rightarrow> Prefix \<Rightarrow> (Node NodeCache, Summary list) prog" where
  "snapshot_children_one s pfx =
     (if px_length pfx \<ge> 32
      then raiseM (LogicError ''object trie: a whole id has no children'')
      else bindM (descend (sn_root s) pfx (snapshot_load s)) (\<lambda>node.
        case node of
          None \<Rightarrow> retM (replicate fanout Summary_0)
        | Some n \<Rightarrow>
            if \<not> nd_leaf n then retM (map child_summary (nd_children n))
            else liftM (leaf_children (sn_crypto s) pfx (nd_records n))))"

definition snapshot_children :: "Snapshot \<Rightarrow> Prefix list \<Rightarrow> (Node NodeCache, Summary list list) prog" where
  "snapshot_children s pfxs =
     (if child_empty (sn_root s) then retM (map (\<lambda>_. replicate fanout Summary_0) pfxs)
      else mapM (snapshot_children_one s) pfxs)"

definition snapshot_records_one :: "Snapshot \<Rightarrow> u64 \<Rightarrow> Prefix \<Rightarrow> (Node NodeCache, Record list) prog" where
  "snapshot_records_one s most pfx =
     bindM (descend (sn_root s) pfx (snapshot_load s)) (\<lambda>node.
       case node of
         None \<Rightarrow> retM []
       | Some n \<Rightarrow>
           if nd_leaf n then retM (filter (\<lambda>r. covers pfx (fst r)) (nd_records n))
           else if nd_count n > most
           then raiseM (LengthError ''object trie: more records below a prefix than asked for'')
           else collect load_fuel (child_of n) None False (unat (nd_count n)) [] (snapshot_load s))"

definition snapshot_records :: "Snapshot \<Rightarrow> u64 \<Rightarrow> Prefix list \<Rightarrow>
    (Node NodeCache, Record list list) prog" where
  "snapshot_records s most pfxs =
     (if child_empty (sn_root s) then retM (map (\<lambda>_. []) pfxs)
      else mapM (snapshot_records_one s most) pfxs)"

end
