(* ===== verification/Trie_Shape.thy ===== *)
theory Trie_Shape
  imports Object_Trie
begin

text \<open>
  The specification of the object ledger: the shape, count and hash a set of records has, whatever
  way the trie that holds it came about. \<open>trie_digest\<close> is the hash as a function of the records;
  \<open>holds\<close> relates a child, in memory or saved in a node file, to the records below it. The
  theorems are that the count and hash of whatever holds the records are those of the
  specification, and that under a collision-free hash they determine the records.
\<close>

section \<open>Records below a byte\<close>

definition slot :: "nat \<Rightarrow> nat \<Rightarrow> Record list \<Rightarrow> Record list" where
  "slot d i rs = filter (\<lambda>r. unat (fst r ! d) = i) rs"

definition same_prefix :: "nat \<Rightarrow> Record list \<Rightarrow> bool" where
  "same_prefix d rs \<longleftrightarrow> (\<forall>r \<in> set rs. \<forall>r' \<in> set rs. take d (fst r) = take d (fst r'))"

text \<open>
  No more records than a leaf takes share their first 31 bytes. Ids are SHA-256 digests; a node of
  the deepest level would be a leaf of depth 32, which \<open>decode\<close> refuses.
\<close>

definition spread :: "Record list \<Rightarrow> bool" where
  "spread rs \<longleftrightarrow> (\<forall>r \<in> set rs.
     length (filter (\<lambda>r'. take 31 (fst r') = take 31 (fst r)) rs) \<le> leaf_max)"

definition segment_ok :: "nat \<Rightarrow> Record list \<Rightarrow> bool" where
  "segment_ok d rs \<longleftrightarrow> records_ok rs \<and> same_prefix d rs \<and> spread rs \<and> length rs < 2 ^ 64"

abbreviation ledger_ok :: "Record list \<Rightarrow> bool" where
  "ledger_ok \<equiv> segment_ok 0"

lemma segment_okD:
  assumes "segment_ok d rs"
  shows "records_ok rs" "spread rs" "length rs < 2 ^ 64"
    "r \<in> set rs \<Longrightarrow> r' \<in> set rs \<Longrightarrow> take d (fst r) = take d (fst r')"
  using assms unfolding segment_ok_def same_prefix_def by blast+

lemma records_ok_id: "records_ok rs \<Longrightarrow> r \<in> set rs \<Longrightarrow> length (fst r) = 32"
  by (auto simp: records_ok_def list_all_iff record_ok_def id_ok_def)

lemma records_ok_filter: "records_ok rs \<Longrightarrow> records_ok (filter P rs)"
  by (auto simp: records_ok_def list_all_iff sorted_wrt_map sorted_wrt_filter)

lemma spread_filter:
  assumes "spread rs"
  shows "spread (filter P rs)"
  unfolding spread_def
proof
  fix r assume r: "r \<in> set (filter P rs)"
  let ?Q = "\<lambda>r'. take 31 (fst r') = take 31 (fst r)"
  have "filter ?Q (filter P rs) = filter P (filter ?Q rs)" by (simp add: conj_commute)
  then have "length (filter ?Q (filter P rs)) \<le> length (filter ?Q rs)"
    by (metis length_filter_le)
  with assms r show "length (filter ?Q (filter P rs)) \<le> leaf_max"
    by (fastforce simp: spread_def)
qed

lemma slot_segment:
  assumes "segment_ok d rs" "d < 32"
  shows "segment_ok (d + 1) (slot d i rs)"
proof -
  have "take (d + 1) (fst r) = take (d + 1) (fst r')"
    if "r \<in> set (slot d i rs)" "r' \<in> set (slot d i rs)" for r r'
  proof -
    from that have m: "r \<in> set rs" "r' \<in> set rs" "fst r ! d = fst r' ! d"
      by (auto simp: slot_def word_unat_eq_iff)
    have "d < length (fst r)" "d < length (fst r')"
      using assms m by (auto simp: segment_ok_def records_ok_id)
    moreover have "take d (fst r) = take d (fst r')"
      using assms(1) m(1,2) unfolding segment_ok_def same_prefix_def by blast
    ultimately show ?thesis using m(3) by (simp add: take_Suc_conv_app_nth)
  qed
  moreover have "length (slot d i rs) < 2 ^ 64"
    using assms(1) le_less_trans[OF length_filter_le] by (auto simp: segment_ok_def slot_def)
  moreover have "records_ok (slot d i rs)" "spread (slot d i rs)"
    using assms(1) by (simp_all add: segment_ok_def slot_def records_ok_filter spread_filter)
  ultimately show ?thesis unfolding segment_ok_def same_prefix_def by blast
qed

text \<open>At depth 31 everything is one leaf.\<close>

lemma segment_deep:
  assumes "segment_ok d rs" "d \<ge> 31"
  shows "length rs \<le> leaf_max"
proof (cases rs)
  case (Cons r rs')
  have "take 31 (fst r') = take 31 (fst r)" if "r' \<in> set rs" for r'
  proof -
    have "r \<in> set rs" using Cons by simp
    then have "take d (fst r') = take d (fst r)"
      using assms(1) that unfolding segment_ok_def same_prefix_def by blast
    moreover have "take 31 (take d xs) = take 31 xs" for xs :: ObjectId using assms(2) by (simp add: min_def)
    ultimately show ?thesis by metis
  qed
  then have "filter (\<lambda>r'. take 31 (fst r') = take 31 (fst r)) rs = rs" by simp
  moreover have "r \<in> set rs" using Cons by simp
  ultimately show ?thesis using assms(1) unfolding segment_ok_def spread_def by metis
qed simp

lemma segment_interior_depth: "segment_ok d rs \<Longrightarrow> leaf_max < length rs \<Longrightarrow> d < 31"
  using segment_deep by force

section \<open>The order of ids\<close>

lemma less_first_difference:
  fixes xs ys :: "'a::order list"
  assumes "take d xs = take d ys" "d < length xs" "d < length ys" "xs ! d < ys ! d"
  shows "xs < ys"
  unfolding list_less_def lexord_take_index_conv using assms by auto

lemma less_nth_le:
  fixes xs ys :: "'a::linorder list"
  assumes "take d xs = take d ys" "d < length xs" "d < length ys" "xs < ys"
  shows "xs ! d \<le> ys ! d"
  using less_first_difference[of d ys xs] assms by (metis not_less order_less_asym)

lemma segment_sorted:
  assumes "segment_ok d rs" "d < 32"
  shows "sorted (map (\<lambda>r. fst r ! d) rs)"
proof -
  have "fst r ! d \<le> fst r' ! d" if "r \<in> set rs" "r' \<in> set rs" "fst r < fst r'" for r r'
    using segment_okD(4)[OF assms(1) that(1,2)] that assms(2)
      records_ok_id[OF segment_okD(1)[OF assms(1)]] by (intro less_nth_le) auto
  moreover have "sorted_wrt (\<lambda>r r'. fst r < fst r') rs"
    using segment_okD(1)[OF assms(1)] by (simp add: records_ok_def sorted_wrt_map)
  ultimately show ?thesis
    unfolding sorted_map
    using sorted_wrt_mono_rel[of rs "\<lambda>r r'. fst r < fst r'" "\<lambda>r r'. fst r ! d \<le> fst r' ! d"] by blast
qed

lemma concat_filter_upto:
  assumes "sorted (map f xs)" "\<forall>x \<in> set xs. f x < (n :: nat)"
  shows "concat (map (\<lambda>i. filter (\<lambda>x. f x = i) xs) [0..<n]) = xs"
  using assms
proof (induction n arbitrary: xs)
  case (Suc n)
  let ?lo = "filter (\<lambda>x. f x < n) xs" and ?hi = "filter (\<lambda>x. f x = n) xs"
  have lo: "concat (map (\<lambda>i. filter (\<lambda>x. f x = i) ?lo) [0..<n]) = ?lo"
    using Suc.prems by (intro Suc.IH) (auto simp: sorted_filter)
  have "map (\<lambda>i. filter (\<lambda>x. f x = i) ?lo) [0..<n] = map (\<lambda>i. filter (\<lambda>x. f x = i) xs) [0..<n]"
    by (auto intro!: filter_cong)
  then have lo': "concat (map (\<lambda>i. filter (\<lambda>x. f x = i) xs) [0..<n]) = ?lo" using lo by (simp only:)
  have "?lo @ ?hi = xs" using Suc.prems
  proof (induction xs)
    case (Cons x xs)
    show ?case
    proof (cases "f x < n")
      case False
      then have "f x = n" "\<forall>y \<in> set xs. f y = n" using Cons.prems by fastforce+
      then show ?thesis by simp
    qed (use Cons in simp)
  qed simp
  with lo' show ?case by simp
qed simp

lemma concat_slots:
  assumes "segment_ok d rs" "d < 32"
  shows "concat (map (\<lambda>i. slot d i rs) [0..<fanout]) = rs"
proof -
  have "sorted (map (\<lambda>r. unat (fst r ! d)) rs)"
    using segment_sorted[OF assms] unfolding sorted_map by (simp add: word_le_nat_alt)
  moreover have "unat (fst r ! d) < 256" for r :: Record
    using unsigned_less[of "fst r ! d"] by simp
  ultimately show ?thesis
    unfolding slot_def fanout_def by (intro concat_filter_upto) auto
qed

section \<open>The hash of a set of records\<close>

function trie_digest :: "crypto \<Rightarrow> nat \<Rightarrow> Record list \<Rightarrow> Hash256" where
  "trie_digest C d rs =
     (if length rs \<le> leaf_max \<or> d \<ge> 32 then leaf_digest C rs
      else interior_hash C (map (\<lambda>i.
        \<lparr>sm_count = of_nat (length (slot d i rs)), sm_hash = trie_digest C (d + 1) (slot d i rs)\<rparr>)
        [0..<fanout]))"
  by pat_completeness auto
termination
  by (relation "measure (\<lambda>(_, d, _). 32 - d)") auto

declare trie_digest.simps [simp del]

definition trie_summary :: "crypto \<Rightarrow> nat \<Rightarrow> Record list \<Rightarrow> Summary" where
  "trie_summary C d rs = \<lparr>sm_count = of_nat (length rs), sm_hash = trie_digest C d rs\<rparr>"

definition slot_summaries :: "crypto \<Rightarrow> nat \<Rightarrow> Record list \<Rightarrow> Summary list" where
  "slot_summaries C d rs = map (\<lambda>i. trie_summary C (d + 1) (slot d i rs)) [0..<fanout]"

lemma trie_digest_leaf: "length rs \<le> leaf_max \<Longrightarrow> trie_digest C d rs = leaf_digest C rs"
  by (subst trie_digest.simps) simp

lemma trie_digest_interior:
  "leaf_max < length rs \<Longrightarrow> d < 32 \<Longrightarrow> trie_digest C d rs = interior_hash C (slot_summaries C d rs)"
  by (subst trie_digest.simps) (simp add: slot_summaries_def trie_summary_def)

lemma length_trie_digest:
  assumes "crypto_ok C"
  shows "length (trie_digest C d rs) = 32"
  by (subst trie_digest.simps)
     (simp add: leaf_digest_def interior_hash_bytes length_sha256[OF assms] Hash256_0_def)

lemma unat_length_u64: "n < 2 ^ 64 \<Longrightarrow> unat (of_nat n :: u64) = n"
  by (simp add: unat_of_nat take_bit_nat_eq_self)

lemma of_nat_length_eq_0:
  assumes "length rs < 2 ^ 64"
  shows "(of_nat (length rs) :: u64) = 0 \<longleftrightarrow> rs = []"
proof
  assume "(of_nat (length rs) :: u64) = 0"
  with unat_length_u64[OF assms] show "rs = []" by simp
qed simp

lemma segment_ok_Nil [simp]: "segment_ok d []"
  by (simp add: segment_ok_def records_ok_def same_prefix_def spread_def)

section \<open>What a child holds\<close>

text \<open>
  \<open>holds C S d c rs\<close>: the child \<open>c\<close> at depth \<open>d\<close> stands for the records \<open>rs\<close>, where \<open>S offset
  bytes\<close> says what the node file has at an offset.
\<close>

inductive holds :: "crypto \<Rightarrow> (nat \<Rightarrow> Bytes \<Rightarrow> bool) \<Rightarrow> nat \<Rightarrow> Child \<Rightarrow> Record list \<Rightarrow> bool"
  and node_holds :: "crypto \<Rightarrow> (nat \<Rightarrow> Bytes \<Rightarrow> bool) \<Rightarrow> nat \<Rightarrow> Node \<Rightarrow> Record list \<Rightarrow> bool"
  for C S
where
  holds_empty: "holds C S d empty_child []"
| holds_node: "holds C S d (Child off sz (nd_count n) (nd_hash n) m) rs"
    if "node_holds C S d n rs" "m = Some n \<or> m = None \<and> off \<noteq> unsaved"
      "off \<noteq> unsaved \<longrightarrow> (\<exists>bytes. S (unat off) bytes \<and> decode C bytes False = Inr n)"
| node_leaf: "node_holds C S d (Node d True rs [] (of_nat (length rs)) (leaf_digest C rs)) rs"
    if "segment_ok d rs" "rs \<noteq> []" "length rs \<le> leaf_max" "d < 32"
| node_interior: "node_holds C S d (make_interior C d cs) rs"
    if "segment_ok d rs" "leaf_max < length rs" "length cs = fanout"
      "\<And>i. i < fanout \<Longrightarrow> holds C S (d + 1) (cs ! i) (slot d i rs)"

inductive_cases holds_NilE: "holds C S d c []"
inductive_cases holdsE: "holds C S d c rs"
inductive_cases node_holdsE: "node_holds C S d n rs"

lemma holds_nodeE:
  assumes "holds C S d c rs" "rs \<noteq> []"
  obtains off sz n m where "c = Child off sz (nd_count n) (nd_hash n) m" "node_holds C S d n rs"
    "m = Some n \<or> m = None \<and> off \<noteq> unsaved"
    "off \<noteq> unsaved \<longrightarrow> (\<exists>bytes. S (unat off) bytes \<and> decode C bytes False = Inr n)"
  using assms by (cases rule: holds.cases) (auto intro: that)

lemma node_holds_ok: "node_holds C S d n rs \<Longrightarrow> segment_ok d rs \<and> rs \<noteq> [] \<and> d < 32 \<and> nd_depth n = d"
  by (erule node_holdsE)
     (auto simp: make_interior_def leaf_max_def dest!: segment_interior_depth)

text \<open>A node file that only grows keeps what was held.\<close>

lemma holds_mono:
  assumes "\<And>off bytes. S off bytes \<Longrightarrow> S' off bytes"
  shows "holds C S d c rs \<Longrightarrow> holds C S' d c rs" "node_holds C S d n rs \<Longrightarrow> node_holds C S' d n rs"
proof (induction rule: holds_node_holds.inducts)
  case (holds_node d n rs m off sz)
  then show ?case using assms by (intro holds_node_holds.holds_node) auto
qed (auto intro: holds_node_holds.intros)

lemma sum_counts:
  "foldl (\<lambda>n c. n + ch_count c) (of_nat k) cs = of_nat (k + sum_list (map length rss))"
  if "length cs = length rss" "\<And>i. i < length cs \<Longrightarrow> ch_count (cs ! i) = of_nat (length (rss ! i))"
  using that
proof (induction cs rss arbitrary: k rule: list_induct2)
  case (Cons c cs rs rss)
  have "ch_count c = of_nat (length rs)" using Cons.prems[of 0] by simp
  then have "of_nat k + ch_count c = of_nat (k + length rs)" by simp
  moreover have "ch_count (cs ! i) = of_nat (length (rss ! i))" if "i < length cs" for i
    using Cons.prems[of "Suc i"] that by simp
  ultimately show ?case using Cons.IH[of "k + length rs"] by (simp add: add.assoc)
qed simp

lemma make_interior_summary:
  assumes "segment_ok d rs" "leaf_max < length rs" "length cs = fanout"
    "\<And>i. i < fanout \<Longrightarrow> child_summary (cs ! i) = trie_summary C (d + 1) (slot d i rs)"
  shows "nd_count (make_interior C d cs) = of_nat (length rs)"
    "nd_hash (make_interior C d cs) = trie_digest C d rs"
proof -
  have d: "d < 32" using segment_interior_depth[OF assms(1,2)] by simp
  have "map child_summary cs = slot_summaries C d rs"
    unfolding slot_summaries_def using assms(3,4) by (intro nth_equalityI) simp_all
  then show "nd_hash (make_interior C d cs) = trie_digest C d rs"
    by (simp add: make_interior_def trie_digest_interior[OF assms(2) d])
  have "foldl (\<lambda>n c. n + ch_count c) (of_nat 0) cs =
      of_nat (0 + sum_list (map length (map (\<lambda>i. slot d i rs) [0..<fanout])))"
    using assms(3,4) by (intro sum_counts) (auto simp: child_summary_def trie_summary_def)
  also have "sum_list (map length (map (\<lambda>i. slot d i rs) [0..<fanout])) = length rs"
    by (metis length_concat concat_slots[OF assms(1) d])
  finally show "nd_count (make_interior C d cs) = of_nat (length rs)"
    by (simp add: make_interior_def)
qed

text \<open>The count and hash of whatever holds the records.\<close>

lemma holds_summary:
  "holds C S d c rs \<Longrightarrow> child_summary c = trie_summary C d rs"
  "node_holds C S d n rs \<Longrightarrow> nd_count n = of_nat (length rs) \<and> nd_hash n = trie_digest C d rs"
proof (induction rule: holds_node_holds.inducts)
  case (holds_empty d)
  then show ?case
    by (simp add: child_summary_def empty_child_def trie_summary_def trie_digest_leaf leaf_digest_def)
next
  case (holds_node d n rs m off sz)
  then show ?case by (simp add: child_summary_def trie_summary_def)
next
  case (node_leaf d rs)
  then show ?case by (simp add: trie_digest_leaf)
next
  case (node_interior d rs cs)
  then show ?case using make_interior_summary[of d rs cs C] by simp
qed

lemma holds_segment: "holds C S d c rs \<Longrightarrow> segment_ok d rs"
  by (erule holdsE) (auto dest: node_holds_ok)

lemma holds_empty_iff:
  assumes "holds C S d c rs"
  shows "child_empty c \<longleftrightarrow> rs = []" "rs = [] \<longleftrightarrow> c = empty_child"
proof -
  have "ch_count c = of_nat (length rs)"
    using holds_summary(1)[OF assms] by (simp add: child_summary_def trie_summary_def)
  then show "child_empty c \<longleftrightarrow> rs = []"
    using of_nat_length_eq_0[OF segment_okD(3)[OF holds_segment[OF assms]]] by (simp add: child_empty_def)
  show "rs = [] \<longleftrightarrow> c = empty_child"
  proof
    assume "rs = []"
    with assms show "c = empty_child" by (auto elim!: holds_NilE dest: node_holds_ok)
  next
    assume "c = empty_child"
    then show "rs = []" using \<open>child_empty c \<longleftrightarrow> rs = []\<close> by simp
  qed
qed

section \<open>A summary determines the records\<close>

text \<open>Every message whose digest the hash of a set of records is built from.\<close>

function digest_inputs :: "crypto \<Rightarrow> nat \<Rightarrow> Record list \<Rightarrow> Bytes set" where
  "digest_inputs C d rs =
     (if rs = [] then {}
      else if length rs \<le> leaf_max \<or> d \<ge> 32 then {leaf_bytes rs}
      else insert (interior_bytes (slot_summaries C d rs))
             (\<Union>i \<in> {0..<fanout}. digest_inputs C (d + 1) (slot d i rs)))"
  by pat_completeness auto
termination
  by (relation "measure (\<lambda>(_, d, _). 32 - d)") auto

declare digest_inputs.simps [simp del]

lemma slot_summaries_ok:
  assumes "crypto_ok C" "segment_ok d rs" "d < 32"
  shows "slots_ok (slot_summaries C d rs)"
proof -
  have "trie_summary C (d + 1) (slot d i rs) = Summary_0"
    if "sm_count (trie_summary C (d + 1) (slot d i rs)) = 0" for i
    using that of_nat_length_eq_0[OF segment_okD(3)[OF slot_segment[OF assms(2,3)]], of i]
    by (simp add: trie_summary_def Summary_0_def trie_digest_leaf leaf_digest_def)
  then show ?thesis
    by (auto simp: slots_ok_def slot_summaries_def list_all_iff trie_summary_def
        length_trie_digest[OF assms(1)])
qed

lemma trie_summary_inj:
  assumes "crypto_ok C" "segment_ok d rs" "segment_ok d rs'"
    and "inj_on (sha256 C) (digest_inputs C d rs \<union> digest_inputs C d rs')"
    and "trie_summary C d rs = trie_summary C d rs'"
  shows "rs = rs'"
  using assms(2-5)
proof (induction "32 - d" arbitrary: d rs rs' rule: less_induct)
  case less
  from less.prems(4) have "(of_nat (length rs) :: u64) = of_nat (length rs')"
    by (simp add: trie_summary_def)
  then have len: "length rs = length rs'"
    using unat_length_u64[OF segment_okD(3)[OF less.prems(1)]]
      unat_length_u64[OF segment_okD(3)[OF less.prems(2)]] by metis
  from less.prems(4) have dig: "trie_digest C d rs = trie_digest C d rs'"
    by (simp add: trie_summary_def)
  have ok: "list_all record_ok rs" "list_all record_ok rs'"
    using segment_okD(1)[OF less.prems(1)] segment_okD(1)[OF less.prems(2)]
    by (auto simp: records_ok_def)
  show ?case
  proof (cases "length rs \<le> leaf_max")
    case True
    show ?thesis
    proof (cases "rs = []")
      case False
      then have "rs' \<noteq> []" using len by auto
      then have "leaf_bytes rs \<in> digest_inputs C d rs" "leaf_bytes rs' \<in> digest_inputs C d rs'"
        using False True len by (simp_all add: digest_inputs.simps[of C d rs] digest_inputs.simps[of C d rs'])
      moreover have "sha256 C (leaf_bytes rs) = sha256 C (leaf_bytes rs')"
        using dig True len False \<open>rs' \<noteq> []\<close> by (simp add: trie_digest_leaf leaf_digest_def)
      ultimately have "leaf_bytes rs = leaf_bytes rs'"
        using less.prems(3) by (auto dest: inj_onD)
      then show ?thesis by (rule leaf_bytes_inj[OF ok])
    qed (use len in simp)
  next
    case False
    then have big: "leaf_max < length rs" "leaf_max < length rs'" using len by auto
    have d: "d < 32" using segment_interior_depth[OF less.prems(1) big(1)] by simp
    have ne: "rs \<noteq> []" "rs' \<noteq> []" using big by auto
    have in_: "digest_inputs C d zs = insert (interior_bytes (slot_summaries C d zs))
          (\<Union>i \<in> {0..<fanout}. digest_inputs C (d + 1) (slot d i zs))"
      if "leaf_max < length zs" for zs
      using that d by (subst digest_inputs.simps) auto
    have "interior_bytes (slot_summaries C d rs) = interior_bytes (slot_summaries C d rs')"
    proof (rule inj_onD[OF less.prems(3)])
      show "sha256 C (interior_bytes (slot_summaries C d rs)) = sha256 C (interior_bytes (slot_summaries C d rs'))"
        using dig trie_digest_interior[OF big(1) d, of C] trie_digest_interior[OF big(2) d, of C]
        by (simp add: interior_hash_bytes)
    qed (simp_all add: in_ big)
    then have eq: "slot_summaries C d rs = slot_summaries C d rs'"
      using interior_bytes_inj slot_summaries_ok[OF assms(1) less.prems(1) d]
        slot_summaries_ok[OF assms(1) less.prems(2) d] by blast
    have "slot d i rs = slot d i rs'" if i: "i < fanout" for i
    proof (rule less.hyps[of "d + 1"])
      show "inj_on (sha256 C) (digest_inputs C (d + 1) (slot d i rs) \<union> digest_inputs C (d + 1) (slot d i rs'))"
        using less.prems(3) by (rule inj_on_subset) (use i in \<open>auto simp: in_ big\<close>)
      show "trie_summary C (d + 1) (slot d i rs) = trie_summary C (d + 1) (slot d i rs')"
        using arg_cong[OF eq, of "\<lambda>xs. xs ! i"] i by (simp add: slot_summaries_def)
    qed (use d less.prems in \<open>auto intro: slot_segment[simplified]\<close>)
    then have eq': "map (\<lambda>i. slot d i rs) [0..<fanout] = map (\<lambda>i. slot d i rs') [0..<fanout]" by simp
    have "rs = concat (map (\<lambda>i. slot d i rs) [0..<fanout])"
      by (rule concat_slots[OF less.prems(1) d, symmetric])
    also have "\<dots> = rs'" unfolding eq' by (rule concat_slots[OF less.prems(2) d])
    finally show ?thesis .
  qed
qed

section \<open>Properties\<close>

text \<open>
  C19: Two tries with the same count and hash hold the same records. For any two children, in memory or
  saved in any node files, built in any order: when SHA-256 has no collision among the messages
  their hashes are made of and the children have equal count and hash, the records below them
  are equal.
\<close>

theorem equal_summary_equal_records:
  assumes "crypto_ok C" "holds C S d c rs" "holds C S' d c' rs'"
    and "inj_on (sha256 C) (digest_inputs C d rs \<union> digest_inputs C d rs')"
    and "ch_count c = ch_count c'" "ch_hash c = ch_hash c'"
  shows "rs = rs'"
proof (rule trie_summary_inj[OF assms(1) holds_segment[OF assms(2)] holds_segment[OF assms(3)] assms(4)])
  show "trie_summary C d rs = trie_summary C d rs'"
    using holds_summary(1)[OF assms(2)] holds_summary(1)[OF assms(3)] assms(5,6)
    by (simp add: child_summary_def)
qed

definition one_record :: "Record list" where
  "one_record = [(replicate 32 7, [1, 2])]"

lemma one_record_ok: "segment_ok d one_record"
  by (simp add: one_record_def segment_ok_def records_ok_def record_ok_def id_ok_def value_max_def
      same_prefix_def spread_def leaf_max_def)

definition one_leaf :: "crypto \<Rightarrow> Child" where
  "one_leaf C = child_of (Node 0 True one_record [] 1 (leaf_digest C one_record))"

lemma one_leaf_holds: "holds C S 0 (one_leaf C) one_record"
proof -
  have "node_holds C S 0 (Node 0 True one_record [] (of_nat (length one_record)) (leaf_digest C one_record))
      one_record"
    by (rule node_leaf) (simp_all add: one_record_ok, simp_all add: one_record_def leaf_max_def)
  then have "node_holds C S 0 (Node 0 True one_record [] 1 (leaf_digest C one_record)) one_record"
    by (simp add: one_record_def)
  from holds_node[OF this, of "Some (Node 0 True one_record [] 1 (leaf_digest C one_record))" unsaved 0]
  show ?thesis by (simp add: one_leaf_def child_of_def)
qed

theorem equal_summary_equal_records_witness:
  "holds plain_crypto (\<lambda>_ _. False) 0 (one_leaf plain_crypto) one_record \<and>
   holds plain_crypto (\<lambda>_ _. True) 0 (one_leaf plain_crypto) one_record \<and> one_record = one_record"
proof -
  have "inj_on (sha256 plain_crypto) (digest_inputs plain_crypto 0 one_record \<union> digest_inputs plain_crypto 0 one_record)"
    by (subst (1 2) digest_inputs.simps) (simp add: one_record_def leaf_max_def)
  from equal_summary_equal_records[OF plain_crypto_ok one_leaf_holds one_leaf_holds this refl refl]
  show ?thesis by (simp add: one_leaf_holds)
qed

end
