(* ===== verification/Trie_Reading.thy ===== *)
theory Trie_Reading
  imports Trie_Shape
begin

text \<open>
  The readers of the object ledger against their specification. A locale states what they rely on
  when they load a child; the trie and its snapshots are its two instances. In it: a lookup is a
  lookup in the list of records, \<open>collect\<close> is the next page in the order of ids, \<open>descend\<close> finds
  what is below a prefix; none of them runs out of fuel, reads past an id or throws.
\<close>

section \<open>Pages\<close>

lemma unat_byte: "unat (b :: u8) < fanout"
  using unsigned_less[of b] by (simp add: fanout_def)

text \<open>The records a page is taken from: those after \<open>after\<close> when it is bounded.\<close>

definition wanted :: "ObjectId option \<Rightarrow> bool \<Rightarrow> Record list \<Rightarrow> Record list" where
  "wanted after bounded rs = filter (\<lambda>r. bounded \<longrightarrow> the after < fst r) rs"

definition page_of :: "ObjectId option \<Rightarrow> bool \<Rightarrow> nat \<Rightarrow> Record list \<Rightarrow> Record list \<Rightarrow> Record list" where
  "page_of after bounded limit out rs = out @ take (limit - length out) (wanted after bounded rs)"

lemma collect_leaf_page: "collect_leaf after bounded limit out rs = page_of after bounded limit out rs"
proof (induction after bounded limit out rs rule: collect_leaf.induct)
  case (2 after bounded limit out r rs)
  show ?case
  proof (cases "length out \<ge> limit")
    case False
    then have "limit - length out = Suc (limit - Suc (length out))" by simp
    with False 2 show ?thesis by (auto simp: page_of_def wanted_def)
  qed (simp add: page_of_def)
qed (simp add: page_of_def wanted_def)

lemma take_concat_step:
  "(out @ take (m - length out) xs) @ take (m - length (out @ take (m - length out) xs)) ys =
    out @ take (m - length out) (xs @ ys)"
  by (simp add: min_def)

text \<open>The slots from the byte of \<open>after\<close> on have everything after it.\<close>

lemma wanted_slots:
  assumes "segment_ok d rs" "d < 32" "length a = 32" "\<And>r. r \<in> set rs \<Longrightarrow> take d (fst r) = take d a"
  shows "concat (map (\<lambda>i. wanted (Some a) (i = unat (a ! d)) (slot d i rs)) [unat (a ! d)..<fanout]) =
    wanted (Some a) True rs"
proof -
  let ?s = "unat (a ! d)"
  have s: "?s \<le> fanout" using unat_byte[of "a ! d"] by simp
  have id: "length (fst r) = 32" if "r \<in> set rs" for r
    using that records_ok_id[OF segment_okD(1)[OF assms(1)]] by simp
  have lo: "wanted (Some a) True (slot d i rs) = []" if "i < ?s" for i
  proof -
    have "\<not> a < fst r" if "r \<in> set (slot d i rs)" for r
    proof -
      have r: "r \<in> set rs" "fst r ! d < a ! d"
        using that \<open>i < ?s\<close> by (auto simp: slot_def word_less_nat_alt)
      have "fst r < a"
        by (rule less_first_difference[OF assms(4)[OF r(1)]]) (use r id[OF r(1)] assms(2,3) in auto)
      then show ?thesis by simp
    qed
    then show ?thesis by (simp add: wanted_def filter_empty_conv)
  qed
  have hi: "wanted (Some a) True (slot d i rs) = wanted (Some a) (i = ?s) (slot d i rs)" if "?s \<le> i" for i
  proof (cases "i = ?s")
    case False
    have "a < fst r" if "r \<in> set (slot d i rs)" for r
    proof -
      have r: "r \<in> set rs" "a ! d < fst r ! d"
        using that \<open>?s \<le> i\<close> False by (auto simp: slot_def word_less_nat_alt)
      show ?thesis
        by (rule less_first_difference[OF assms(4)[OF r(1), symmetric]])
           (use r id[OF r(1)] assms(2,3) in auto)
    qed
    then show ?thesis using False by (simp add: wanted_def)
  qed simp
  have "wanted (Some a) True rs = concat (map (\<lambda>i. wanted (Some a) True (slot d i rs)) [0..<fanout])"
    by (subst (1) concat_slots[OF assms(1,2), symmetric])
       (simp only: wanted_def filter_concat map_map o_def)
  also have "[0..<fanout] = [0..<?s] @ [?s..<fanout]" using s upt_add_eq_append[of 0 ?s "fanout - ?s"] by simp
  also have "concat (map (\<lambda>i. wanted (Some a) True (slot d i rs)) ([0..<?s] @ [?s..<fanout])) =
      concat (map (\<lambda>i. wanted (Some a) True (slot d i rs)) [?s..<fanout])"
    by (simp add: concat_eq_Nil_conv lo)
  also have "map (\<lambda>i. wanted (Some a) True (slot d i rs)) [?s..<fanout] =
      map (\<lambda>i. wanted (Some a) (i = ?s) (slot d i rs)) [?s..<fanout]"
    by (rule map_cong[OF refl]) (simp add: hi)
  finally show ?thesis by simp
qed

section \<open>Below a prefix\<close>

definition below :: "Prefix \<Rightarrow> Record list \<Rightarrow> Record list" where
  "below p rs = filter (\<lambda>r. covers p (fst r)) rs"

definition prefix_ok :: "Prefix \<Rightarrow> bool" where
  "prefix_ok p \<longleftrightarrow> length (px_bytes p) = 32 \<and> px_length p \<le> 32"

lemma covers_nth:
  assumes "prefix_ok p" "covers p i" "length i = 32" "d < px_length p"
  shows "i ! d = px_bytes p ! d"
  using assms by (metis covers_def nth_take)

text \<open>Going down by a byte of the prefix loses nothing below it.\<close>

lemma below_slot:
  assumes "prefix_ok p" "records_ok rs" "d < px_length p"
  shows "below p (slot d (unat (px_bytes p ! d)) rs) = below p rs"
proof -
  have "unat (fst r ! d) = unat (px_bytes p ! d)" if "r \<in> set rs" "covers p (fst r)" for r
    using covers_nth[OF assms(1) that(2) records_ok_id[OF assms(2) that(1)] assms(3)] by simp
  then show ?thesis by (auto simp: below_def slot_def intro!: filter_cong)
qed

lemma below_all:
  assumes "\<And>r. r \<in> set rs \<Longrightarrow> take (px_length p) (fst r) = take (px_length p) (px_bytes p)"
  shows "below p rs = rs"
  using assms by (simp add: below_def covers_def)

text \<open>
  What \<open>descend\<close> finds: nothing when nothing is below the prefix, else a node that has everything
  below it, which is a leaf or stands exactly at the prefix.
\<close>

definition found_below :: "crypto \<Rightarrow> (nat \<Rightarrow> Bytes \<Rightarrow> bool) \<Rightarrow> Prefix \<Rightarrow> Record list \<Rightarrow> Node option \<Rightarrow> bool" where
  "found_below C S p rs found \<longleftrightarrow>
     (case found of
        None \<Rightarrow> below p rs = []
      | Some n \<Rightarrow> \<exists>d rs'. node_holds C S d n rs' \<and> below p rs' = below p rs \<and>
          (nd_leaf n \<or> d = px_length p \<and> rs' = below p rs))"

section \<open>What the readers rely on\<close>

lemma enough_fuel: "33 \<le> load_fuel + d"
  by (simp add: load_fuel_def)

locale trie_loader =
  fixes C :: crypto
    and S :: "nat \<Rightarrow> Bytes \<Rightarrow> bool"
    and good :: "'s \<Rightarrow> bool"
    and load :: "Child \<Rightarrow> ('s, Node) prog"
  assumes load_holds: "good s \<Longrightarrow> holds C S d c rs \<Longrightarrow> rs \<noteq> [] \<Longrightarrow>
    \<exists>n s'. load c s = (Inr n, s') \<and> good s' \<and> node_holds C S d n rs \<and>
      (ch_node c = None \<or> ch_node c = Some n)"
begin

lemma loadE:
  assumes "good s" "holds C S d c rs" "rs \<noteq> []"
  obtains n s' where "load c s = (Inr n, s')" "good s'" "node_holds C S d n rs"
  using load_holds[OF assms] by blast

lemma find_leaf:
  assumes "records_ok rs"
  shows "lower_bound_find i rs = map_of rs i"
  using assms
proof (induction rs)
  case (Cons r rs)
  have ok: "records_ok rs" and lt: "\<forall>r' \<in> set rs. fst r < fst r'"
    using Cons.prems by (auto simp: records_ok_def)
  note IH = Cons.IH[OF ok]
  consider "fst r < i" | "fst r = i" | "i < fst r" by force
  then show ?case
  proof cases
    case 1
    then show ?thesis using IH by (cases r) (auto simp: lower_bound_find_def)
  next
    case 2
    then show ?thesis by (cases r) (simp add: lower_bound_find_def)
  next
    case 3
    then have "map_of rs i = None" using lt by (force simp: map_of_eq_None_iff)
    with 3 show ?thesis by (cases r) (auto simp: lower_bound_find_def)
  qed
qed (simp add: lower_bound_find_def)

lemma map_of_slot: "map_of (slot d (unat (i ! d)) rs) i = map_of rs i"
  unfolding slot_def by (induction rs) (auto simp: word_unat_eq_iff)

lemma find_loop_holds:
  assumes "good s" "node_holds C S d n rs" "33 \<le> fuel + d"
  shows "\<exists>s'. find_loop fuel load i n s = (Inr (map_of rs i), s') \<and> good s'"
  using assms
proof (induction fuel arbitrary: s d n rs)
  case 0
  then show ?case using node_holds_ok[of C S d n rs] by simp
next
  case (Suc fuel)
  from Suc.prems(2) show ?case
  proof (cases rule: node_holds.cases)
    case node_leaf
    then show ?thesis using Suc.prems(1) by (simp add: find_leaf segment_okD(1))
  next
    case (node_interior cs)
    let ?b = "unat (i ! d)"
    have b: "?b < fanout" by (rule unat_byte)
    have h: "holds C S (d + 1) (cs ! ?b) (slot d ?b rs)" by (rule node_interior(5)[OF b])
    show ?thesis
    proof (cases "slot d ?b rs = []")
      case True
      then have "map_of rs i = None" using map_of_slot[of d i rs] by simp
      with True holds_empty_iff(1)[OF h] Suc.prems(1) node_interior(1) show ?thesis
        by (simp add: make_interior_def Let_def)
    next
      case False
      from loadE[OF Suc.prems(1) h False] obtain m s1 where
        m: "load (cs ! ?b) s = (Inr m, s1)" "good s1" "node_holds C S (d + 1) m (slot d ?b rs)" .
      from Suc.IH[OF m(2,3)] Suc.prems(3) obtain s' where
        "find_loop fuel load i m s1 = (Inr (map_of (slot d ?b rs) i), s')" "good s'" by auto
      with False m(1) holds_empty_iff(1)[OF h] node_interior(1) show ?thesis
        by (simp add: make_interior_def Let_def bindM_def map_of_slot)
    qed
  qed
qed

lemma find_holds:
  assumes "good s" "holds C S d c rs"
  shows "\<exists>s'. trie_find c i load s = (Inr (map_of rs i), s') \<and> good s'"
proof (cases "rs = []")
  case True
  with assms show ?thesis by (simp add: trie_find_def holds_empty_iff(1)[OF assms(2)])
next
  case False
  from loadE[OF assms False] obtain n s1 where
    n: "load c s = (Inr n, s1)" "good s1" "node_holds C S d n rs" .
  from find_loop_holds[OF n(2,3), of load_fuel i] obtain s' where
    "find_loop load_fuel load i n s1 = (Inr (map_of rs i), s')" "good s'"
    using enough_fuel[of d] by auto
  with False n(1) show ?thesis
    by (simp add: trie_find_def holds_empty_iff(1)[OF assms(2)] bindM_def)
qed

lemma foldM_pages:
  assumes "good s"
    "\<And>i s out. i \<in> set is \<Longrightarrow> good s \<Longrightarrow>
      \<exists>s'. f out i s = (Inr (out @ take (limit - length out) (w i)), s') \<and> good s'"
  shows "\<exists>s'. foldM f out is s = (Inr (out @ take (limit - length out) (concat (map w is))), s') \<and> good s'"
  using assms
proof (induction "is" arbitrary: out s)
  case (Cons i "is")
  obtain s1 where 1: "f out i s = (Inr (out @ take (limit - length out) (w i)), s1)" "good s1"
    using Cons.prems by fastforce
  from Cons.IH[OF 1(2), of "out @ take (limit - length out) (w i)"] Cons.prems(2) obtain s' where
    "foldM f (out @ take (limit - length out) (w i)) is s1 =
      (Inr (out @ take (limit - length out) (w i @ concat (map w is))), s')" "good s'"
    unfolding take_concat_step by auto
  with 1(1) show ?case by (simp add: bindM_def)
qed simp

lemma collect_holds:
  assumes "good s" "holds C S d c rs" "34 \<le> fuel + d" "d \<le> 32"
    "bounded \<Longrightarrow> \<exists>a. after = Some a \<and> length a = 32 \<and> (\<forall>r \<in> set rs. take d (fst r) = take d a)"
  shows "\<exists>s'. collect fuel c after bounded limit out load s =
    (Inr (page_of after bounded limit out rs), s') \<and> good s'"
  using assms
proof (induction fuel arbitrary: s d c rs bounded out)
  case (Suc fuel)
  show ?case
  proof (cases "rs = [] \<or> limit \<le> length out")
    case True
    with Suc.prems(1) holds_empty_iff(1)[OF Suc.prems(2)] show ?thesis
      by (auto simp: page_of_def wanted_def)
  next
    case False
    from loadE[OF Suc.prems(1,2)] False obtain n s1 where
      n: "load c s = (Inr n, s1)" "good s1" "node_holds C S d n rs" by blast
    have go: "\<not> child_empty c" using False holds_empty_iff(1)[OF Suc.prems(2)] by simp
    from n(3) show ?thesis
    proof (cases rule: node_holds.cases)
      case node_leaf
      with False n(1,2) go show ?thesis by (simp add: bindM_def collect_leaf_page)
    next
      case (node_interior cs)
      define start where "start = (if bounded then unat (the after ! d) else 0)"
      define w where "w i = wanted after (bounded \<and> i = start) (slot d i rs)" for i
      have d: "d < 32" using node_holds_ok[OF n(3)] by simp
      define f where "f out i = (if length out < limit
        then collect fuel (cs ! i) after (bounded \<and> i = start) limit out load else retM out)" for out i
      have step: "\<exists>s'. f out i t =
          (Inr (out @ take (limit - length out) (w i)), s') \<and> good s'"
        if i: "i \<in> set [start..<fanout]" and t: "good t" for i t out
      proof (cases "length out < limit")
        case True
        have "\<exists>a. after = Some a \<and> length a = 32 \<and>
            (\<forall>r \<in> set (slot d i rs). take (d + 1) (fst r) = take (d + 1) a)" if "bounded \<and> i = start"
        proof -
          from Suc.prems(5) that obtain a where a: "after = Some a" "length a = 32"
            "\<And>r. r \<in> set rs \<Longrightarrow> take d (fst r) = take d a" by auto
          have "take (d + 1) (fst r) = take (d + 1) a" if "r \<in> set (slot d i rs)" for r
          proof -
            have "r \<in> set rs" "fst r ! d = a ! d"
              using that \<open>bounded \<and> i = start\<close> a(1) by (auto simp: slot_def start_def word_unat_eq_iff)
            moreover have "length (fst r) = 32"
              using calculation(1) records_ok_id[OF segment_okD(1)[OF node_interior(2)]] by simp
            ultimately show ?thesis using a(2) a(3)[of r] d by (simp add: take_Suc_conv_app_nth)
          qed
          with a show ?thesis by blast
        qed
        then have "\<exists>s'. collect fuel (cs ! i) after (bounded \<and> i = start) limit out load t =
            (Inr (page_of after (bounded \<and> i = start) limit out (slot d i rs)), s') \<and> good s'"
          using Suc.prems(3) d i by (intro Suc.IH[OF t node_interior(5)]) auto
        with True show ?thesis by (simp add: page_of_def w_def f_def)
      qed (use t in \<open>simp add: f_def\<close>)
      have "concat (map w [start..<fanout]) = wanted after bounded rs"
      proof (cases bounded)
        case True
        then obtain a where a: "after = Some a" "length a = 32" "\<And>r. r \<in> set rs \<Longrightarrow> take d (fst r) = take d a"
          using Suc.prems(5) by auto
        show ?thesis using True a(1) wanted_slots[OF node_interior(2) d a(2,3)]
          unfolding w_def start_def by simp
      next
        case False
        then have "w = (\<lambda>i. slot d i rs)" by (auto simp: w_def wanted_def)
        with False show ?thesis using concat_slots[OF node_interior(2) d]
          by (simp add: start_def wanted_def)
      qed
      moreover have "collect (Suc fuel) c after bounded limit out load s = foldM f out [start..<fanout] s1"
      proof -
        have nd: "nd_children n = cs" "nd_depth n = d" "\<not> nd_leaf n"
          using node_interior(1) by (simp_all add: make_interior_def)
        show ?thesis unfolding f_def[abs_def] start_def
          using n(1) go False nd by (simp add: bindM_def Let_def cong: if_cong)
      qed
      moreover have "\<exists>s'. foldM f out [start..<fanout] s1 =
          (Inr (out @ take (limit - length out) (concat (map w [start..<fanout]))), s') \<and> good s'"
        by (rule foldM_pages[OF n(2)]) (rule step)
      ultimately show ?thesis by (simp add: page_of_def)
    qed
  qed
qed simp

lemma descend_loop_holds:
  assumes "good s" "node_holds C S d n rs" "33 \<le> fuel + d" "prefix_ok p" "d \<le> px_length p"
    "\<And>r. r \<in> set rs \<Longrightarrow> take d (fst r) = take d (px_bytes p)"
  shows "\<exists>found s'. descend_loop fuel p load n s = (Inr found, s') \<and> good s' \<and> found_below C S p rs found"
  using assms
proof (induction fuel arbitrary: s d n rs)
  case 0
  then show ?case using node_holds_ok[of C S d n rs] by simp
next
  case (Suc fuel)
  have depth: "nd_depth n = d" using node_holds_ok[OF Suc.prems(2)] by simp
  show ?case
  proof (cases "nd_leaf n \<or> \<not> d < px_length p")
    case True
    have "below p rs = rs" if "\<not> d < px_length p"
      using that Suc.prems(5) below_all[of rs p] Suc.prems(6) by (metis le_antisym not_less)
    with True Suc.prems(1,2,5) depth show ?thesis
      by (auto simp: found_below_def intro!: exI[of _ d] exI[of _ rs])
  next
    case False
    from Suc.prems(2) False obtain cs where cs: "nd_children n = cs" "segment_ok d rs"
      "\<And>i. i < fanout \<Longrightarrow> holds C S (d + 1) (cs ! i) (slot d i rs)"
      by (auto elim!: node_holdsE simp: make_interior_def)
    let ?b = "unat (px_bytes p ! d)"
    have h: "holds C S (d + 1) (cs ! ?b) (slot d ?b rs)" by (rule cs(3)[OF unat_byte])
    have d: "d < px_length p" "d < 32" using False Suc.prems(4) by (auto simp: prefix_ok_def)
    have same: "below p (slot d ?b rs) = below p rs"
      by (rule below_slot[OF Suc.prems(4) segment_okD(1)[OF cs(2)] d(1)])
    show ?thesis
    proof (cases "slot d ?b rs = []")
      case True
      then have "below p rs = []" using same by (simp add: below_def)
      with True False depth cs(1) Suc.prems(1) holds_empty_iff(1)[OF h] show ?thesis
        by (simp add: found_below_def Let_def)
    next
      case nonempty: False
      from loadE[OF Suc.prems(1) h nonempty] obtain m s1 where
        m: "load (cs ! ?b) s = (Inr m, s1)" "good s1" "node_holds C S (d + 1) m (slot d ?b rs)" .
      have pre: "take (d + 1) (fst r) = take (d + 1) (px_bytes p)" if "r \<in> set (slot d ?b rs)" for r
      proof -
        have r: "r \<in> set rs" "fst r ! d = px_bytes p ! d"
          using that by (auto simp: slot_def word_unat_eq_iff)
        have "length (fst r) = 32" by (rule records_ok_id[OF segment_okD(1)[OF cs(2)] r(1)])
        with r Suc.prems(4) Suc.prems(6)[OF r(1)] d show ?thesis
          by (simp add: take_Suc_conv_app_nth prefix_ok_def)
      qed
      from Suc.IH[OF m(2,3) _ Suc.prems(4) _ pre] Suc.prems(3) d obtain found s' where
        "descend_loop fuel p load m s1 = (Inr found, s')" "good s'" "found_below C S p (slot d ?b rs) found"
        by auto
      moreover from calculation(3) have "found_below C S p rs found"
        unfolding found_below_def same .
      ultimately show ?thesis using m(1) nonempty False depth cs(1) holds_empty_iff(1)[OF h]
        by (simp add: bindM_def Let_def)
    qed
  qed
qed

lemma descend_holds:
  assumes "good s" "holds C S 0 c rs" "prefix_ok p"
  shows "\<exists>found s'. descend c p load s = (Inr found, s') \<and> good s' \<and> found_below C S p rs found"
proof (cases "rs = []")
  case True
  with assms(1) holds_empty_iff(1)[OF assms(2)] show ?thesis
    by (simp add: descend_def found_below_def below_def)
next
  case False
  from loadE[OF assms(1,2) False] obtain n s1 where
    n: "load c s = (Inr n, s1)" "good s1" "node_holds C S 0 n rs" .
  from descend_loop_holds[OF n(2,3) enough_fuel assms(3)] False n(1) holds_empty_iff(1)[OF assms(2)]
  show ?thesis by (simp add: descend_def bindM_def)
qed

end

section \<open>The cache\<close>

text \<open>
  \<open>F generation\<close> is what the node file of a generation holds. A cache is coherent when each of its
  nodes is the one its file has at its offset.
\<close>

type_synonym node_files = "u64 \<Rightarrow> nat \<Rightarrow> Bytes \<Rightarrow> bool"

definition stored_node :: "crypto \<Rightarrow> (nat \<Rightarrow> Bytes \<Rightarrow> bool) \<Rightarrow> u64 \<Rightarrow> Node \<Rightarrow> bool" where
  "stored_node C S off n \<longleftrightarrow> (\<exists>bytes. S (unat off) bytes \<and> decode C bytes False = Inr n)"

definition cache_coherent :: "crypto \<Rightarrow> node_files \<Rightarrow> Node NodeCache \<Rightarrow> bool" where
  "cache_coherent C F cache \<longleftrightarrow> cache_inv cache \<and>
     (\<forall>g off cd. ((g, off), cd) \<in> set (nc_entries cache) \<longrightarrow> stored_node C (F g) off (cd_node cd))"

lemma cache_coherent_new: "cache_coherent C F (NodeCache_new b)"
  by (simp add: cache_coherent_def cache_inv_new) (simp add: NodeCache_new_def)

lemma cache_coherent_mono:
  assumes "cache_coherent C F cache" "\<And>g off bytes. F g off bytes \<Longrightarrow> F' g off bytes"
  shows "cache_coherent C F' cache"
  using assms unfolding cache_coherent_def stored_node_def by blast

lemma cache_coherent_find:
  assumes "cache_coherent C F cache" "cache_find g off cache = (r, cache')"
  shows "cache_coherent C F cache'" "\<And>n. r = Some n \<Longrightarrow> stored_node C (F g) off n"
proof -
  have inv: "cache_inv cache" using assms(1) by (simp add: cache_coherent_def)
  note f = cache_find_inv[OF inv assms(2)]
  show "cache_coherent C F cache'" using assms(1) f(1,2) by (simp add: cache_coherent_def)
  show "stored_node C (F g) off n" if "r = Some n" for n
    using assms(1) that f(3) unfolding cache_coherent_def by (auto dest: map_of_SomeD)
qed

lemma cache_coherent_insert:
  assumes "cache_coherent C F cache" "stored_node C (F g) off n"
  shows "cache_coherent C F (cache_insert g off n b cache)"
proof -
  have "cache_inv (cache_insert g off n b cache)"
    using assms(1) by (simp add: cache_coherent_def cache_insert_inv)
  moreover have "stored_node C (F g') off' (cd_node cd)"
    if "((g', off'), cd) \<in> set (nc_entries (cache_insert g off n b cache))" for g' off' cd
    using subsetD[OF cache_insert_entries that] assms unfolding cache_coherent_def by auto
  ultimately show ?thesis unfolding cache_coherent_def by blast
qed

section \<open>Loading a child\<close>

lemma load_from_holds:
  assumes "cache_coherent C F cache" "holds C (F g) d c rs" "rs \<noteq> []"
    and read: "\<And>off bytes. F g (unat off) bytes \<Longrightarrow> read off = Inr bytes"
  shows "\<exists>n cache'. load_from C footprint c g read False cache = (Inr n, cache') \<and>
    cache_coherent C F cache' \<and> node_holds C (F g) d n rs \<and> (ch_node c = None \<or> ch_node c = Some n) \<and>
    (ch_offset c \<noteq> unsaved \<longrightarrow> stored_node C (F g) (ch_offset c) n)"
proof -
  obtain off sz n m where
    c: "c = Child off sz (nd_count n) (nd_hash n) m" and n: "node_holds C (F g) d n rs"
    and m: "m = Some n \<or> m = None \<and> off \<noteq> unsaved"
    and st': "off \<noteq> unsaved \<longrightarrow> stored_node C (F g) off n"
    unfolding stored_node_def by (rule holds_nodeE[OF assms(2,3)])
  from st' have st: "off \<noteq> unsaved \<Longrightarrow> stored_node C (F g) off n" ..
  show ?thesis
  proof (cases "m = Some n")
    case True
    with c n assms(1) st' show ?thesis by (simp add: load_from_def)
  next
    case False
    with m have m: "m = None" and off: "off \<noteq> unsaved" by auto
    have ne: "\<not> child_empty c" using holds_empty_iff(1)[OF assms(2)] assms(3) by simp
    from st[OF off] obtain bytes where b: "F g (unat off) bytes" "decode C bytes False = Inr n"
      by (auto simp: stored_node_def)
    obtain r cache1 where f: "cache_find g off cache = (r, cache1)" by fastforce
    note co = cache_coherent_find[OF assms(1) f]
    show ?thesis
    proof (cases r)
      case None
      have "cache_coherent C F (cache_insert g off n (footprint n) cache1)"
        by (rule cache_coherent_insert[OF co(1) st[OF off]])
      with None c m off ne f b read[OF b(1)] n st' show ?thesis
        by (simp add: load_from_def bindM_def)
    next
      case (Some n')
      from co(2)[OF Some] obtain bytes' where b': "F g (unat off) bytes'" "decode C bytes' False = Inr n'"
        by (auto simp: stored_node_def)
      have "n' = n" using read[OF b(1)] read[OF b'(1)] b(2) b'(2) by simp
      with Some c m off ne f n co(1) st' show ?thesis by (simp add: load_from_def bindM_def)
    qed
  qed
qed

section \<open>The trie and its snapshots\<close>

definition trie_ready :: "node_files \<Rightarrow> ObjectTrie \<Rightarrow> bool" where
  "trie_ready F t \<longleftrightarrow> journal_ok (ot_nodes t) \<and> \<not> ot_format1 t \<and>
     F (ot_generation t) = frame_at (ot_nodes t)"

text \<open>The states a trie is in while it only reads: nothing but the cache and an account differ.\<close>

definition trie_reading :: "node_files \<Rightarrow> ObjectTrie \<Rightarrow> ObjectTrie \<Rightarrow> bool" where
  "trie_reading F t0 t \<longleftrightarrow> trie_ready F t0 \<and>
     t = t0\<lparr>ot_cache := ot_cache t, ot_superseded_bytes := ot_superseded_bytes t\<rparr> \<and>
     cache_coherent (ot_crypto t0) F (ot_cache t)"

lemma trie_readingD:
  assumes "trie_reading F t0 t"
  shows "ot_crypto t = ot_crypto t0" "ot_nodes t = ot_nodes t0" "ot_generation t = ot_generation t0"
    "ot_footprint t = ot_footprint t0" "ot_format1 t = ot_format1 t0" "ot_root t = ot_root t0"
proof -
  have eq: "t = t0\<lparr>ot_cache := ot_cache t, ot_superseded_bytes := ot_superseded_bytes t\<rparr>"
    using assms unfolding trie_reading_def by blast
  show "ot_crypto t = ot_crypto t0" "ot_nodes t = ot_nodes t0" "ot_generation t = ot_generation t0"
    "ot_footprint t = ot_footprint t0" "ot_format1 t = ot_format1 t0" "ot_root t = ot_root t0"
    by (subst eq, simp)+
qed

lemma trie_reading_cache:
  assumes "trie_reading F t0 t" "cache_coherent (ot_crypto t0) F cache"
  shows "trie_reading F t0 (t\<lparr>ot_cache := cache\<rparr>)"
proof -
  have eq: "t = t0\<lparr>ot_cache := ot_cache t, ot_superseded_bytes := ot_superseded_bytes t\<rparr>"
    using assms unfolding trie_reading_def by blast
  have "t\<lparr>ot_cache := cache\<rparr> = t0\<lparr>ot_cache := cache, ot_superseded_bytes := ot_superseded_bytes t\<rparr>"
    by (subst eq) simp
  with assms show ?thesis by (simp add: trie_reading_def)
qed

lemma trie_load_holds:
  assumes t: "trie_reading F t0 t" and h: "holds (ot_crypto t0) (F (ot_generation t0)) d c rs" "rs \<noteq> []"
  shows "\<exists>n t'. trie_load c t = (Inr n, t') \<and> trie_reading F t0 t' \<and>
      node_holds (ot_crypto t0) (F (ot_generation t0)) d n rs \<and> (ch_node c = None \<or> ch_node c = Some n) \<and>
      (ch_offset c \<noteq> unsaved \<longrightarrow> stored_node (ot_crypto t0) (F (ot_generation t0)) (ch_offset c) n)"
proof -
  have co: "cache_coherent (ot_crypto t0) F (ot_cache t)" using t by (simp add: trie_reading_def)
  have rd: "journal_read_at (ot_nodes t) (unat off) = Inr bytes"
    if "F (ot_generation t0) (unat off) bytes" for off :: u64 and bytes
    using that t trie_readingD(2)[OF t] by (simp add: trie_reading_def trie_ready_def read_at_frame)
  from load_from_holds[OF co h, where read = "\<lambda>off. journal_read_at (ot_nodes t) (unat off)" and
      footprint = "ot_footprint t0", OF rd] obtain n cache' where
    n: "load_from (ot_crypto t0) (ot_footprint t0) c (ot_generation t0)
          (\<lambda>off. journal_read_at (ot_nodes t) (unat off)) False (ot_cache t) = (Inr n, cache')"
    "cache_coherent (ot_crypto t0) F cache'" "node_holds (ot_crypto t0) (F (ot_generation t0)) d n rs"
    "ch_node c = None \<or> ch_node c = Some n"
    "ch_offset c \<noteq> unsaved \<longrightarrow> stored_node (ot_crypto t0) (F (ot_generation t0)) (ch_offset c) n" by blast
  have "\<not> ot_format1 t0" using t by (simp add: trie_reading_def trie_ready_def)
  with n(1) have "trie_load c t = (Inr n, t\<lparr>ot_cache := cache'\<rparr>)"
    by (simp add: trie_load_def zoomM_apply trie_readingD[OF t])
  moreover have "trie_reading F t0 (t\<lparr>ot_cache := cache'\<rparr>)"
    by (rule trie_reading_cache[OF t n(2)])
  ultimately show ?thesis using n(3,4,5) by blast
qed

interpretation trie_reader: trie_loader "ot_crypto t0" "F (ot_generation t0)" "trie_reading F t0" trie_load
  for F t0
  by unfold_locales (use trie_load_holds in blast)

text \<open>A reader that supersedes nothing changes the cache alone.\<close>

definition trie_cached :: "node_files \<Rightarrow> ObjectTrie \<Rightarrow> ObjectTrie \<Rightarrow> bool" where
  "trie_cached F t0 t \<longleftrightarrow> trie_reading F t0 t \<and> t = t0\<lparr>ot_cache := ot_cache t\<rparr>"

lemma trie_cached_self: "trie_reading F t t \<Longrightarrow> trie_cached F t t"
  by (simp add: trie_cached_def)

lemma trie_cachedE:
  assumes "trie_cached F t0 t"
  obtains cache where "t = t0\<lparr>ot_cache := cache\<rparr>" "trie_reading F t0 (t0\<lparr>ot_cache := cache\<rparr>)"
  using assms unfolding trie_cached_def by metis

interpretation trie_cacher: trie_loader "ot_crypto t0" "F (ot_generation t0)" "trie_cached F t0" trie_load
  for F t0
proof unfold_locales
  fix s d c rs
  assume s: "trie_cached F t0 s" and h: "holds (ot_crypto t0) (F (ot_generation t0)) d c rs" "rs \<noteq> []"
  from s obtain cache where eq: "s = t0\<lparr>ot_cache := cache\<rparr>" and r: "trie_reading F t0 s" by (auto elim: trie_cachedE)
  obtain n t' where n: "trie_load c s = (Inr n, t')" "trie_reading F t0 t'"
    "node_holds (ot_crypto t0) (F (ot_generation t0)) d n rs" "ch_node c = None \<or> ch_node c = Some n"
    using trie_load_holds[OF r h] by blast
  have "t' = s\<lparr>ot_cache := ot_cache t'\<rparr>" using n(1) by (auto simp: trie_load_def zoomM_apply split: prod.splits)
  then have "t' = t0\<lparr>ot_cache := ot_cache t'\<rparr>" unfolding eq by simp
  with n show "\<exists>n s'. trie_load c s = (Inr n, s') \<and> trie_cached F t0 s' \<and>
      node_holds (ot_crypto t0) (F (ot_generation t0)) d n rs \<and> (ch_node c = None \<or> ch_node c = Some n)"
    unfolding trie_cached_def by blast
qed

end
