(* ===== verification/Trie_Snapshot.thy ===== *)
theory Trie_Snapshot
  imports Trie_Reading
begin

text \<open>
  The reads of a trie and of its snapshots as functions of the records they hold: a lookup, the
  next page, the summaries of the 256 subtrees below a prefix and the records below it. A
  snapshot reads the node file as it was, through the cache it shares with its trie.
\<close>

section \<open>The subtrees below a prefix\<close>

lemma records_ok_sorted: "records_ok rs \<Longrightarrow> sorted_wrt (\<lambda>r r'. fst r < fst r') rs"
  by (simp add: records_ok_def sorted_wrt_map)

text \<open>The ids below a prefix stand together.\<close>

lemma covers_between:
  assumes "covers p a" "covers p c" "a \<le> b" "b \<le> c"
  shows "covers p b"
proof -
  have "take (px_length p) a \<le> take (px_length p) b" "take (px_length p) b \<le> take (px_length p) c"
    using assms(3,4) by (auto intro: take_mono_list)
  with assms(1,2) show ?thesis by (simp add: covers_def)
qed

lemma below_interval:
  assumes "records_ok rs"
  obtains a b where "rs = a @ below p rs @ b" "\<forall>r \<in> set a \<union> set b. \<not> covers p (fst r)"
proof -
  let ?out = "\<lambda>r. \<not> covers p (fst r)" and ?in = "\<lambda>r. covers p (fst r)"
  define a where "a = takeWhile ?out rs"
  define m where "m = takeWhile ?in (dropWhile ?out rs)"
  define b where "b = dropWhile ?in (dropWhile ?out rs)"
  have rs: "rs = a @ m @ b" by (simp add: a_def m_def b_def)
  have a: "\<forall>r \<in> set a. ?out r" and m: "\<forall>r \<in> set m. ?in r"
    by (auto simp: a_def m_def dest: set_takeWhileD)
  have b: "\<not> ?in r" if r: "r \<in> set b" for r
  proof (cases b)
    case (Cons y ys)
    have y: "\<not> ?in y" using Cons b_def by (metis hd_dropWhile list.distinct(1) list.sel(1))
    show ?thesis
    proof (cases "m = []")
      case True
      then have "dropWhile ?out rs = y # ys" using Cons by (metis b_def m_def append_Nil takeWhile_dropWhile_id)
      then have "?in y" by (metis hd_dropWhile list.distinct(1) list.sel(1))
      with y show ?thesis by simp
    next
      case False
      have "sorted_wrt (\<lambda>r r'. fst r < fst r') (a @ m @ b)" using records_ok_sorted[OF assms] rs by metis
      then have "fst (hd m) < fst y" "r = y \<or> fst y < fst r"
        using False r Cons by (auto simp: sorted_wrt_append)
      then have le: "fst (hd m) \<le> fst y" "fst y \<le> fst r" by auto
      show ?thesis
      proof
        assume "?in r"
        from covers_between[OF _ this le] m False have "?in y" by simp
        with y show False by simp
      qed
    qed
  qed (use r in simp)
  have eq: "below p rs = m"
    unfolding below_def by (subst rs) (use a b m in \<open>simp add: filter_empty_conv\<close>)
  show ?thesis
  proof (rule that[of a b])
    show "rs = a @ below p rs @ b" unfolding eq by (rule rs)
    show "\<forall>r \<in> set a \<union> set b. \<not> covers p (fst r)" using a b by blast
  qed
qed

definition slot_key :: "Prefix \<Rightarrow> Record \<Rightarrow> u8 option" where
  "slot_key p r = (if covers p (fst r) then Some (fst r ! px_length p) else None)"

definition store_group :: "crypto \<Rightarrow> Summary list \<Rightarrow> u8 option \<times> Record list \<Rightarrow> Summary list result" where
  "store_group C out grp =
     (case fst grp of
        None \<Rightarrow> Inr out
      | Some byte \<Rightarrow>
          bindR (leaf_hash C (snd grp)) (\<lambda>h.
            Inr (out[unat byte := \<lparr>sm_count = of_nat (length (snd grp)), sm_hash = h\<rparr>])))"

lemma leaf_children_fold:
  "leaf_children C p rs = foldR (store_group C) (replicate fanout Summary_0) (runs (slot_key p) rs)"
  by (simp add: leaf_children_def store_group_def[abs_def] slot_key_def[abs_def])

lemma foldR_append: "foldR f acc (xs @ ys) = bindR (foldR f acc xs) (\<lambda>acc'. foldR f acc' ys)"
  by (induction xs arbitrary: acc) (auto simp: bindR_def split: sum.splits)

lemma store_none:
  assumes "\<forall>r \<in> set a. slot_key p r = None"
  shows "foldR (store_group C) out (runs (slot_key p) a) = Inr out"
proof (cases "a = []")
  case False
  from runs_constant[OF False assms] show ?thesis by (simp add: store_group_def)
qed simp

lemma store_around:
  assumes "\<forall>r \<in> set a \<union> set b. slot_key p r = None" "\<forall>r \<in> set m. slot_key p r \<noteq> None"
  shows "foldR (store_group C) out (runs (slot_key p) (a @ m @ b)) =
    foldR (store_group C) out (runs (slot_key p) m)"
proof (cases "m = []")
  case True
  then show ?thesis using store_none[of "a @ b"] assms(1) by auto
next
  case False
  have "foldR (store_group C) out (runs (slot_key p) (a @ m @ b)) =
      foldR (store_group C) out (runs (slot_key p) (m @ b))" for out
  proof (cases "a = []")
    case ne: False
    have "slot_key p (last a) = None" "slot_key p (hd (m @ b)) \<noteq> None" using assms ne False by auto
    then have "slot_key p (last a) \<noteq> slot_key p (hd (m @ b))" by metis
    then have "runs (slot_key p) (a @ m @ b) = runs (slot_key p) a @ runs (slot_key p) (m @ b)"
      using ne False by (intro runs_append) auto
    then show ?thesis using store_none[of a p C out] assms(1) by (simp add: foldR_append)
  qed simp
  moreover have "foldR (store_group C) out (runs (slot_key p) (m @ b)) =
      foldR (store_group C) out (runs (slot_key p) m)"
  proof (cases "b = []")
    case ne: False
    have "slot_key p (hd b) = None" "slot_key p (last m) \<noteq> None" using assms ne False by auto
    then have "slot_key p (last m) \<noteq> slot_key p (hd b)" by metis
    then have "runs (slot_key p) (m @ b) = runs (slot_key p) m @ runs (slot_key p) b"
      using ne False by (intro runs_append) auto
    moreover have "bindR r (\<lambda>acc. foldR (store_group C) acc (runs (slot_key p) b)) = r" for r
      using store_none[of b p C] assms(1) by (cases r) auto
    ultimately show ?thesis by (simp add: foldR_append)
  qed simp
  ultimately show ?thesis by simp
qed

lemma below_segment:
  assumes "ledger_ok rs" "px_length p \<le> 32"
  shows "segment_ok (px_length p) (below p rs)"
proof -
  have "records_ok (below p rs)" "spread (below p rs)"
    using assms(1) by (simp_all add: below_def records_ok_filter spread_filter segment_okD)
  moreover have "length (below p rs) < 2 ^ 64"
    using segment_okD(3)[OF assms(1)] le_less_trans[OF length_filter_le] by (simp add: below_def)
  moreover have "same_prefix (px_length p) (below p rs)"
    unfolding same_prefix_def below_def covers_def by simp
  ultimately show ?thesis by (simp add: segment_ok_def)
qed

lemma Summary_0_trie: "trie_summary C d [] = Summary_0"
  by (simp add: trie_summary_def Summary_0_def trie_digest_leaf leaf_digest_def)

text \<open>Grouping a sorted run of records by one byte and hashing each group.\<close>

lemma store_runs_ok:
  assumes "segment_ok k m" "length m \<le> leaf_max" "k < 32"
  shows "foldR (\<lambda>cs g. bindR (leaf_summary C (snd g)) (\<lambda>c. Inr (cs[unat (fst g) := c])))
      (replicate fanout Summary_0) (runs (\<lambda>r. fst r ! k) m) = Inr (slot_summaries C k m)"
proof -
  let ?byte = "\<lambda>r :: Record. fst r ! k"
  let ?sum = "\<lambda>g. trie_summary C (k + 1) g"
  have srt: "sorted (map ?byte m)" by (rule segment_sorted[OF assms(1,3)])
  have "foldR (\<lambda>cs g. bindR (leaf_summary C (snd g)) (\<lambda>c. Inr (cs[unat (fst g) := c])))
      (replicate fanout Summary_0) (runs ?byte m) =
    Inr (foldl (\<lambda>cs g. cs[unat (fst g) := ?sum (snd g)]) (replicate fanout Summary_0) (runs ?byte m))"
  proof (rule foldR_store)
    fix g assume "g \<in> set (runs ?byte m)"
    then have sub: "set (snd g) \<subseteq> set m" and g: "snd g = filter (\<lambda>r. ?byte r = fst g) m"
      using runs_subset[of "fst g" "snd g" ?byte m] runs_sorted[OF srt] by auto
    have "length (snd g) \<le> length m" unfolding g by (rule length_filter_le)
    then have "length (snd g) \<le> leaf_max" using assms(2) by simp
    moreover have "list_all record_ok (snd g)"
      using sub segment_okD(1)[OF assms(1)] by (auto simp: records_ok_def list_all_iff)
    ultimately show "leaf_summary C (snd g) = Inr (?sum (snd g))"
      by (simp add: leaf_summary_def leaf_hash_ok trie_summary_def trie_digest_leaf)
  qed
  also have "foldl (\<lambda>cs g. cs[unat (fst g) := ?sum (snd g)]) (replicate fanout Summary_0) (runs ?byte m) =
      slot_summaries C k m"
  proof (rule nth_equalityI)
    fix i assume "i < length (foldl (\<lambda>cs g. cs[unat (fst g) := ?sum (snd g)]) (replicate fanout Summary_0) (runs ?byte m))"
    then have i: "i < fanout" by simp
    then have i256: "i < 256" by (simp add: fanout_def)
    then have "unat (of_nat i :: u8) = i" by (simp add: unat_of_nat take_bit_nat_eq_self)
    then have slot: "filter (\<lambda>r. ?byte r = of_nat i) m = slot k i m"
      unfolding slot_def by (intro filter_cong) (auto simp: word_unat_eq_iff)
    have "foldl (\<lambda>cs g. cs[unat (fst g) := ?sum (snd g)]) (replicate fanout Summary_0) (runs ?byte m) ! i =
        (case map_of (runs ?byte m) (of_nat i) of None \<Rightarrow> Summary_0 | Some g \<Rightarrow> ?sum g)"
      using foldl_store_nth[of "runs ?byte m" i "replicate fanout Summary_0" ?sum] runs_sorted[OF srt] i i256
      by (simp cong: option.case_cong)
    also have "\<dots> = ?sum (slot k i m)"
      unfolding map_of_runs[OF srt] slot by (simp add: Let_def Summary_0_trie)
    finally show "foldl (\<lambda>cs g. cs[unat (fst g) := ?sum (snd g)]) (replicate fanout Summary_0) (runs ?byte m) ! i =
        slot_summaries C k m ! i" using i by (simp add: slot_summaries_def)
  qed (simp add: slot_summaries_def)
  finally show ?thesis .
qed

lemma leaf_children_ok:
  assumes "segment_ok d rs" "length rs \<le> leaf_max" "px_length p < 32"
  shows "leaf_children C p rs = Inr (slot_summaries C (px_length p) (below p rs))"
proof -
  let ?k = "px_length p" and ?m = "below p rs"
  let ?byte = "\<lambda>r :: Record. fst r ! ?k"
  have rok: "records_ok rs" by (rule segment_okD(1)[OF assms(1)])
  obtain a b where ab: "rs = a @ ?m @ b" "\<forall>r \<in> set a \<union> set b. \<not> covers p (fst r)"
    by (rule below_interval[OF rok])
  have m: "\<forall>r \<in> set ?m. covers p (fst r)" by (simp add: below_def)
  have seg: "segment_ok ?k ?m"
  proof -
    have "records_ok ?m" "spread ?m"
      using rok segment_okD(2)[OF assms(1)] by (simp_all add: below_def records_ok_filter spread_filter)
    moreover have "length ?m < 2 ^ 64"
      using segment_okD(3)[OF assms(1)] le_less_trans[OF length_filter_le] by (simp add: below_def)
    ultimately show ?thesis by (auto simp: segment_ok_def same_prefix_def below_def covers_def)
  qed
  have "runs (slot_key p) rs = runs (slot_key p) (a @ ?m @ b)" using ab(1) by (rule arg_cong)
  then have "leaf_children C p rs = foldR (store_group C) (replicate fanout Summary_0) (runs (slot_key p) ?m)"
    unfolding leaf_children_fold using store_around[of a b p ?m] ab(2) m by (simp add: slot_key_def)
  also have "runs (slot_key p) ?m = runs (\<lambda>r. Some (?byte r)) ?m"
    by (rule runs_cong) (use m in \<open>simp add: slot_key_def\<close>)
  also have "\<dots> = map (\<lambda>(k, g). (Some k, g)) (runs ?byte ?m)" by (rule runs_inj) simp
  also have "foldR (store_group C) out (map (\<lambda>(k, g). (Some k, g)) gs) =
      foldR (\<lambda>cs g. bindR (leaf_summary C (snd g)) (\<lambda>c. Inr (cs[unat (fst g) := c]))) out gs" for out gs
    by (induction gs arbitrary: out)
       (auto simp: store_group_def leaf_summary_def bindR_def split: sum.splits)
  also have "foldR (\<lambda>cs g. bindR (leaf_summary C (snd g)) (\<lambda>c. Inr (cs[unat (fst g) := c])))
      (replicate fanout Summary_0) (runs ?byte ?m) = Inr (slot_summaries C ?k ?m)"
  proof (rule store_runs_ok[OF seg _ assms(3)])
    show "length ?m \<le> leaf_max" using assms(2) le_trans[OF length_filter_le] by (simp add: below_def)
  qed
  finally show ?thesis .
qed

section \<open>A snapshot's operations\<close>

definition snapshot_ok :: "node_files \<Rightarrow> Snapshot \<Rightarrow> bool" where
  "snapshot_ok F s \<longleftrightarrow> (\<forall>off bytes. F (sn_generation s) off bytes \<longrightarrow>
     frame_reader_read_at (sn_file s) off = Inr bytes)"

definition snapshot_reading :: "node_files \<Rightarrow> Snapshot \<Rightarrow> Node NodeCache \<Rightarrow> bool" where
  "snapshot_reading F s cache \<longleftrightarrow> snapshot_ok F s \<and> cache_coherent (sn_crypto s) F cache"

interpretation snapshot_reader: trie_loader "sn_crypto s" "F (sn_generation s)" "snapshot_reading F s"
  "snapshot_load s" for F s
proof
  fix cache d c rs
  assume g: "snapshot_reading F s cache" and h: "holds (sn_crypto s) (F (sn_generation s)) d c rs" "rs \<noteq> []"
  have co: "cache_coherent (sn_crypto s) F cache" using g by (simp add: snapshot_reading_def)
  have rd: "frame_reader_read_at (sn_file s) (unat off) = Inr bytes"
    if "F (sn_generation s) (unat off) bytes" for off :: u64 and bytes
    using that g by (simp add: snapshot_reading_def snapshot_ok_def)
  from load_from_holds[OF co h, where read = "\<lambda>off. frame_reader_read_at (sn_file s) (unat off)" and
      footprint = "sn_footprint s", OF rd]
  show "\<exists>n cache'. snapshot_load s c cache = (Inr n, cache') \<and> snapshot_reading F s cache' \<and>
      node_holds (sn_crypto s) (F (sn_generation s)) d n rs \<and> (ch_node c = None \<or> ch_node c = Some n)"
    using g by (simp add: snapshot_load_def snapshot_reading_def) blast
qed

text \<open>A snapshot taken of a trie reads what the trie has now.\<close>

lemma trie_snapshot_reading:
  assumes "trie_reading F t t"
  shows "snapshot_reading F (trie_snapshot t) (ot_cache t)"
proof -
  have "frame_reader_read_at (journal_reader (ot_nodes t)) off = Inr bytes"
    if "F (ot_generation t) off bytes" for off bytes
    using that assms by (intro reader_read_at) (auto simp: trie_reading_def trie_ready_def)
  with assms show ?thesis
    by (simp add: snapshot_reading_def snapshot_ok_def trie_snapshot_def trie_reading_def)
qed

definition snapshot_holds :: "node_files \<Rightarrow> Snapshot \<Rightarrow> Record list \<Rightarrow> bool" where
  "snapshot_holds F s rs \<longleftrightarrow> holds (sn_crypto s) (F (sn_generation s)) 0 (sn_root s) rs"

lemma snapshot_holds_empty: "snapshot_holds F s rs \<Longrightarrow> child_empty (sn_root s) \<longleftrightarrow> rs = []"
  using holds_empty_iff(1) by (auto simp: snapshot_holds_def)

lemma snapshot_get_holds:
  assumes "snapshot_reading F s cache" "snapshot_holds F s rs"
  shows "\<exists>cache'. snapshot_get s i cache = (Inr (map_of rs i), cache') \<and> snapshot_reading F s cache'"
  using snapshot_reader.find_holds[OF assms(1), of 0 "sn_root s" rs i] assms snapshot_holds_empty[OF assms(2)]
  by (auto simp: snapshot_get_def snapshot_holds_def)

lemma snapshot_next_holds:
  assumes "snapshot_reading F s cache" "snapshot_holds F s rs" "\<And>a. after = Some a \<Longrightarrow> length a = 32"
  shows "\<exists>cache'. snapshot_next s after limit cache =
    (Inr (take limit (wanted after (after \<noteq> None) rs)), cache') \<and> snapshot_reading F s cache'"
proof (cases "rs = []")
  case True
  with assms(1) snapshot_holds_empty[OF assms(2)] show ?thesis by (simp add: snapshot_next_def wanted_def)
next
  case False
  have h: "holds (sn_crypto s) (F (sn_generation s)) 0 (sn_root s) rs" using assms(2) by (simp add: snapshot_holds_def)
  have "\<exists>cache'. collect load_fuel (sn_root s) after (after \<noteq> None) limit [] (snapshot_load s) cache =
      (Inr (page_of after (after \<noteq> None) limit [] rs), cache') \<and> snapshot_reading F s cache'"
    by (rule snapshot_reader.collect_holds[OF assms(1) h]) (use assms(3) in \<open>auto simp: load_fuel_def\<close>)
  with False snapshot_holds_empty[OF assms(2)] show ?thesis by (simp add: snapshot_next_def page_of_def)
qed

lemma interior_children:
  assumes "node_holds C S d n rs" "\<not> nd_leaf n"
  shows "map child_summary (nd_children n) = slot_summaries C d rs"
  using assms(1)
proof (cases rule: node_holds.cases)
  case node_leaf
  with assms(2) show ?thesis by simp
next
  case (node_interior cs)
  then show ?thesis
    using holds_summary(1)[OF node_interior(5)]
    by (intro nth_equalityI) (simp_all add: make_interior_def slot_summaries_def)
qed

lemma leaf_records: "node_holds C S d n rs \<Longrightarrow> nd_leaf n \<Longrightarrow> nd_records n = rs \<and> length rs \<le> leaf_max"
  by (erule node_holdsE) (simp_all add: make_interior_def)

lemma snapshot_children_one_holds:
  assumes "snapshot_reading F s cache" "snapshot_holds F s rs" "prefix_ok p" "px_length p < 32"
  shows "\<exists>cache'. snapshot_children_one s p cache =
    (Inr (slot_summaries (sn_crypto s) (px_length p) (below p rs)), cache') \<and> snapshot_reading F s cache'"
proof -
  let ?C = "sn_crypto s"
  from snapshot_reader.descend_holds[OF assms(1) _ assms(3), of "sn_root s" rs] assms(2)
  obtain found cache' where f: "descend (sn_root s) p (snapshot_load s) cache = (Inr found, cache')"
    "snapshot_reading F s cache'" "found_below ?C (F (sn_generation s)) p rs found"
    by (auto simp: snapshot_holds_def)
  show ?thesis
  proof (cases found)
    case None
    with f(3) have "below p rs = []" by (simp add: found_below_def)
    then have "slot_summaries ?C (px_length p) (below p rs) = replicate fanout Summary_0"
      by (simp add: slot_summaries_def slot_def Summary_0_trie map_replicate_trivial
          flip: map_replicate_const)
    with None f assms(4) show ?thesis by (simp add: snapshot_children_one_def bindM_def)
  next
    case (Some n)
    with f(3) obtain d rs' where n: "node_holds ?C (F (sn_generation s)) d n rs'" "below p rs' = below p rs"
      "nd_leaf n \<or> d = px_length p \<and> rs' = below p rs" by (auto simp: found_below_def)
    have "(if \<not> nd_leaf n then retM (map child_summary (nd_children n))
        else liftM (leaf_children ?C p (nd_records n))) cache' =
      (Inr (slot_summaries ?C (px_length p) (below p rs)), cache')"
    proof (cases "nd_leaf n")
      case True
      then show ?thesis
        using leaf_records[OF n(1) True] n(2) leaf_children_ok[of d rs' p ?C] node_holds_ok[OF n(1)] assms(4)
        by simp
    next
      case False
      with n(3) interior_children[OF n(1) False] show ?thesis by simp
    qed
    with Some f(1,2) assms(4) show ?thesis by (simp add: snapshot_children_one_def bindM_def)
  qed
qed

lemma snapshot_children_holds:
  assumes "snapshot_reading F s cache" "snapshot_holds F s rs" "\<forall>p \<in> set ps. prefix_ok p \<and> px_length p < 32"
  shows "\<exists>cache'. snapshot_children s ps cache =
    (Inr (map (\<lambda>p. slot_summaries (sn_crypto s) (px_length p) (below p rs)) ps), cache') \<and>
    snapshot_reading F s cache'"
proof (cases "rs = []")
  case True
  have "slot_summaries (sn_crypto s) d (below p []) = replicate fanout Summary_0" for d p
    by (simp add: slot_summaries_def slot_def below_def Summary_0_trie map_replicate_const)
  with True assms(1) snapshot_holds_empty[OF assms(2)] show ?thesis by (simp add: snapshot_children_def)
next
  case False
  have "\<exists>cache'. mapM (snapshot_children_one s) ps cache =
      (Inr (map (\<lambda>p. slot_summaries (sn_crypto s) (px_length p) (below p rs)) ps), cache') \<and>
      snapshot_reading F s cache'"
    by (rule mapM_reads[where good = "snapshot_reading F s", OF assms(1)]) (use snapshot_children_one_holds[OF _ assms(2)] assms(3) in blast)
  with False snapshot_holds_empty[OF assms(2)] show ?thesis by (simp add: snapshot_children_def)
qed

lemma child_of_holds: "node_holds C S d n rs \<Longrightarrow> holds C S d (child_of n) rs"
  unfolding child_of_def by (rule holds_node) simp_all

lemma snapshot_records_one_holds:
  assumes "snapshot_reading F s cache" "snapshot_holds F s rs" "prefix_ok p"
    "length (below p rs) \<le> leaf_max \<or> length (below p rs) \<le> unat most"
  shows "\<exists>cache'. snapshot_records_one s most p cache = (Inr (below p rs), cache') \<and> snapshot_reading F s cache'"
proof -
  let ?C = "sn_crypto s" and ?S = "F (sn_generation s)"
  from snapshot_reader.descend_holds[OF assms(1) _ assms(3), of "sn_root s" rs] assms(2)
  obtain found cache' where f: "descend (sn_root s) p (snapshot_load s) cache = (Inr found, cache')"
    "snapshot_reading F s cache'" "found_below ?C ?S p rs found"
    by (auto simp: snapshot_holds_def)
  show ?thesis
  proof (cases found)
    case None
    with f(3) have "below p rs = []" by (simp add: found_below_def)
    with None f show ?thesis by (simp add: snapshot_records_one_def bindM_def)
  next
    case (Some n)
    with f(3) obtain d rs' where n: "node_holds ?C ?S d n rs'" "below p rs' = below p rs"
      "nd_leaf n \<or> d = px_length p \<and> rs' = below p rs" by (auto simp: found_below_def)
    show ?thesis
    proof (cases "nd_leaf n")
      case True
      then show ?thesis
        using Some f(1,2) leaf_records[OF n(1) True] n(2)
        by (simp add: snapshot_records_one_def bindM_def below_def)
    next
      case False
      with n(3) have rs': "rs' = below p rs" by simp
      have big: "leaf_max < length rs'" using n(1) False by (auto elim!: node_holdsE)
      have len: "length rs' < 2 ^ 64" using node_holds_ok[OF n(1)] segment_okD(3) by blast
      have cnt: "nd_count n = of_nat (length rs')" using holds_summary(2)[OF n(1)] by simp
      then have ucnt: "unat (nd_count n) = length rs'" using unat_length_u64[OF len] by simp
      then have "\<not> nd_count n > most" using assms(4) big rs' by (simp add: word_less_nat_alt not_less)
      moreover have "\<exists>cache2. collect load_fuel (child_of n) None False (unat (nd_count n)) [] (snapshot_load s) cache' =
          (Inr (page_of None False (unat (nd_count n)) [] rs'), cache2) \<and> snapshot_reading F s cache2"
        by (rule snapshot_reader.collect_holds[OF f(2) child_of_holds[OF n(1)]])
           (use node_holds_ok[OF n(1)] in \<open>auto simp: load_fuel_def\<close>)
      ultimately show ?thesis
        using Some f(1) False by (simp add: snapshot_records_one_def bindM_def page_of_def wanted_def ucnt rs')
    qed
  qed
qed

lemma snapshot_records_holds:
  assumes "snapshot_reading F s cache" "snapshot_holds F s rs"
    "\<forall>p \<in> set ps. prefix_ok p \<and> (length (below p rs) \<le> leaf_max \<or> length (below p rs) \<le> unat most)"
  shows "\<exists>cache'. snapshot_records s most ps cache = (Inr (map (\<lambda>p. below p rs) ps), cache') \<and>
    snapshot_reading F s cache'"
proof (cases "rs = []")
  case True
  with assms(1) snapshot_holds_empty[OF assms(2)] show ?thesis by (simp add: snapshot_records_def below_def)
next
  case False
  have "\<exists>cache'. mapM (snapshot_records_one s most) ps cache = (Inr (map (\<lambda>p. below p rs) ps), cache') \<and>
      snapshot_reading F s cache'"
    by (rule mapM_reads[where good = "snapshot_reading F s", OF assms(1)])
       (use snapshot_records_one_holds[OF _ assms(2)] assms(3) in blast)
  with False snapshot_holds_empty[OF assms(2)] show ?thesis by (simp add: snapshot_records_def)
qed

section \<open>All ids\<close>

lemma wanted_after_last:
  assumes "records_ok (xs @ ys)" "xs \<noteq> []"
  shows "wanted (Some (fst (last xs))) True (xs @ ys) = ys"
proof -
  have s: "sorted_wrt (\<lambda>r r'. fst r < fst r') (xs @ ys)" by (rule records_ok_sorted[OF assms(1)])
  have "\<not> fst (last xs) < fst r" if "r \<in> set xs" for r
    using s that by (cases xs rule: rev_cases) (auto simp: sorted_wrt_append)
  moreover have "fst (last xs) < fst r" if "r \<in> set ys" for r
    using s that assms(2) by (simp add: sorted_wrt_append)
  ultimately show ?thesis by (simp add: wanted_def filter_empty_conv)
qed

lemma snapshot_ids_loop_holds:
  assumes "snapshot_reading F s cache" "snapshot_holds F s (done @ rest)"
    "after = (if done = [] then None else Some (fst (last done)))" "length rest < fuel * page_size"
  shows "\<exists>cache'. snapshot_ids_loop fuel s after out cache = (Inr (out @ map fst rest), cache') \<and>
    snapshot_reading F s cache'"
  using assms
proof (induction fuel arbitrary: "done" rest after out cache)
  case (Suc fuel)
  have ok: "records_ok (done @ rest)"
    using Suc.prems(2) holds_segment segment_okD(1) unfolding snapshot_holds_def by blast
  have w: "wanted after (after \<noteq> None) (done @ rest) = rest"
    using Suc.prems(3) wanted_after_last[OF ok] by (auto simp: wanted_def)
  have a32: "length a = 32" if "after = Some a" for a
  proof (cases "done = []")
    case False
    then have "length (fst (last done)) = 32" by (intro records_ok_id[OF ok]) simp
    with False that Suc.prems(3) show ?thesis by simp
  qed (use that Suc.prems(3) in simp)
  have "\<exists>cache'. snapshot_next s after page_size cache =
      (Inr (take page_size (wanted after (after \<noteq> None) (done @ rest))), cache') \<and> snapshot_reading F s cache'"
    by (rule snapshot_next_holds[OF Suc.prems(1,2)]) (rule a32)
  then obtain cache1 where
    n: "snapshot_next s after page_size cache = (Inr (take page_size rest), cache1)" "snapshot_reading F s cache1"
    unfolding w by (elim exE conjE) (rule that)
  show ?case
  proof (cases "length rest < page_size")
    case True
    with n show ?thesis by (simp add: bindM_def Let_def)
  next
    case False
    then have len: "page_size \<le> length rest" by simp
    let ?page = "take page_size rest"
    have ne: "?page \<noteq> []" using len by (auto simp: page_size_def)
    have "length (drop page_size rest) < fuel * page_size" using len Suc.prems(4) by simp
    moreover have "snapshot_holds F s ((done @ ?page) @ drop page_size rest)" using Suc.prems(2) by simp
    moreover have "Some (fst (last ?page)) = (if done @ ?page = [] then None else Some (fst (last (done @ ?page))))"
      using ne by (simp add: last_append)
    ultimately have "\<exists>cache'. snapshot_ids_loop fuel s (Some (fst (last ?page))) (out @ map fst ?page) cache1 =
        (Inr ((out @ map fst ?page) @ map fst (drop page_size rest)), cache') \<and> snapshot_reading F s cache'"
      by (intro Suc.IH[OF n(2)])
    with n(1) False show ?thesis
      by (simp add: bindM_def Let_def flip: map_append)
  qed
qed simp

section \<open>Properties\<close>

text \<open>A trie with one record in memory, for evaluating the model.\<close>

definition sample_trie :: ObjectTrie where
  "sample_trie =
     \<lparr>ot_crypto = plain_crypto, ot_key = replicate 32 0,
      ot_options = \<lparr>op_cache_bytes = 100, op_checkpoint_bytes = 100, op_rewrite_floor_bytes = 100\<rparr>,
      ot_footprint = (\<lambda>_. 1), ot_nonces = (\<lambda>_ _. replicate 12 0), ot_root_file = None,
      ot_other_files = [], ot_journal = empty_journal 1000, ot_nodes = empty_journal 1000,
      ot_generation = 0, ot_format1 = False, ot_root = one_leaf plain_crypto, ot_live_bytes = 0,
      ot_superseded_bytes = 0, ot_cache = NodeCache_new 100, ot_checkpoints = 0, ot_rewrites = 0\<rparr>"

definition sample_files :: node_files where
  "sample_files = (\<lambda>_. frame_at (empty_journal 1000))"

lemma sample_trie_reading: "trie_reading sample_files sample_trie sample_trie"
  using empty_journal_holds[of 1000]
  by (simp add: trie_reading_def trie_ready_def sample_trie_def sample_files_def cache_coherent_new
      journal_holds_def)

lemma sample_trie_holds:
  "holds (ot_crypto sample_trie) (sample_files (ot_generation sample_trie)) 0 (ot_root sample_trie) one_record"
  by (simp add: sample_trie_def one_leaf_holds)

text \<open>
  C20: Looking an id up in the trie returns the value of the record with that id, and nothing if there is
  none, whatever part of the trie is in memory, in the cache or only in the node file. It throws
  nothing and changes nothing but the cache.
\<close>

theorem trie_get_lookup:
  assumes "trie_reading F t t" "holds (ot_crypto t) (F (ot_generation t)) 0 (ot_root t) rs"
  shows "\<exists>cache. trie_get i t = (Inr (map_of rs i), t\<lparr>ot_cache := cache\<rparr>) \<and> trie_reading F t (t\<lparr>ot_cache := cache\<rparr>)"
  using trie_cacher.find_holds[OF trie_cached_self[OF assms(1)] assms(2)]
  by (auto simp: trie_get_def elim: trie_cachedE)

theorem trie_get_lookup_witness:
  "(\<exists>cache. trie_get (replicate 32 7) sample_trie = (Inr (Some [1, 2]), sample_trie\<lparr>ot_cache := cache\<rparr>)) \<and>
   (\<exists>cache. trie_get (replicate 32 3) sample_trie = (Inr None, sample_trie\<lparr>ot_cache := cache\<rparr>))"
  using trie_get_lookup[OF sample_trie_reading sample_trie_holds, of "replicate 32 7"]
    trie_get_lookup[OF sample_trie_reading sample_trie_holds, of "replicate 32 3"]
  by (auto simp: one_record_def)

text \<open>
  C21: A page of the trie is the next records after an id in the order of the ids, as many as asked for
  or all that are left. Reading it throws nothing and changes nothing but the cache.
\<close>

theorem trie_next_page:
  assumes "trie_reading F t t" "holds (ot_crypto t) (F (ot_generation t)) 0 (ot_root t) rs"
    "case after of None \<Rightarrow> True | Some a \<Rightarrow> length a = 32"
  shows "\<exists>cache. trie_next after limit t =
    (Inr (take limit (filter (\<lambda>r. case after of None \<Rightarrow> True | Some a \<Rightarrow> a < fst r) rs)), t\<lparr>ot_cache := cache\<rparr>) \<and>
    trie_reading F t (t\<lparr>ot_cache := cache\<rparr>)"
proof -
  have "\<exists>t'. collect load_fuel (ot_root t) after (after \<noteq> None) limit [] trie_load t =
      (Inr (page_of after (after \<noteq> None) limit [] rs), t') \<and> trie_cached F t t'"
    by (rule trie_cacher.collect_holds[OF trie_cached_self[OF assms(1)] assms(2)]) (use assms(3) in \<open>auto simp: load_fuel_def\<close>)
  then have "\<exists>cache. collect load_fuel (ot_root t) after (after \<noteq> None) limit [] trie_load t =
      (Inr (page_of after (after \<noteq> None) limit [] rs), t\<lparr>ot_cache := cache\<rparr>) \<and> trie_reading F t (t\<lparr>ot_cache := cache\<rparr>)"
    by (auto elim: trie_cachedE)
  moreover have "wanted after (after \<noteq> None) rs =
      filter (\<lambda>r. case after of None \<Rightarrow> True | Some a \<Rightarrow> a < fst r) rs"
    by (cases after) (simp_all add: wanted_def)
  ultimately show ?thesis by (simp add: trie_next_def page_of_def)
qed

theorem trie_next_page_witness:
  "\<exists>t'. trie_next (Some (replicate 32 3)) 5 sample_trie = (Inr one_record, t')"
proof -
  have "replicate 32 (3 :: u8) < replicate 32 7"
    using less_first_difference[of 0 "replicate 32 (3 :: u8)" "replicate 32 7"] by simp
  with trie_next_page[OF sample_trie_reading sample_trie_holds, of "Some (replicate 32 3)" 5] show ?thesis
    by (auto simp: one_record_def)
qed

text \<open>
  C22: Going through a snapshot page by page gives every id of the trie it was taken of, once and in
  order; a page more than the records fill is enough for the loop to end.
\<close>

theorem snapshot_ids_all:
  assumes "trie_reading F t t" "holds (ot_crypto t) (F (ot_generation t)) 0 (ot_root t) rs"
    "length rs < fuel * page_size"
  shows "\<exists>cache. snapshot_ids fuel (trie_snapshot t) (ot_cache t) = (Inr (map fst rs), cache) \<and>
    sorted_wrt (<) (map fst rs)"
proof -
  have h: "snapshot_holds F (trie_snapshot t) ([] @ rs)"
    using assms(2) by (simp add: snapshot_holds_def trie_snapshot_def)
  have "sorted_wrt (<) (map fst rs)"
    using segment_okD(1)[OF holds_segment[OF assms(2)]] by (simp add: records_ok_def)
  then show ?thesis
    using snapshot_ids_loop_holds[OF trie_snapshot_reading[OF assms(1)] h, of None fuel "[]"] assms(3)
    by (auto simp: snapshot_ids_def)
qed

theorem snapshot_ids_all_witness:
  "\<exists>cache. snapshot_ids 1 (trie_snapshot sample_trie) (ot_cache sample_trie) = (Inr [replicate 32 7], cache)"
  using snapshot_ids_all[OF sample_trie_reading sample_trie_holds, of 1]
  by (auto simp: one_record_def page_size_def)

end
