(* ===== verification/Trie_Diff.thy ===== *)
theory Trie_Diff
  imports Trie_Snapshot "HOL-Library.Multiset"
begin

text \<open>
  Comparing two tries (\<^verbatim>\<open>src/ledger/trie_diff.hpp\<close>, \<^verbatim>\<open>src/ledger/trie_diff.cpp\<close>): the descent a level
  at a time through the subtrees whose summaries differ, the pass over pages that finds the
  records nobody holds, and the messages the questions to a peer's trie and their answers travel
  in. A side of a comparison is an interface, here a record of its operations; the locale
  \<open>trie_source\<close> is its contract, and snapshots of the object trie satisfy it.
\<close>

section \<open>Sources\<close>

record 's TrieSource =
  src_root :: "('s, Summary) prog"
  src_children :: "Prefix list \<Rightarrow> ('s, Summary list list) prog"
  src_records :: "Prefix list \<Rightarrow> ('s, Record list list) prog"

definition snapshot_summary :: "Snapshot \<Rightarrow> Summary" where
  "snapshot_summary s = \<lparr>sm_count = ch_count (sn_root s), sm_hash = ch_hash (sn_root s)\<rparr>"

definition uint64_max :: u64 where
  "uint64_max = - 1"

definition SnapshotSource :: "Snapshot \<Rightarrow> (Node NodeCache) TrieSource" where
  "SnapshotSource s =
     \<lparr>src_root = retM (snapshot_summary s), src_children = snapshot_children s,
      src_records = snapshot_records s uint64_max\<rparr>"

section \<open>The difference\<close>

record TrieDifference =
  df_id :: ObjectId
  df_left :: "Bytes option"
  df_right :: "Bytes option"

record TrieDiffCost =
  dc_rounds :: nat
  dc_prefixes :: nat
  dc_records :: nat

definition TrieDiffCost_0 :: TrieDiffCost where
  "TrieDiffCost_0 = \<lparr>dc_rounds = 0, dc_prefixes = 0, dc_records = 0\<rparr>"

text \<open>What \<^verbatim>\<open>compare\<close> calls its visitor with, in order.\<close>

fun compare :: "Record list \<Rightarrow> Record list \<Rightarrow> TrieDifference list" where
  "compare [] [] = []"
| "compare (l # ls) [] = \<lparr>df_id = fst l, df_left = Some (snd l), df_right = None\<rparr> # compare ls []"
| "compare [] (r # rs) = \<lparr>df_id = fst r, df_left = None, df_right = Some (snd r)\<rparr> # compare [] rs"
| "compare (l # ls) (r # rs) =
     (if fst l < fst r
      then \<lparr>df_id = fst l, df_left = Some (snd l), df_right = None\<rparr> # compare ls (r # rs)
      else if fst r < fst l
      then \<lparr>df_id = fst r, df_left = None, df_right = Some (snd r)\<rparr> # compare (l # ls) rs
      else (if snd l \<noteq> snd r
            then [\<lparr>df_id = fst l, df_left = Some (snd l), df_right = Some (snd r)\<rparr>] else []) @
           compare ls rs)"

text \<open>The local variables of \<^verbatim>\<open>diff_tries\<close>, and the differences visited so far.\<close>

record DiffState =
  ds_descend :: "Prefix list"
  ds_read :: "Prefix list"
  ds_visited :: "TrieDifference list"
  ds_cost :: TrieDiffCost

definition place :: "Prefix \<Rightarrow> Summary \<Rightarrow> Summary \<Rightarrow> DiffState \<Rightarrow> DiffState" where
  "place pfx a b d =
     (if max (sm_count a) (sm_count b) \<le> of_nat leaf_max then d\<lparr>ds_read := ds_read d @ [pfx]\<rparr>
      else d\<lparr>ds_descend := ds_descend d @ [pfx]\<rparr>)"

definition diff_read :: "'s TrieSource \<Rightarrow> 's TrieSource \<Rightarrow> DiffState \<Rightarrow> ('s, DiffState) prog" where
  "diff_read left right d =
     (if ds_read d = [] then retM d
      else bindM (src_records left (ds_read d)) (\<lambda>a.
           bindM (src_records right (ds_read d)) (\<lambda>b.
           if length a < length (ds_read d) \<or> length b < length (ds_read d)
           then raiseM UndefinedBehaviour
           else let cost = ds_cost d; is = [0..<length (ds_read d)] in
             retM (d\<lparr>ds_read := [],
               ds_visited := ds_visited d @ concat (map (\<lambda>i. compare (a ! i) (b ! i)) is),
               ds_cost := cost\<lparr>dc_rounds := dc_rounds cost + 1,
                 dc_prefixes := dc_prefixes cost + length (ds_read d),
                 dc_records := dc_records cost + sum_list (map (\<lambda>i. length (a ! i) + length (b ! i)) is)\<rparr>\<rparr>))))"

text \<open>One subtree of one prefix: a whole id has no byte for \<^verbatim>\<open>child\<close> to add.\<close>

definition diff_slot :: "Prefix list \<Rightarrow> Summary list list \<Rightarrow> Summary list list \<Rightarrow> DiffState \<Rightarrow>
    nat \<times> nat \<Rightarrow> DiffState result" where
  "diff_slot level a b d at =
     (case at of (i, k) \<Rightarrow>
        if a ! i ! k = b ! i ! k then Inr d
        else if px_length (level ! i) \<ge> 32 then Inl UndefinedBehaviour
        else Inr (place (prefix_child (level ! i) (of_nat k)) (a ! i ! k) (b ! i ! k) d))"

definition diff_descend :: "'s TrieSource \<Rightarrow> 's TrieSource \<Rightarrow> DiffState \<Rightarrow> ('s, DiffState) prog" where
  "diff_descend left right d =
     (if ds_descend d = [] then retM d
      else let level = ds_descend d in
        bindM (src_children left level) (\<lambda>a.
        bindM (src_children right level) (\<lambda>b.
        if length a < length level \<or> length b < length level then raiseM UndefinedBehaviour
        else let cost = ds_cost d in
          liftM (foldR (diff_slot level a b)
            (d\<lparr>ds_descend := [], ds_cost := cost\<lparr>dc_rounds := dc_rounds cost + 1,
               dc_prefixes := dc_prefixes cost + length level\<rparr>\<rparr>)
            (List.product [0..<length level] [0..<fanout])))))"

text \<open>The descent; \<open>diff_fuel\<close> rounds are one more than an id has bytes.\<close>

fun diff_loop :: "nat \<Rightarrow> 's TrieSource \<Rightarrow> 's TrieSource \<Rightarrow> ('s, unit) prog \<Rightarrow> DiffState \<Rightarrow> ('s, DiffState) prog" where
  "diff_loop 0 left right pause d = raiseM OutOfFuel"
| "diff_loop (Suc fuel) left right pause d =
     (if ds_descend d = [] \<and> ds_read d = [] then retM d
      else bindM (diff_read left right d) (\<lambda>d.
           bindM (diff_descend left right d) (\<lambda>d.
           bindM pause (\<lambda>_. diff_loop fuel left right pause d))))"

definition diff_fuel :: nat where
  "diff_fuel = 33"

definition diff_tries :: "'s TrieSource \<Rightarrow> 's TrieSource \<Rightarrow> ('s, unit) prog \<Rightarrow>
    ('s, TrieDifference list \<times> TrieDiffCost) prog" where
  "diff_tries left right pause =
     bindM (src_root left) (\<lambda>left_root.
     bindM (src_root right) (\<lambda>right_root.
     if left_root = right_root then retM ([], TrieDiffCost_0)
     else bindM (diff_loop diff_fuel left right pause
            (place Prefix_0 left_root right_root
              \<lparr>ds_descend = [], ds_read = [], ds_visited = [], ds_cost = TrieDiffCost_0\<rparr>)) (\<lambda>d.
          retM (ds_visited d, ds_cost d))))"

section \<open>Records nobody holds\<close>

text \<open>A snapshot read forward a page at a time: \<^verbatim>\<open>next\<close> is its operation.\<close>

type_synonym 's pager = "ObjectId option \<Rightarrow> nat \<Rightarrow> ('s, Record list) prog"

record Cursor =
  cu_page :: "Record list"
  cu_at :: nat
  cu_after :: "ObjectId option"
  cu_done :: bool

definition cursor_fill :: "'s pager \<Rightarrow> Cursor \<Rightarrow> ('s, Cursor) prog" where
  "cursor_fill next c =
     bindM (next (cu_after c) page_size) (\<lambda>page.
       retM \<lparr>cu_page = page, cu_at = 0,
         cu_after = (if page = [] then cu_after c else Some (fst (last page))),
         cu_done = (length page < page_size)\<rparr>)"

definition Cursor_new :: "'s pager \<Rightarrow> ('s, Cursor) prog" where
  "Cursor_new next = cursor_fill next \<lparr>cu_page = [], cu_at = 0, cu_after = None, cu_done = False\<rparr>"

definition cursor_peek :: "Cursor \<Rightarrow> Record option" where
  "cursor_peek c = (if cu_at c < length (cu_page c) then Some (cu_page c ! cu_at c) else None)"

definition cursor_advance :: "'s pager \<Rightarrow> Cursor \<Rightarrow> ('s, Cursor) prog" where
  "cursor_advance next c =
     (let c = c\<lparr>cu_at := cu_at c + 1\<rparr> in
      if cu_at c \<ge> length (cu_page c) \<and> \<not> cu_done c then cursor_fill next c else retM c)"

fun cursor_seek :: "nat \<Rightarrow> 's pager \<Rightarrow> ObjectId \<Rightarrow> Cursor \<Rightarrow> ('s, Cursor) prog" where
  "cursor_seek 0 next i c = raiseM OutOfFuel"
| "cursor_seek (Suc fuel) next i c =
     (case cursor_peek c of
        None \<Rightarrow> retM c
      | Some r \<Rightarrow> if \<not> fst r < i then retM c
          else bindM (cursor_advance next c) (cursor_seek fuel next i))"

text \<open>One held trie asked for an id: its cursor afterwards, and whether it has the id.\<close>

definition held_has :: "nat \<Rightarrow> ObjectId \<Rightarrow> 's pager \<times> Cursor \<Rightarrow> ('s, Cursor \<times> bool) prog" where
  "held_has fuel i pc =
     bindM (cursor_seek fuel (fst pc) i (snd pc)) (\<lambda>c.
       retM (c, case cursor_peek c of None \<Rightarrow> False | Some r \<Rightarrow> fst r = i))"

fun not_held_loop :: "nat \<Rightarrow> nat \<Rightarrow> 's pager \<Rightarrow> 's pager list \<Rightarrow> ('s, unit) prog \<Rightarrow> Cursor \<Rightarrow> Cursor list \<Rightarrow>
    nat \<Rightarrow> Record list \<Rightarrow> ('s, Record list) prog" where
  "not_held_loop seeks 0 wants held pause want have seen out = raiseM OutOfFuel"
| "not_held_loop seeks (Suc fuel) wants held pause want have seen out =
     (case cursor_peek want of
        None \<Rightarrow> retM out
      | Some r \<Rightarrow>
          bindM (mapM (held_has seeks (fst r)) (zip held have)) (\<lambda>answers.
          let out = (if list_ex snd answers then out else out @ [r]) in
          bindM (cursor_advance wants want) (\<lambda>want.
          bindM (if (seen + 1) mod 4096 = 0 then pause else retM ()) (\<lambda>_.
          not_held_loop seeks fuel wants held pause want (map fst answers) (seen + 1) out))))"

definition records_not_held :: "nat \<Rightarrow> 's pager \<Rightarrow> 's pager list \<Rightarrow> ('s, unit) prog \<Rightarrow> ('s, Record list) prog" where
  "records_not_held fuel wants held pause =
     bindM (Cursor_new wants) (\<lambda>want.
     bindM (mapM Cursor_new held) (\<lambda>have.
     not_held_loop fuel fuel wants held pause want have 0 []))"

section \<open>What a comparison of sorted records finds\<close>

definition differing :: "Record list \<Rightarrow> Record list \<Rightarrow> TrieDifference set" where
  "differing ls rs =
     {\<lparr>df_id = i, df_left = map_of ls i, df_right = map_of rs i\<rparr> | i. map_of ls i \<noteq> map_of rs i}"

lemma compare_same [simp]: "compare xs xs = []"
  by (induction xs) simp_all

lemma compare_Nil_iff: "compare xs ys = [] \<longleftrightarrow> xs = ys"
proof
  show "compare xs ys = [] \<Longrightarrow> xs = ys"
    by (induction xs ys rule: compare.induct) (auto simp: prod_eq_iff split: if_splits)
qed simp

lemma map_of_smaller:
  assumes "records_ok rs" "\<forall>r \<in> set rs. i < fst r" shows "map_of rs i = None"
  using assms(2) by (induction rs) auto

lemma records_ok_Cons:
  "records_ok (r # rs) \<longleftrightarrow> record_ok r \<and> records_ok rs \<and> (\<forall>r' \<in> set rs. fst r < fst r')"
  by (auto simp: records_ok_def)

lemma compare_ids: "df_id ` set (compare ls rs) \<subseteq> fst ` set ls \<union> fst ` set rs"
proof (induction ls rs rule: compare.induct)
  case (4 l ls r rs)
  consider "fst l < fst r" | "\<not> fst l < fst r" "fst r < fst l" | "\<not> fst l < fst r" "\<not> fst r < fst l" by blast
  then show ?case
  proof cases
    case 1
    with "4.IH"(1)[OF 1] show ?thesis by (simp add: image_subset_iff) blast
  next
    case 2
    with "4.IH"(2)[OF 2] show ?thesis by (simp add: image_subset_iff)
  next
    case 3
    with "4.IH"(3)[OF 3] show ?thesis by (auto simp: image_subset_iff)
  qed
qed auto

lemma compare_above:
  assumes "\<forall>r \<in> set ls. i < fst r" "\<forall>r \<in> set rs. i < fst r"
  shows "i \<notin> df_id ` set (compare ls rs)"
proof
  assume "i \<in> df_id ` set (compare ls rs)"
  with compare_ids[of ls rs] have "i \<in> fst ` set ls \<union> fst ` set rs" by blast
  with assms show False by auto
qed

lemma distinct_compare:
  "records_ok ls \<Longrightarrow> records_ok rs \<Longrightarrow> distinct (map df_id (compare ls rs))"
proof (induction ls rs rule: compare.induct)
  case (2 l ls)
  then show ?case using compare_above[of ls "fst l" "[]"] by (simp add: records_ok_Cons)
next
  case (3 r rs)
  then show ?case using compare_above[of "[]" "fst r" rs] by (simp add: records_ok_Cons)
next
  case (4 l ls r rs)
  have ok: "records_ok ls" "\<forall>x \<in> set ls. fst l < fst x" "records_ok rs" "\<forall>x \<in> set rs. fst r < fst x"
    using "4.prems" by (simp_all add: records_ok_Cons)
  consider "fst l < fst r" | "\<not> fst l < fst r" "fst r < fst l" | "\<not> fst l < fst r" "\<not> fst r < fst l" by blast
  then show ?case
  proof cases
    case 1
    have "\<forall>x \<in> set (r # rs). fst l < fst x" using 1 ok(4) by auto
    with compare_above[OF ok(2) this] 1 "4.IH"(1)[OF 1 ok(1) "4.prems"(2)] show ?thesis by simp
  next
    case 2
    have "\<forall>x \<in> set (l # ls). fst r < fst x" using 2 ok(2) by auto
    with compare_above[OF this ok(4)] 2 "4.IH"(2)[OF 2 "4.prems"(1) ok(3)] show ?thesis by simp
  next
    case 3
    then have "\<forall>x \<in> set rs. fst l < fst x" using ok(4) by force
    with compare_above[OF ok(2) this] 3 "4.IH"(3)[OF 3 ok(1,3)] show ?thesis by simp
  qed
qed simp

lemma differing_iff:
  "\<lparr>df_id = i, df_left = a, df_right = b\<rparr> \<in> differing ls rs \<longleftrightarrow> a = map_of ls i \<and> b = map_of rs i \<and> a \<noteq> b"
  by (auto simp: differing_def)

lemma differing_eqI:
  assumes "\<And>i a b. \<lparr>df_id = i, df_left = a, df_right = b\<rparr> \<in> D \<longleftrightarrow> a = map_of ls i \<and> b = map_of rs i \<and> a \<noteq> b"
  shows "D = differing ls rs"
proof (rule set_eqI)
  fix d show "d \<in> D \<longleftrightarrow> d \<in> differing ls rs"
    by (cases d) (simp only: assms differing_iff)
qed

lemma differing_left:
  assumes "map_of ls (fst l) = None" "map_of rs (fst l) = None"
  shows "insert \<lparr>df_id = fst l, df_left = Some (snd l), df_right = None\<rparr> (differing ls rs) = differing (l # ls) rs"
  using assms by (intro differing_eqI) (cases l; auto simp: differing_iff)

lemma differing_right:
  assumes "map_of ls (fst r) = None" "map_of rs (fst r) = None"
  shows "insert \<lparr>df_id = fst r, df_left = None, df_right = Some (snd r)\<rparr> (differing ls rs) = differing ls (r # rs)"
  using assms by (intro differing_eqI) (cases r; auto simp: differing_iff)

lemma differing_both:
  assumes "map_of ls (fst l) = None" "map_of rs (fst l) = None" "fst r = fst l"
  shows "(if snd l \<noteq> snd r then {\<lparr>df_id = fst l, df_left = Some (snd l), df_right = Some (snd r)\<rparr>} else {}) \<union>
    differing ls rs = differing (l # ls) (r # rs)"
  using assms by (intro differing_eqI) (cases l; cases r; auto simp: differing_iff)

lemma set_compare: "records_ok ls \<Longrightarrow> records_ok rs \<Longrightarrow> set (compare ls rs) = differing ls rs"
proof (induction ls rs rule: compare.induct)
  case 1
  then show ?case by (simp add: differing_def)
next
  case (2 l ls)
  then have "map_of ls (fst l) = None" by (intro map_of_smaller) (auto simp: records_ok_Cons)
  with 2 show ?case using differing_left[of ls l "[]"] by (simp add: records_ok_Cons)
next
  case (3 r rs)
  then have "map_of rs (fst r) = None" by (intro map_of_smaller) (auto simp: records_ok_Cons)
  with 3 show ?case using differing_right[of "[]" r rs] by (simp add: records_ok_Cons)
next
  case (4 l ls r rs)
  have ok: "records_ok ls" "\<forall>x \<in> set ls. fst l < fst x" "records_ok rs" "\<forall>x \<in> set rs. fst r < fst x"
    using "4.prems" by (simp_all add: records_ok_Cons)
  have no: "map_of ls (fst l) = None" "map_of rs (fst r) = None"
    using ok by (auto intro: map_of_smaller)
  consider "fst l < fst r" | "\<not> fst l < fst r" "fst r < fst l" | "\<not> fst l < fst r" "\<not> fst r < fst l" by blast
  then show ?case
  proof cases
    case 1
    have "map_of (r # rs) (fst l) = None" using 1 ok(4) "4.prems"(2) by (intro map_of_smaller) auto
    from differing_left[OF no(1) this] 1 "4.IH"(1)[OF 1 ok(1) "4.prems"(2)] show ?thesis by simp
  next
    case 2
    have "map_of (l # ls) (fst r) = None" using 2 ok(2) "4.prems"(1) by (intro map_of_smaller) auto
    from differing_right[OF this no(2)] 2 "4.IH"(2)[OF 2 "4.prems"(1) ok(3)] show ?thesis by simp
  next
    case 3
    then have eq: "fst r = fst l" by simp
    have "map_of rs (fst l) = None" using no(2) eq by simp
    from differing_both[OF no(1) this eq] 3 "4.IH"(3)[OF 3 ok(1,3)] show ?thesis
      by (cases "snd l = snd r") simp_all
  qed
qed

section \<open>Below a prefix and its bytes\<close>

lemma below_child:
  assumes "prefix_ok p" "px_length p < 32" "records_ok rs"
  shows "below (prefix_child p b) rs = slot (px_length p) (unat b) (below p rs)"
proof -
  let ?k = "px_length p"
  have "covers (prefix_child p b) (fst r) \<longleftrightarrow> covers p (fst r) \<and> unat (fst r ! ?k) = unat b" if "r \<in> set rs" for r
  proof -
    have len: "?k < length (fst r)" "?k < length (px_bytes p)"
      using records_ok_id[OF assms(3) that] assms(1,2) by (simp_all add: prefix_ok_def)
    then show ?thesis
      by (auto simp: covers_def prefix_child_def take_Suc_conv_app_nth word_unat_eq_iff)
  qed
  then show ?thesis by (auto simp: below_def slot_def intro!: filter_cong)
qed

lemma prefix_child_ok:
  "prefix_ok p \<Longrightarrow> px_length p < 32 \<Longrightarrow> prefix_ok (prefix_child p b) \<and> px_length (prefix_child p b) = px_length p + 1"
  by (simp add: prefix_ok_def prefix_child_def)

lemma prefix_0: "prefix_ok Prefix_0" "px_length Prefix_0 = 0" "below Prefix_0 rs = rs"
  by (simp_all add: prefix_ok_def Prefix_0_def below_def covers_def)

lemma map_of_filter_id: "map_of (filter (\<lambda>r. P (fst r)) rs) i = (if P i then map_of rs i else None)"
  by (induction rs) auto

lemma differing_filter:
  "differing (filter (\<lambda>r. P (fst r)) ls) (filter (\<lambda>r. P (fst r)) rs) = {d \<in> differing ls rs. P (df_id d)}"
proof (rule set_eqI)
  fix d :: TrieDifference
  obtain i a b where d: "d = \<lparr>df_id = i, df_left = a, df_right = b\<rparr>" by (cases d)
  show "d \<in> differing (filter (\<lambda>r. P (fst r)) ls) (filter (\<lambda>r. P (fst r)) rs) \<longleftrightarrow>
      d \<in> {d \<in> differing ls rs. P (df_id d)}"
    unfolding d by (cases a; cases b; simp add: differing_iff map_of_filter_id)
qed

lemma mset_compare_filter:
  assumes "records_ok ls" "records_ok rs"
  shows "mset (compare (filter (\<lambda>r. P (fst r)) ls) (filter (\<lambda>r. P (fst r)) rs)) =
    filter_mset (\<lambda>d. P (df_id d)) (mset (compare ls rs))"
proof -
  let ?c = "compare (filter (\<lambda>r. P (fst r)) ls) (filter (\<lambda>r. P (fst r)) rs)"
  have ok: "records_ok (filter (\<lambda>r. P (fst r)) ls)" "records_ok (filter (\<lambda>r. P (fst r)) rs)"
    using assms by (simp_all add: records_ok_filter)
  have "distinct ?c" "distinct (filter (\<lambda>d. P (df_id d)) (compare ls rs))"
    using distinct_compare[OF ok] distinct_compare[OF assms] by (simp_all add: distinct_map)
  moreover have "set ?c = set (filter (\<lambda>d. P (df_id d)) (compare ls rs))"
    unfolding set_filter set_compare[OF ok] set_compare[OF assms] by (rule differing_filter)
  ultimately have "mset ?c = mset (filter (\<lambda>d. P (df_id d)) (compare ls rs))"
    by (simp only: set_eq_iff_mset_eq_distinct)
  then show ?thesis by simp
qed

lemma sum_filter_mset:
  "\<forall>x \<in># M. f x < n \<Longrightarrow> (\<Sum>i \<leftarrow> [0..<n]. filter_mset (\<lambda>x. f x = i) M) = M"
proof (induction n arbitrary: M)
  case (Suc n)
  let ?lo = "filter_mset (\<lambda>x. f x < n) M"
  have "(\<Sum>i \<leftarrow> [0..<n]. filter_mset (\<lambda>x. f x = i) ?lo) = ?lo" by (rule Suc.IH) simp
  moreover have "map (\<lambda>i. filter_mset (\<lambda>x. f x = i) ?lo) [0..<n] = map (\<lambda>i. filter_mset (\<lambda>x. f x = i) M) [0..<n]"
    by (rule map_cong) (auto simp: filter_filter_mset intro!: filter_mset_cong)
  ultimately have lo: "(\<Sum>i \<leftarrow> [0..<n]. filter_mset (\<lambda>x. f x = i) M) = ?lo" by (simp only:)
  have "filter_mset (\<lambda>x. f x = n) M = filter_mset (\<lambda>x. \<not> f x < n) M"
    using Suc.prems by (intro filter_mset_cong) auto
  then have part: "?lo + filter_mset (\<lambda>x. f x = n) M = M"
    by (simp only: multiset_partition[of M "\<lambda>x. f x < n", symmetric])
  have "(\<Sum>i \<leftarrow> [0..<Suc n]. filter_mset (\<lambda>x. f x = i) M) = ?lo + filter_mset (\<lambda>x. f x = n) M"
    using lo by simp
  then show ?case unfolding part .
qed simp

text \<open>The differences below a prefix are those below it and each byte.\<close>

lemma mset_compare_slots:
  assumes "segment_ok d ls" "segment_ok d rs"
  shows "(\<Sum>i \<leftarrow> [0..<fanout]. mset (compare (slot d i ls) (slot d i rs))) = mset (compare ls rs)"
proof -
  have "mset (compare (slot d i ls) (slot d i rs)) =
      filter_mset (\<lambda>x. unat (df_id x ! d) = i) (mset (compare ls rs))" for i
    unfolding slot_def using segment_okD(1)[OF assms(1)] segment_okD(1)[OF assms(2)]
    by (rule mset_compare_filter[where P = "\<lambda>j. unat (j ! d) = i"])
  then show ?thesis by (simp add: sum_filter_mset unat_byte)
qed

section \<open>What a comparison relies on\<close>

text \<open>
  A source that stands for the records \<open>rs\<close>: what it answers is a function of them. Records are
  asked for only where there are no more than a leaf takes.
\<close>

locale trie_source =
  fixes C :: crypto
    and good :: "'s \<Rightarrow> bool"
    and source :: "'s TrieSource"
    and rs :: "Record list"
  assumes source_ledger: "good s \<Longrightarrow> ledger_ok rs"
    and source_root: "good s \<Longrightarrow> \<exists>s'. src_root source s = (Inr (trie_summary C 0 rs), s') \<and> good s'"
    and source_children: "good s \<Longrightarrow> \<forall>p \<in> set ps. prefix_ok p \<and> px_length p < 32 \<Longrightarrow>
      \<exists>s'. src_children source ps s =
        (Inr (map (\<lambda>p. slot_summaries C (px_length p) (below p rs)) ps), s') \<and> good s'"
    and source_records: "good s \<Longrightarrow> \<forall>p \<in> set ps. prefix_ok p \<and> length (below p rs) \<le> leaf_max \<Longrightarrow>
      \<exists>s'. src_records source ps s = (Inr (map (\<lambda>p. below p rs) ps), s') \<and> good s'"

text \<open>Every message whose digest a source may answer with for any prefix.\<close>

definition ledger_inputs :: "crypto \<Rightarrow> Record list \<Rightarrow> Bytes set" where
  "ledger_inputs C rs = (\<Union>p \<in> {p. prefix_ok p}. digest_inputs C (px_length p) (below p rs))"

lemma ledger_inputs_sound:
  assumes "crypto_ok C" "inj_on (sha256 C) (ledger_inputs C ls \<union> ledger_inputs C rs)"
    "ledger_ok ls" "ledger_ok rs" "prefix_ok p"
    "trie_summary C (px_length p) (below p ls) = trie_summary C (px_length p) (below p rs)"
  shows "below p ls = below p rs"
proof (rule trie_summary_inj[OF assms(1) _ _ _ assms(6)])
  show "segment_ok (px_length p) (below p ls)" "segment_ok (px_length p) (below p rs)"
    using assms(3-5) by (simp_all add: below_segment prefix_ok_def)
  have "digest_inputs C (px_length p) (below p zs) \<subseteq> ledger_inputs C zs" for zs
    using assms(5) unfolding ledger_inputs_def by blast
  then show "inj_on (sha256 C) (digest_inputs C (px_length p) (below p ls) \<union> digest_inputs C (px_length p) (below p rs))"
    using assms(2) by (meson Un_mono inj_on_subset)
qed

definition differs_below :: "Record list \<Rightarrow> Record list \<Rightarrow> Prefix \<Rightarrow> TrieDifference list" where
  "differs_below ls rs p = compare (below p ls) (below p rs)"

text \<open>
  Between two rounds, at level \<open>k\<close>: each prefix in hand has that length and a difference below it,
  and what was visited with what is below the prefixes are all the differences.
\<close>

definition diff_inv :: "Record list \<Rightarrow> Record list \<Rightarrow> nat \<Rightarrow> DiffState \<Rightarrow> bool" where
  "diff_inv ls rs k d \<longleftrightarrow>
     (\<forall>p \<in> set (ds_descend d @ ds_read d). prefix_ok p \<and> px_length p = k \<and> below p ls \<noteq> below p rs) \<and>
     (\<forall>p \<in> set (ds_descend d). leaf_max < length (below p ls) \<or> leaf_max < length (below p rs)) \<and>
     (\<forall>p \<in> set (ds_read d). length (below p ls) \<le> leaf_max \<and> length (below p rs) \<le> leaf_max) \<and>
     mset (ds_visited d) + (\<Sum>p \<leftarrow> ds_descend d @ ds_read d. mset (differs_below ls rs p)) =
       mset (compare ls rs) \<and>
     dc_prefixes (ds_cost d) \<le> k * length (compare ls rs) \<and> dc_rounds (ds_cost d) \<le> 2 * k \<and>
     k \<le> 32 \<and> (ds_descend d @ ds_read d \<noteq> [] \<longrightarrow> k \<le> 31)"

lemma differs_below_Nil: "differs_below ls rs p = [] \<longleftrightarrow> below p ls = below p rs"
  by (simp add: differs_below_def compare_Nil_iff)

text \<open>Each prefix in hand has a difference of its own.\<close>

lemma length_le_sum:
  "\<forall>p \<in> set ps. f p \<noteq> {#} \<Longrightarrow> length ps \<le> size (\<Sum>p \<leftarrow> ps. f p)"
proof (induction ps)
  case (Cons p ps)
  then have "1 \<le> size (f p)" by (simp add: Suc_le_eq nonempty_has_size)
  with Cons show ?case by simp
qed simp

lemma diff_inv_pending:
  assumes "diff_inv ls rs k d"
  shows "length (ds_descend d) + length (ds_read d) \<le> length (compare ls rs)"
proof -
  let ?f = "\<lambda>p. mset (differs_below ls rs p)"
  have "\<forall>p \<in> set (ds_descend d @ ds_read d). ?f p \<noteq> {#}"
    using assms by (auto simp: diff_inv_def differs_below_Nil)
  from length_le_sum[OF this] have "length (ds_descend d @ ds_read d) \<le> size (\<Sum>p \<leftarrow> ds_descend d @ ds_read d. ?f p)" .
  also have "\<dots> \<le> size (mset (ds_visited d) + (\<Sum>p \<leftarrow> ds_descend d @ ds_read d. ?f p))" by simp
  also have "mset (ds_visited d) + (\<Sum>p \<leftarrow> ds_descend d @ ds_read d. ?f p) = mset (compare ls rs)"
    using assms by (simp only: diff_inv_def)
  finally show ?thesis by simp
qed

text \<open>The subtrees whose summaries differ, with the summaries.\<close>

definition differing_slots :: "Prefix list \<Rightarrow> Summary list list \<Rightarrow> Summary list list \<Rightarrow>
    (nat \<times> nat) list \<Rightarrow> (Prefix \<times> Summary \<times> Summary) list" where
  "differing_slots level a b ats =
     map (\<lambda>(i, k). (prefix_child (level ! i) (of_nat k), a ! i ! k, b ! i ! k))
       (filter (\<lambda>(i, k). a ! i ! k \<noteq> b ! i ! k) ats)"

lemma foldR_diff_slot:
  assumes "\<forall>(i, k) \<in> set ats. px_length (level ! i) < 32"
  shows "foldR (diff_slot level a b) d ats =
    Inr (foldl (\<lambda>d (p, x, y). place p x y d) d (differing_slots level a b ats))"
  using assms
proof (induction ats arbitrary: d)
  case (Cons at ats)
  obtain i k where at: "at = (i, k)" by force
  from Cons show ?case unfolding at by (simp add: differing_slots_def diff_slot_def)
qed (simp add: differing_slots_def)

definition small_pair :: "Prefix \<times> Summary \<times> Summary \<Rightarrow> bool" where
  "small_pair q \<longleftrightarrow> (case q of (p, x, y) \<Rightarrow> max (sm_count x) (sm_count y) \<le> of_nat leaf_max)"

lemma place_pair:
  "place p x y d = (if small_pair (p, x, y) then d\<lparr>ds_read := ds_read d @ [p]\<rparr>
     else d\<lparr>ds_descend := ds_descend d @ [p]\<rparr>)"
  by (simp add: place_def small_pair_def)

lemma foldl_place:
  "foldl (\<lambda>d (p, x, y). place p x y d) d qs =
     d\<lparr>ds_descend := ds_descend d @ map fst (filter (\<lambda>q. \<not> small_pair q) qs),
       ds_read := ds_read d @ map fst (filter small_pair qs)\<rparr>"
proof (induction qs arbitrary: d)
  case (Cons q qs)
  obtain p x y where q: "q = (p, x, y)" by (cases q) auto
  show ?case unfolding q by (cases "small_pair (p, x, y)") (simp_all add: Cons.IH place_pair[of p x y])
qed simp

lemma sum_list_product:
  "(\<Sum>x \<leftarrow> List.product xs ys. f x) = (\<Sum>i \<leftarrow> xs. \<Sum>k \<leftarrow> ys. (f (i, k) :: 'a::comm_monoid_add))"
  by (induction xs) (simp_all add: comp_def)

lemma sum_list_nth: "(\<Sum>i \<leftarrow> [0..<length xs]. f (xs ! i)) = (\<Sum>x \<leftarrow> xs. f x)"
  by (metis (no_types, lifting) map_map comp_def map_nth map_eq_conv)

lemma count_le_leaf_max:
  "length xs < 2 ^ 64 \<Longrightarrow> (of_nat (length xs) :: u64) \<le> of_nat leaf_max \<longleftrightarrow> length xs \<le> leaf_max"
  by (simp add: word_le_nat_alt unat_length_u64 unat_of_nat take_bit_nat_eq_self leaf_max_def)

locale trie_diff =
  left: trie_source C good left ls + right: trie_source C good right rs
  for C :: crypto and good :: "'s \<Rightarrow> bool" and left right :: "'s TrieSource" and ls rs :: "Record list" +
  fixes pause :: "('s, unit) prog"
  assumes pause_returns: "good s \<Longrightarrow> \<exists>s'. pause s = (Inr (), s') \<and> good s'"
    and no_collision: "good s \<Longrightarrow> prefix_ok p \<Longrightarrow>
      trie_summary C (px_length p) (below p ls) = trie_summary C (px_length p) (below p rs) \<Longrightarrow>
      below p ls = below p rs"
begin

abbreviation Diff where "Diff \<equiv> \<lambda>p. mset (differs_below ls rs p)"

lemma summary_small:
  assumes "good s" "prefix_ok p"
  shows "small_pair (q, trie_summary C d (below p ls), trie_summary C d (below p rs)) \<longleftrightarrow>
    length (below p ls) \<le> leaf_max \<and> length (below p rs) \<le> leaf_max"
proof -
  have "length (below p ls) < 2 ^ 64" "length (below p rs) < 2 ^ 64"
    using segment_okD(3)[OF left.source_ledger[OF assms(1)]] segment_okD(3)[OF right.source_ledger[OF assms(1)]]
      le_less_trans[OF length_filter_le] unfolding below_def by blast+
  then show ?thesis by (simp add: small_pair_def trie_summary_def count_le_leaf_max)
qed

lemma read_round:
  assumes "good s" "diff_inv ls rs k d"
  shows "\<exists>d' s'. diff_read left right d s = (Inr d', s') \<and> good s' \<and> ds_read d' = [] \<and>
    ds_descend d' = ds_descend d \<and>
    ds_visited d' = ds_visited d @ concat (map (differs_below ls rs) (ds_read d)) \<and>
    dc_prefixes (ds_cost d') = dc_prefixes (ds_cost d) + length (ds_read d) \<and>
    dc_rounds (ds_cost d') \<le> dc_rounds (ds_cost d) + 1"
proof (cases "ds_read d = []")
  case True
  with assms(1) show ?thesis by (simp add: diff_read_def)
next
  case False
  have l: "\<forall>p \<in> set (ds_read d). prefix_ok p \<and> length (below p ls) \<le> leaf_max"
    and r: "\<forall>p \<in> set (ds_read d). prefix_ok p \<and> length (below p rs) \<le> leaf_max"
    using assms(2) by (simp_all add: diff_inv_def)
  obtain s1 where 1: "src_records left (ds_read d) s = (Inr (map (\<lambda>p. below p ls) (ds_read d)), s1)" "good s1"
    using left.source_records[OF assms(1) l] by blast
  obtain s2 where 2: "src_records right (ds_read d) s1 = (Inr (map (\<lambda>p. below p rs) (ds_read d)), s2)" "good s2"
    using right.source_records[OF 1(2) r] by blast
  have "map (\<lambda>i. compare (map (\<lambda>p. below p ls) (ds_read d) ! i) (map (\<lambda>p. below p rs) (ds_read d) ! i))
      [0..<length (ds_read d)] = map (differs_below ls rs) (ds_read d)"
    by (rule nth_equalityI) (simp_all add: differs_below_def)
  with False 1 2 show ?thesis by (simp add: diff_read_def bindM_def Let_def)
qed

text \<open>One subtree of a level, as the sources answer it.\<close>

lemma slot_answer:
  assumes "good s" "prefix_ok p" "px_length p < 32" "k < fanout"
  defines "q \<equiv> prefix_child p (of_nat k)"
  shows "slot_summaries C (px_length p) (below p ls) ! k = trie_summary C (px_length q) (below q ls)"
    and "slot_summaries C (px_length p) (below p rs) ! k = trie_summary C (px_length q) (below q rs)"
    and "below q ls = slot (px_length p) k (below p ls)" "below q rs = slot (px_length p) k (below p rs)"
proof -
  have k: "unat (of_nat k :: u8) = k" using assms(4) by (simp add: fanout_def unat_of_nat take_bit_nat_eq_self)
  have ok: "records_ok ls" "records_ok rs"
    using segment_okD(1) left.source_ledger[OF assms(1)] right.source_ledger[OF assms(1)] by blast+
  show b: "below q ls = slot (px_length p) k (below p ls)" "below q rs = slot (px_length p) k (below p rs)"
    using below_child[OF assms(2,3) ok(1), of "of_nat k"] below_child[OF assms(2,3) ok(2), of "of_nat k"] k
    by (simp_all add: q_def)
  have "px_length q = px_length p + 1" using prefix_child_ok[OF assms(2,3)] by (simp add: q_def)
  then show "slot_summaries C (px_length p) (below p ls) ! k = trie_summary C (px_length q) (below q ls)"
    "slot_summaries C (px_length p) (below p rs) ! k = trie_summary C (px_length q) (below q rs)"
    using assms(4) by (simp_all add: slot_summaries_def b)
qed

end

context trie_diff
begin

definition level_slots :: "Prefix list \<Rightarrow> (Prefix \<times> Summary \<times> Summary) list" where
  "level_slots level =
     differing_slots level (map (\<lambda>p. slot_summaries C (px_length p) (below p ls)) level)
       (map (\<lambda>p. slot_summaries C (px_length p) (below p rs)) level)
       (List.product [0..<length level] [0..<fanout])"

lemma level_slotsE:
  assumes "q \<in> set (level_slots level)" "good s" "\<forall>p \<in> set level. prefix_ok p \<and> px_length p = k" "k < 32"
  shows "prefix_ok (fst q) \<and> px_length (fst q) = k + 1 \<and> below (fst q) ls \<noteq> below (fst q) rs \<and>
    (small_pair q \<longleftrightarrow> length (below (fst q) ls) \<le> leaf_max \<and> length (below (fst q) rs) \<le> leaf_max)"
proof -
  from assms(1) obtain i m where im: "i < length level" "m < fanout"
    "q = (prefix_child (level ! i) (of_nat m),
      slot_summaries C (px_length (level ! i)) (below (level ! i) ls) ! m,
      slot_summaries C (px_length (level ! i)) (below (level ! i) rs) ! m)"
    "slot_summaries C (px_length (level ! i)) (below (level ! i) ls) ! m \<noteq>
      slot_summaries C (px_length (level ! i)) (below (level ! i) rs) ! m"
    unfolding level_slots_def differing_slots_def by auto
  have p: "prefix_ok (level ! i)" "px_length (level ! i) = k" "px_length (level ! i) < 32"
    using assms(3,4) im(1) by auto
  note ans = slot_answer[OF assms(2) p(1,3) im(2)]
  have ok: "prefix_ok (fst q)" "px_length (fst q) = k + 1"
    using prefix_child_ok[OF p(1,3)] p(2) im(3) by simp_all
  have q: "q = (fst q, trie_summary C (px_length (fst q)) (below (fst q) ls),
      trie_summary C (px_length (fst q)) (below (fst q) rs))"
    using im(3) ans(1,2) by simp
  have "below (fst q) ls \<noteq> below (fst q) rs" using im(3,4) ans(1,2) by auto
  moreover have "small_pair q \<longleftrightarrow> length (below (fst q) ls) \<le> leaf_max \<and> length (below (fst q) rs) \<le> leaf_max"
    using summary_small[OF assms(2) ok(1)] q by metis
  ultimately show ?thesis using ok by blast
qed

lemma level_slots_sum:
  assumes "good s" "\<forall>p \<in> set level. prefix_ok p \<and> px_length p < 32"
  shows "(\<Sum>q \<leftarrow> level_slots level. Diff (fst q)) = (\<Sum>p \<leftarrow> level. Diff p)"
proof -
  let ?a = "map (\<lambda>p. slot_summaries C (px_length p) (below p ls)) level"
  let ?b = "map (\<lambda>p. slot_summaries C (px_length p) (below p rs)) level"
  let ?ats = "List.product [0..<length level] [0..<fanout]"
  let ?f = "\<lambda>(i, m). Diff (prefix_child (level ! i) (of_nat m))"
  have "(\<Sum>q \<leftarrow> level_slots level. Diff (fst q)) = (\<Sum>at \<leftarrow> filter (\<lambda>(i, m). ?a ! i ! m \<noteq> ?b ! i ! m) ?ats. ?f at)"
    unfolding level_slots_def differing_slots_def map_map
    by (rule arg_cong[where f = sum_list], rule map_cong) auto
  also have "\<dots> = (\<Sum>at \<leftarrow> ?ats. ?f at)"
  proof (rule sum_list_map_filter)
    fix at assume at: "at \<in> set ?ats" "\<not> (case at of (i, m) \<Rightarrow> ?a ! i ! m \<noteq> ?b ! i ! m)"
    then obtain i m where im: "at = (i, m)" "i < length level" "m < fanout"
      "slot_summaries C (px_length (level ! i)) (below (level ! i) ls) ! m =
       slot_summaries C (px_length (level ! i)) (below (level ! i) rs) ! m" by auto
    have p: "prefix_ok (level ! i)" "px_length (level ! i) < 32" using assms(2) im(2) by auto
    note ans = slot_answer[OF assms(1) p im(3)]
    have "below (prefix_child (level ! i) (of_nat m)) ls = below (prefix_child (level ! i) (of_nat m)) rs"
      using no_collision[OF assms(1)] prefix_child_ok[OF p] im(4) ans(1,2) by simp
    then show "?f at = {#}" by (simp add: im(1) differs_below_Nil)
  qed
  also have "\<dots> = (\<Sum>i \<leftarrow> [0..<length level]. \<Sum>m \<leftarrow> [0..<fanout]. Diff (prefix_child (level ! i) (of_nat m)))"
    by (simp add: sum_list_product)
  also have "\<dots> = (\<Sum>i \<leftarrow> [0..<length level]. Diff (level ! i))"
  proof (rule arg_cong[where f = sum_list], rule map_cong[OF refl])
    fix i assume "i \<in> set [0..<length level]"
    then have p: "prefix_ok (level ! i)" "px_length (level ! i) < 32" using assms(2) by auto
    have seg: "segment_ok (px_length (level ! i)) (below (level ! i) ls)"
      "segment_ok (px_length (level ! i)) (below (level ! i) rs)"
      using below_segment left.source_ledger[OF assms(1)] right.source_ledger[OF assms(1)] p(2) by simp_all
    have each: "map (\<lambda>m. Diff (prefix_child (level ! i) (of_nat m))) [0..<fanout] =
        map (\<lambda>m. mset (compare (slot (px_length (level ! i)) m (below (level ! i) ls))
          (slot (px_length (level ! i)) m (below (level ! i) rs)))) [0..<fanout]"
      using slot_answer(3,4)[OF assms(1) p] by (intro map_cong) (simp_all add: differs_below_def)
    show "(\<Sum>m \<leftarrow> [0..<fanout]. Diff (prefix_child (level ! i) (of_nat m))) = Diff (level ! i)"
      unfolding each mset_compare_slots[OF seg] by (simp add: differs_below_def)
  qed
  also have "\<dots> = (\<Sum>p \<leftarrow> level. Diff p)" by (rule sum_list_nth)
  finally show ?thesis .
qed

end

lemma sum_list_partition:
  "(\<Sum>x \<leftarrow> filter (\<lambda>x. \<not> P x) xs. f x) + (\<Sum>x \<leftarrow> filter P xs. f x) = (\<Sum>x \<leftarrow> xs. (f x :: 'b multiset))"
  by (induction xs) (simp_all add: ac_simps)

context trie_diff
begin

text \<open>A round takes the invariant to the next level.\<close>

lemma descend_round:
  assumes "good s" "\<forall>p \<in> set (ds_descend d). prefix_ok p \<and> px_length p = k" "k < 32" "ds_read d = []"
  shows "\<exists>d' s'. diff_descend left right d s = (Inr d', s') \<and> good s' \<and>
    ds_descend d' = map fst (filter (\<lambda>q. \<not> small_pair q) (level_slots (ds_descend d))) \<and>
    ds_read d' = map fst (filter small_pair (level_slots (ds_descend d))) \<and>
    ds_visited d' = ds_visited d \<and>
    dc_prefixes (ds_cost d') = dc_prefixes (ds_cost d) + length (ds_descend d) \<and>
    dc_rounds (ds_cost d') \<le> dc_rounds (ds_cost d) + 1"
proof (cases "ds_descend d = []")
  case True
  with assms(1,4) show ?thesis
    by (simp add: diff_descend_def level_slots_def differing_slots_def)
next
  case False
  let ?level = "ds_descend d"
  let ?a = "map (\<lambda>p. slot_summaries C (px_length p) (below p ls)) ?level"
  let ?b = "map (\<lambda>p. slot_summaries C (px_length p) (below p rs)) ?level"
  have ok: "\<forall>p \<in> set ?level. prefix_ok p \<and> px_length p < 32" using assms(2,3) by simp
  obtain s1 where 1: "src_children left ?level s = (Inr ?a, s1)" "good s1"
    using left.source_children[OF assms(1) ok] by blast
  obtain s2 where 2: "src_children right ?level s1 = (Inr ?b, s2)" "good s2"
    using right.source_children[OF 1(2) ok] by blast
  have "\<forall>(i, m) \<in> set (List.product [0..<length ?level] [0..<fanout]). px_length (?level ! i) < 32"
    using ok by auto
  note slots = foldR_diff_slot[OF this, of ?a ?b, folded level_slots_def]
  show ?thesis
    using False 1 2 assms(4) by (simp add: diff_descend_def bindM_def Let_def slots foldl_place)
qed

lemma round_inv:
  assumes "good s" "diff_inv ls rs k d" "ds_descend d \<noteq> [] \<or> ds_read d \<noteq> []"
  shows "\<exists>d1 s1 d2 s2. diff_read left right d s = (Inr d1, s1) \<and> diff_descend left right d1 s1 = (Inr d2, s2) \<and>
    good s2 \<and> diff_inv ls rs (k + 1) d2"
proof -
  have inv: "\<forall>p \<in> set (ds_descend d). prefix_ok p \<and> px_length p = k" "k \<le> 31"
    "mset (ds_visited d) + (\<Sum>p \<leftarrow> ds_descend d @ ds_read d. Diff p) = mset (compare ls rs)"
    "dc_prefixes (ds_cost d) \<le> k * length (compare ls rs)" "dc_rounds (ds_cost d) \<le> 2 * k"
    using assms(2,3) unfolding diff_inv_def by auto
  then have k: "k < 32" by simp
  obtain d1 s1 where 1: "diff_read left right d s = (Inr d1, s1)" "good s1" "ds_read d1 = []"
    "ds_descend d1 = ds_descend d"
    "ds_visited d1 = ds_visited d @ concat (map (differs_below ls rs) (ds_read d))"
    "dc_prefixes (ds_cost d1) = dc_prefixes (ds_cost d) + length (ds_read d)"
    "dc_rounds (ds_cost d1) \<le> dc_rounds (ds_cost d) + 1"
    using read_round[OF assms(1,2)] by blast
  define qs where "qs = level_slots (ds_descend d)"
  obtain d2 s2 where 2: "diff_descend left right d1 s1 = (Inr d2, s2)" "good s2"
    "ds_descend d2 = map fst (filter (\<lambda>q. \<not> small_pair q) qs)" "ds_read d2 = map fst (filter small_pair qs)"
    "ds_visited d2 = ds_visited d1" "dc_prefixes (ds_cost d2) = dc_prefixes (ds_cost d1) + length (ds_descend d)"
    "dc_rounds (ds_cost d2) \<le> dc_rounds (ds_cost d1) + 1"
    using descend_round[OF 1(2), of d1 k] inv(1) k 1(3,4) unfolding qs_def by auto
  have q: "prefix_ok (fst q) \<and> px_length (fst q) = k + 1 \<and> below (fst q) ls \<noteq> below (fst q) rs \<and>
      (small_pair q \<longleftrightarrow> length (below (fst q) ls) \<le> leaf_max \<and> length (below (fst q) rs) \<le> leaf_max)"
    if "q \<in> set qs" for q
    using level_slotsE[OF _ assms(1) inv(1) k] that unfolding qs_def by blast
  have "(\<Sum>p \<leftarrow> ds_descend d2 @ ds_read d2. Diff p) = (\<Sum>q \<leftarrow> qs. Diff (fst q))"
    unfolding 2(3,4) using sum_list_partition[of "\<lambda>q. Diff (fst q)" small_pair qs] by (simp add: comp_def)
  also have "\<dots> = (\<Sum>p \<leftarrow> ds_descend d. Diff p)"
    unfolding qs_def by (rule level_slots_sum[OF assms(1)]) (use inv(1) k in simp)
  finally have "mset (ds_visited d2) + (\<Sum>p \<leftarrow> ds_descend d2 @ ds_read d2. Diff p) = mset (compare ls rs)"
    using inv(3) 1(5) 2(5) by (simp add: mset_concat comp_def ac_simps)
  moreover have "dc_prefixes (ds_cost d2) \<le> (k + 1) * length (compare ls rs)"
    using inv(4) 1(6) 2(6) diff_inv_pending[OF assms(2)] by (simp add: add_mult_distrib)
  moreover have "dc_rounds (ds_cost d2) \<le> 2 * (k + 1)" using inv(5) 1(7) 2(7) by simp
  moreover have "k + 1 \<le> 31" if "ds_descend d2 @ ds_read d2 \<noteq> []"
  proof -
    have "qs \<noteq> []" using that unfolding 2(3,4) by auto
    then obtain p where p: "p \<in> set (ds_descend d)"
      unfolding qs_def level_slots_def differing_slots_def by (cases "ds_descend d") auto
    then have big: "leaf_max < length (below p ls) \<or> leaf_max < length (below p rs)" "px_length p = k"
      using assms(2) inv(1) unfolding diff_inv_def by auto
    moreover have "segment_ok k (below p ls)" "segment_ok k (below p rs)"
      using below_segment[OF left.source_ledger[OF assms(1)], of p]
        below_segment[OF right.source_ledger[OF assms(1)], of p] big(2) k by simp_all
    ultimately have "k < 31" using segment_interior_depth by blast
    then show ?thesis by simp
  qed
  moreover have "\<forall>p \<in> set (ds_descend d2 @ ds_read d2). prefix_ok p \<and> px_length p = k + 1 \<and> below p ls \<noteq> below p rs"
    "\<forall>p \<in> set (ds_descend d2). leaf_max < length (below p ls) \<or> leaf_max < length (below p rs)"
    "\<forall>p \<in> set (ds_read d2). length (below p ls) \<le> leaf_max \<and> length (below p rs) \<le> leaf_max"
    using q unfolding 2(3,4) by (auto simp: not_le)
  ultimately have "diff_inv ls rs (k + 1) d2" using k unfolding diff_inv_def by auto
  with 1(1) 2(1,2) show ?thesis by blast
qed

lemma loop_inv:
  assumes "good s" "diff_inv ls rs k d" "33 \<le> fuel + k"
  shows "\<exists>d' s'. diff_loop fuel left right pause d s = (Inr d', s') \<and> good s' \<and>
    mset (ds_visited d') = mset (compare ls rs) \<and>
    dc_prefixes (ds_cost d') \<le> 32 * length (compare ls rs) \<and> dc_rounds (ds_cost d') \<le> 64"
  using assms
proof (induction fuel arbitrary: s d k)
  case 0
  then show ?case by (simp add: diff_inv_def)
next
  case (Suc fuel)
  show ?case
  proof (cases "ds_descend d = [] \<and> ds_read d = []")
    case True
    have k: "k \<le> 32" "dc_prefixes (ds_cost d) \<le> k * length (compare ls rs)" "dc_rounds (ds_cost d) \<le> 2 * k"
      "mset (ds_visited d) = mset (compare ls rs)"
      using Suc.prems(2) True by (auto simp: diff_inv_def)
    have "dc_prefixes (ds_cost d) \<le> 32 * length (compare ls rs)"
      using k(2) mult_le_mono1[OF k(1)] by (rule order_trans)
    with k True Suc.prems(1) show ?thesis by simp
  next
    case False
    obtain d1 s1 d2 s2 where r: "diff_read left right d s = (Inr d1, s1)"
      "diff_descend left right d1 s1 = (Inr d2, s2)" "good s2" "diff_inv ls rs (k + 1) d2"
      using round_inv[OF Suc.prems(1,2)] False by blast
    obtain s3 where 3: "pause s2 = (Inr (), s3)" "good s3" using pause_returns[OF r(3)] by blast
    have "diff_loop (Suc fuel) left right pause d s = diff_loop fuel left right pause d2 s3"
      using False r(1,2) 3(1) by (auto simp: bindM_def)
    with Suc.IH[OF 3(2) r(4)] Suc.prems(3) show ?thesis by simp
  qed
qed

lemma diff_tries_finds:
  assumes "good s"
  shows "\<exists>visited cost s'. diff_tries left right pause s = (Inr (visited, cost), s') \<and> good s' \<and>
    mset visited = mset (compare ls rs) \<and>
    dc_prefixes cost \<le> 32 * length visited \<and> dc_rounds cost \<le> 64"
proof -
  obtain s1 where 1: "src_root left s = (Inr (trie_summary C 0 ls), s1)" "good s1"
    using left.source_root[OF assms] by blast
  obtain s2 where 2: "src_root right s1 = (Inr (trie_summary C 0 rs), s2)" "good s2"
    using right.source_root[OF 1(2)] by blast
  show ?thesis
  proof (cases "trie_summary C 0 ls = trie_summary C 0 rs")
    case True
    then have "ls = rs" using no_collision[OF assms prefix_0(1)] by (simp add: prefix_0)
    with True 1 2 show ?thesis by (simp add: diff_tries_def bindM_def TrieDiffCost_0_def)
  next
    case False
    let ?d = "place Prefix_0 (trie_summary C 0 ls) (trie_summary C 0 rs)
      \<lparr>ds_descend = [], ds_read = [], ds_visited = [], ds_cost = TrieDiffCost_0\<rparr>"
    have ne: "ls \<noteq> rs" using False by auto
    have "small_pair (Prefix_0, trie_summary C 0 ls, trie_summary C 0 rs) \<longleftrightarrow> length ls \<le> leaf_max \<and> length rs \<le> leaf_max"
      using summary_small[OF assms prefix_0(1), of Prefix_0 0] by (simp add: prefix_0)
    then have "diff_inv ls rs 0 ?d"
      using ne by (auto simp: diff_inv_def place_pair prefix_0 differs_below_def TrieDiffCost_0_def not_le)
    from loop_inv[OF 2(2) this, of diff_fuel] obtain d' s' where
      l: "diff_loop diff_fuel left right pause ?d s2 = (Inr d', s')" "good s'"
      "mset (ds_visited d') = mset (compare ls rs)" "dc_prefixes (ds_cost d') \<le> 32 * length (compare ls rs)"
      "dc_rounds (ds_cost d') \<le> 64" by (auto simp: diff_fuel_def)
    have "length (ds_visited d') = length (compare ls rs)" using l(3) by (metis size_mset)
    with l False 1 2 show ?thesis by (simp add: diff_tries_def bindM_def)
  qed
qed

lemma diff_tries_exact:
  assumes "good s"
  shows "\<exists>visited cost s'. diff_tries left right pause s = (Inr (visited, cost), s') \<and>
    distinct (map df_id visited) \<and>
    set visited = {\<lparr>df_id = i, df_left = map_of ls i, df_right = map_of rs i\<rparr> | i. map_of ls i \<noteq> map_of rs i} \<and>
    dc_prefixes cost \<le> 32 * length visited \<and> dc_rounds cost \<le> 64"
proof -
  have ok: "records_ok ls" "records_ok rs"
    using segment_okD(1) left.source_ledger[OF assms] right.source_ledger[OF assms] by blast+
  obtain visited cost s' where d: "diff_tries left right pause s = (Inr (visited, cost), s')"
    "mset visited = mset (compare ls rs)" "dc_prefixes cost \<le> 32 * length visited" "dc_rounds cost \<le> 64"
    using diff_tries_finds[OF assms] by blast
  have "mset (map df_id visited) = mset (map df_id (compare ls rs))" using d(2) by simp
  then have "distinct (map df_id visited)"
    using distinct_compare[OF ok] by (metis mset_eq_imp_distinct_iff)
  moreover have "set visited = differing ls rs" using mset_eq_setD[OF d(2)] set_compare[OF ok] by simp
  ultimately show ?thesis using d(1,3,4) unfolding differing_def by blast
qed

end

section \<open>Snapshots are sources\<close>

lemma snapshot_holds_ledger: "snapshot_holds F s rs \<Longrightarrow> ledger_ok rs"
  unfolding snapshot_holds_def by (rule holds_segment)

interpretation snapshot_source: trie_source "sn_crypto s"
  "\<lambda>cache. snapshot_reading F s cache \<and> snapshot_holds F s rs" "SnapshotSource s" rs for F s rs
proof
  fix cache ps assume good: "snapshot_reading F s cache \<and> snapshot_holds F s rs"
  then have h: "snapshot_holds F s rs" by simp
  show "ledger_ok rs" by (rule snapshot_holds_ledger[OF h])
  have "child_summary (sn_root s) = trie_summary (sn_crypto s) 0 rs"
    using h holds_summary(1) unfolding snapshot_holds_def by blast
  then show "\<exists>cache'. src_root (SnapshotSource s) cache = (Inr (trie_summary (sn_crypto s) 0 rs), cache') \<and>
      snapshot_reading F s cache' \<and> snapshot_holds F s rs"
    using good by (simp add: SnapshotSource_def snapshot_summary_def child_summary_def)
  show "\<forall>p \<in> set ps. prefix_ok p \<and> px_length p < 32 \<Longrightarrow>
      \<exists>cache'. src_children (SnapshotSource s) ps cache =
        (Inr (map (\<lambda>p. slot_summaries (sn_crypto s) (px_length p) (below p rs)) ps), cache') \<and>
        snapshot_reading F s cache' \<and> snapshot_holds F s rs"
    using snapshot_children_holds[of F s cache rs ps] good by (simp add: SnapshotSource_def)
  show "\<forall>p \<in> set ps. prefix_ok p \<and> length (below p rs) \<le> leaf_max \<Longrightarrow>
      \<exists>cache'. src_records (SnapshotSource s) ps cache = (Inr (map (\<lambda>p. below p rs) ps), cache') \<and>
        snapshot_reading F s cache' \<and> snapshot_holds F s rs"
    using snapshot_records_holds[of F s cache rs ps uint64_max] good by (simp add: SnapshotSource_def)
qed

text \<open>Two sources side by side, each with a state of its own.\<close>

definition on_fst :: "('a, 'x) prog \<Rightarrow> ('a \<times> 'b, 'x) prog" where
  "on_fst m = zoomM fst (\<lambda>a s. (a, snd s)) m"

definition on_snd :: "('b, 'x) prog \<Rightarrow> ('a \<times> 'b, 'x) prog" where
  "on_snd m = zoomM snd (\<lambda>b s. (fst s, b)) m"

definition left_source :: "'a TrieSource \<Rightarrow> ('a \<times> 'b) TrieSource" where
  "left_source src =
     \<lparr>src_root = on_fst (src_root src), src_children = (\<lambda>ps. on_fst (src_children src ps)),
      src_records = (\<lambda>ps. on_fst (src_records src ps))\<rparr>"

definition right_source :: "'b TrieSource \<Rightarrow> ('a \<times> 'b) TrieSource" where
  "right_source src =
     \<lparr>src_root = on_snd (src_root src), src_children = (\<lambda>ps. on_snd (src_children src ps)),
      src_records = (\<lambda>ps. on_snd (src_records src ps))\<rparr>"

lemma on_fst_reads:
  "\<exists>a'. m a = (Inr x, a') \<and> P a' \<Longrightarrow> Q b \<Longrightarrow> \<exists>st. on_fst m (a, b) = (Inr x, st) \<and> P (fst st) \<and> Q (snd st)"
  by (auto simp: on_fst_def zoomM_apply)

lemma on_snd_reads:
  "P a \<Longrightarrow> \<exists>b'. m b = (Inr x, b') \<and> Q b' \<Longrightarrow> \<exists>st. on_snd m (a, b) = (Inr x, st) \<and> P (fst st) \<and> Q (snd st)"
  by (auto simp: on_snd_def zoomM_apply)

lemma trie_source_left:
  assumes "trie_source C P src rs"
  shows "trie_source C (\<lambda>st. P (fst st) \<and> Q (snd st)) (left_source src) rs"
proof -
  have src: "left_source src = \<lparr>src_root = on_fst (src_root src), src_children = (\<lambda>ps. on_fst (src_children src ps)),
      src_records = (\<lambda>ps. on_fst (src_records src ps))\<rparr>" by (rule left_source_def)
  show ?thesis
  proof
    fix st :: "'a \<times> 'b" and ps assume g: "P (fst st) \<and> Q (snd st)"
    show "ledger_ok rs" using trie_source.source_ledger[OF assms] g by blast
    show "\<exists>st'. src_root (left_source src) st = (Inr (trie_summary C 0 rs), st') \<and> P (fst st') \<and> Q (snd st')"
      using on_fst_reads[of "src_root src" "fst st" _ P Q "snd st"] trie_source.source_root[OF assms] g
      by (simp add: src)
    show "\<exists>st'. src_children (left_source src) ps st =
        (Inr (map (\<lambda>p. slot_summaries C (px_length p) (below p rs)) ps), st') \<and> P (fst st') \<and> Q (snd st')"
      if "\<forall>p \<in> set ps. prefix_ok p \<and> px_length p < 32"
      using on_fst_reads[of "src_children src ps" "fst st" _ P Q "snd st"]
        trie_source.source_children[OF assms _ that] g by (simp add: src)
    show "\<exists>st'. src_records (left_source src) ps st = (Inr (map (\<lambda>p. below p rs) ps), st') \<and> P (fst st') \<and> Q (snd st')"
      if "\<forall>p \<in> set ps. prefix_ok p \<and> length (below p rs) \<le> leaf_max"
      using on_fst_reads[of "src_records src ps" "fst st" _ P Q "snd st"]
        trie_source.source_records[OF assms _ that] g by (simp add: src)
  qed
qed

lemma trie_source_right:
  assumes "trie_source C Q src rs"
  shows "trie_source C (\<lambda>st. P (fst st) \<and> Q (snd st)) (right_source src) rs"
proof -
  have src: "right_source src = \<lparr>src_root = on_snd (src_root src), src_children = (\<lambda>ps. on_snd (src_children src ps)),
      src_records = (\<lambda>ps. on_snd (src_records src ps))\<rparr>" by (rule right_source_def)
  show ?thesis
  proof
    fix st :: "'b \<times> 'a" and ps assume g: "P (fst st) \<and> Q (snd st)"
    show "ledger_ok rs" using trie_source.source_ledger[OF assms] g by blast
    show "\<exists>st'. src_root (right_source src) st = (Inr (trie_summary C 0 rs), st') \<and> P (fst st') \<and> Q (snd st')"
      using on_snd_reads[of P "fst st" "src_root src" "snd st" _ Q] trie_source.source_root[OF assms] g
      by (simp add: src)
    show "\<exists>st'. src_children (right_source src) ps st =
        (Inr (map (\<lambda>p. slot_summaries C (px_length p) (below p rs)) ps), st') \<and> P (fst st') \<and> Q (snd st')"
      if "\<forall>p \<in> set ps. prefix_ok p \<and> px_length p < 32"
      using on_snd_reads[of P "fst st" "src_children src ps" "snd st" _ Q]
        trie_source.source_children[OF assms _ that] g by (simp add: src)
    show "\<exists>st'. src_records (right_source src) ps st = (Inr (map (\<lambda>p. below p rs) ps), st') \<and> P (fst st') \<and> Q (snd st')"
      if "\<forall>p \<in> set ps. prefix_ok p \<and> length (below p rs) \<le> leaf_max"
      using on_snd_reads[of P "fst st" "src_records src ps" "snd st" _ Q]
        trie_source.source_records[OF assms _ that] g by (simp add: src)
  qed
qed

text \<open>A condition that does not depend on the state can be part of what makes a state good.\<close>

lemma trie_source_cond:
  assumes "cond \<Longrightarrow> trie_source C P src rs" shows "trie_source C (\<lambda>s. cond \<and> P s) src rs"
proof (cases cond)
  case True
  with assms show ?thesis by simp
next
  case False
  then show ?thesis by unfold_locales simp_all
qed

definition comparable :: "Snapshot \<Rightarrow> Snapshot \<Rightarrow> Record list \<Rightarrow> Record list \<Rightarrow> bool" where
  "comparable s s' ls rs \<longleftrightarrow>
     sn_crypto s' = sn_crypto s \<and> crypto_ok (sn_crypto s) \<and>
     inj_on (sha256 (sn_crypto s)) (ledger_inputs (sn_crypto s) ls \<union> ledger_inputs (sn_crypto s) rs)"

definition diff_ready :: "node_files \<Rightarrow> Snapshot \<Rightarrow> Record list \<Rightarrow> node_files \<Rightarrow> Snapshot \<Rightarrow> Record list \<Rightarrow>
    Node NodeCache \<times> Node NodeCache \<Rightarrow> bool" where
  "diff_ready F s ls F' s' rs st \<longleftrightarrow>
     comparable s s' ls rs \<and> (snapshot_reading F s (fst st) \<and> snapshot_holds F s ls) \<and>
     snapshot_reading F' s' (snd st) \<and> snapshot_holds F' s' rs"

lemma comparable_sound:
  assumes "comparable s s' ls rs" "ledger_ok ls" "ledger_ok rs" "prefix_ok p"
    "trie_summary (sn_crypto s) (px_length p) (below p ls) = trie_summary (sn_crypto s) (px_length p) (below p rs)"
  shows "below p ls = below p rs"
  using ledger_inputs_sound[OF _ _ assms(2-5)] assms(1) by (simp add: comparable_def)

interpretation snapshots_diff: trie_diff "sn_crypto s" "diff_ready F s ls F' s' rs"
  "left_source (SnapshotSource s)" "right_source (SnapshotSource s')" ls rs "retM ()" for F s ls F' s' rs
proof -
  let ?l = "\<lambda>cache. snapshot_reading F s cache \<and> snapshot_holds F s ls"
  let ?r = "\<lambda>cache. snapshot_reading F' s' cache \<and> snapshot_holds F' s' rs"
  let ?c = "comparable s s' ls rs"
  have l: "trie_source (sn_crypto s) ?l (SnapshotSource s) ls" by (rule snapshot_source.trie_source_axioms)
  have r: "trie_source (sn_crypto s) (\<lambda>cache. ?c \<and> ?r cache) (SnapshotSource s') rs"
    by (rule trie_source_cond)
       (use snapshot_source.trie_source_axioms[of s' F' rs] in \<open>simp add: comparable_def\<close>)
  have good: "diff_ready F s ls F' s' rs = (\<lambda>st. ?l (fst st) \<and> ?c \<and> ?r (snd st))"
    by (auto simp: diff_ready_def fun_eq_iff)
  have left: "trie_source (sn_crypto s) (diff_ready F s ls F' s' rs) (left_source (SnapshotSource s)) ls"
    unfolding good by (rule trie_source_left[OF l])
  have right: "trie_source (sn_crypto s) (diff_ready F s ls F' s' rs) (right_source (SnapshotSource s')) rs"
    unfolding good by (rule trie_source_right[OF r])
  show "trie_diff (sn_crypto s) (diff_ready F s ls F' s' rs) (left_source (SnapshotSource s))
      (right_source (SnapshotSource s')) ls rs (retM ())"
  proof (intro trie_diff.intro trie_diff_axioms.intro left right)
    fix st p assume g: "diff_ready F s ls F' s' rs st"
    show "\<exists>st'. retM () st = (Inr (), st') \<and> diff_ready F s ls F' s' rs st'" using g by simp
    assume "prefix_ok p" "trie_summary (sn_crypto s) (px_length p) (below p ls) =
      trie_summary (sn_crypto s) (px_length p) (below p rs)"
    then show "below p ls = below p rs"
      using g comparable_sound snapshot_holds_ledger unfolding diff_ready_def by blast
  qed
qed

section \<open>Cursors\<close>

text \<open>What a cursor relies on: pages of sorted records, as \<^verbatim>\<open>Snapshot::next\<close> gives them.\<close>

locale record_pager =
  fixes good :: "'s \<Rightarrow> bool"
    and pager :: "'s pager"
    and rs :: "Record list"
  assumes pager_records: "good s \<Longrightarrow> records_ok rs"
    and pager_page: "good s \<Longrightarrow> (\<And>a. after = Some a \<Longrightarrow> length a = 32) \<Longrightarrow>
      \<exists>s'. pager after limit s = (Inr (take limit (wanted after (after \<noteq> None) rs)), s') \<and> good s'"

definition read_up_to :: "Record list \<Rightarrow> ObjectId option" where
  "read_up_to passed = (if passed = [] then None else Some (fst (last passed)))"

text \<open>A cursor over \<open>rs\<close> that stands before \<open>rest\<close>.\<close>

definition cursor_at :: "Record list \<Rightarrow> Cursor \<Rightarrow> Record list \<Rightarrow> bool" where
  "cursor_at rs c rest \<longleftrightarrow>
     (\<exists>passed tail. rs = passed @ drop (cu_at c) (cu_page c) @ tail \<and>
        rest = drop (cu_at c) (cu_page c) @ tail \<and>
        cu_after c = read_up_to (passed @ drop (cu_at c) (cu_page c)) \<and>
        (cu_done c \<longrightarrow> tail = []) \<and> (\<not> cu_done c \<longrightarrow> cu_at c < length (cu_page c)))"

lemma cursor_at_peek:
  assumes "cursor_at rs c rest" shows "cursor_peek c = (case rest of [] \<Rightarrow> None | r # _ \<Rightarrow> Some r)"
proof -
  obtain passed tail where c: "rest = drop (cu_at c) (cu_page c) @ tail" "cu_done c \<longrightarrow> tail = []"
    "\<not> cu_done c \<longrightarrow> cu_at c < length (cu_page c)"
    using assms unfolding cursor_at_def by blast
  show ?thesis
  proof (cases "cu_at c < length (cu_page c)")
    case True
    then have "rest = cu_page c ! cu_at c # drop (Suc (cu_at c)) (cu_page c) @ tail"
      using c(1) by (simp add: Cons_nth_drop_Suc)
    with True show ?thesis by (simp add: cursor_peek_def)
  next
    case False
    with c have "rest = []" by auto
    with False show ?thesis by (simp add: cursor_peek_def)
  qed
qed

context record_pager
begin

lemma cursor_fill_at:
  assumes "good s" "rs = passed @ rest" "cu_after c = read_up_to passed"
  shows "\<exists>c' s'. cursor_fill pager c s = (Inr c', s') \<and> good s' \<and> cursor_at rs c' rest"
proof -
  have ok: "records_ok (passed @ rest)" using pager_records[OF assms(1)] assms(2) by simp
  have w: "wanted (cu_after c) (cu_after c \<noteq> None) rs = rest"
    using wanted_after_last[OF ok] assms(2,3) by (simp add: read_up_to_def wanted_def)
  have "length a = 32" if "cu_after c = Some a" for a
    using that assms(3) records_ok_id[OF ok, of "last passed"] by (simp add: read_up_to_def split: if_splits)
  then obtain s' where s': "pager (cu_after c) page_size s = (Inr (take page_size rest), s')" "good s'"
    using pager_page[OF assms(1), of "cu_after c" page_size] w by metis
  let ?page = "take page_size rest"
  let ?c = "\<lparr>cu_page = ?page, cu_at = 0,
    cu_after = (if ?page = [] then cu_after c else Some (fst (last ?page))),
    cu_done = (length ?page < page_size)\<rparr>"
  have "cursor_fill pager c s = (Inr ?c, s')" using s'(1) by (simp add: cursor_fill_def bindM_def)
  moreover have "cursor_at rs ?c rest"
    unfolding cursor_at_def
  proof (intro exI conjI)
    show "rs = passed @ drop (cu_at ?c) (cu_page ?c) @ drop page_size rest" using assms(2) by simp
    show "rest = drop (cu_at ?c) (cu_page ?c) @ drop page_size rest" by simp
    show "cu_after ?c = read_up_to (passed @ drop (cu_at ?c) (cu_page ?c))"
      using assms(3) by (simp add: read_up_to_def last_append)
  qed (auto simp: page_size_def)
  ultimately show ?thesis using s'(2) by blast
qed

lemma Cursor_new_at:
  assumes "good s" shows "\<exists>c' s'. Cursor_new pager s = (Inr c', s') \<and> good s' \<and> cursor_at rs c' rs"
  unfolding Cursor_new_def by (rule cursor_fill_at[OF assms, of "[]"]) (simp_all add: read_up_to_def)

lemma cursor_advance_at:
  assumes "good s" "cursor_at rs c (r # rest)"
  shows "\<exists>c' s'. cursor_advance pager c s = (Inr c', s') \<and> good s' \<and> cursor_at rs c' rest"
proof -
  obtain passed tail where c: "rs = passed @ drop (cu_at c) (cu_page c) @ tail"
    "r # rest = drop (cu_at c) (cu_page c) @ tail"
    "cu_after c = read_up_to (passed @ drop (cu_at c) (cu_page c))"
    "cu_done c \<longrightarrow> tail = []" "\<not> cu_done c \<longrightarrow> cu_at c < length (cu_page c)"
    using assms(2) unfolding cursor_at_def by blast
  have "cu_at c < length (cu_page c)"
  proof (rule ccontr)
    assume "\<not> cu_at c < length (cu_page c)"
    with c(2,4,5) show False by simp
  qed
  then have d: "drop (cu_at c) (cu_page c) = r # drop (Suc (cu_at c)) (cu_page c)"
    using c(2) by (metis Cons_nth_drop_Suc append_Cons list.inject)
  let ?c = "c\<lparr>cu_at := cu_at c + 1\<rparr>"
  let ?left = "drop (Suc (cu_at c)) (cu_page c)"
  show ?thesis
  proof (cases "cu_at c + 1 \<ge> length (cu_page c) \<and> \<not> cu_done c")
    case True
    then have left: "?left = []" by simp
    have "\<exists>c' s'. cursor_fill pager ?c s = (Inr c', s') \<and> good s' \<and> cursor_at rs c' rest"
      by (rule cursor_fill_at[OF assms(1), of "passed @ [r]"]) (use c d left in simp_all)
    with True show ?thesis by (simp add: cursor_advance_def Let_def)
  next
    case False
    have "cursor_at rs ?c rest"
      unfolding cursor_at_def
    proof (intro exI conjI)
      show "rs = (passed @ [r]) @ drop (cu_at ?c) (cu_page ?c) @ tail" using c(1) d by simp
      show "rest = drop (cu_at ?c) (cu_page ?c) @ tail" using c(2) d by simp
      show "cu_after ?c = read_up_to ((passed @ [r]) @ drop (cu_at ?c) (cu_page ?c))" using c(3) d by simp
    qed (use c(4) False in auto)
    with False assms(1) show ?thesis by (auto simp: cursor_advance_def Let_def)
  qed
qed

lemma cursor_seek_at:
  assumes "good s" "cursor_at rs c rest" "length rest < fuel"
  shows "\<exists>c' s'. cursor_seek fuel pager i c s = (Inr c', s') \<and> good s' \<and>
    cursor_at rs c' (dropWhile (\<lambda>r. fst r < i) rest)"
  using assms
proof (induction fuel arbitrary: s c rest)
  case (Suc fuel)
  show ?case
  proof (cases rest)
    case Nil
    with Suc.prems cursor_at_peek[OF Suc.prems(2)] show ?thesis by simp
  next
    case (Cons r rest')
    show ?thesis
    proof (cases "fst r < i")
      case True
      obtain c1 s1 where 1: "cursor_advance pager c s = (Inr c1, s1)" "good s1" "cursor_at rs c1 rest'"
        using cursor_advance_at[OF Suc.prems(1)] Suc.prems(2) Cons by blast
      with Suc.IH[OF 1(2,3)] Suc.prems(3) Cons True cursor_at_peek[OF Suc.prems(2)] show ?thesis
        by (simp add: bindM_def)
    next
      case False
      with Cons Suc.prems cursor_at_peek[OF Suc.prems(2)] show ?thesis by simp
    qed
  qed
qed simp

end

lemma sorted_head_is:
  assumes "records_ok rest"
  shows "(case dropWhile (\<lambda>r. fst r < i) rest of [] \<Rightarrow> False | r # _ \<Rightarrow> fst r = i) \<longleftrightarrow> map_of rest i \<noteq> None"
proof -
  have "(case d of [] \<Rightarrow> False | r # _ \<Rightarrow> fst r = i) \<longleftrightarrow>
      (case d of [] \<Rightarrow> None | r # _ \<Rightarrow> if fst r \<noteq> i then None else Some (snd r)) \<noteq> None" for d :: "Record list"
    by (cases d) simp_all
  then show ?thesis unfolding trie_reader.find_leaf[OF assms, symmetric] lower_bound_find_def .
qed

text \<open>Several held tries, each with a cursor, asked for one id after the other in order.\<close>

lemma held_has_at:
  assumes "record_pager good pager rs" "good s" "cursor_at rs c rest" "length rs < fuel"
  shows "\<exists>c' s'. held_has fuel i (pager, c) s = (Inr (c', map_of rest i \<noteq> None), s') \<and> good s' \<and>
    cursor_at rs c' (dropWhile (\<lambda>r. fst r < i) rest)"
proof -
  obtain passed where rs: "rs = passed @ rest" using assms(3) unfolding cursor_at_def by auto
  have "records_ok rs" by (rule record_pager.pager_records[OF assms(1,2)])
  then have ok: "records_ok rest" unfolding rs by (auto simp: records_ok_def sorted_wrt_append)
  have "length rest < fuel" using assms(4) rs by simp
  then obtain c' s' where c': "cursor_seek fuel pager i c s = (Inr c', s')" "good s'"
    "cursor_at rs c' (dropWhile (\<lambda>r. fst r < i) rest)"
    using record_pager.cursor_seek_at[OF assms(1-3), of fuel i] by blast
  have "(case cursor_peek c' of None \<Rightarrow> False | Some r \<Rightarrow> fst r = i) \<longleftrightarrow> map_of rest i \<noteq> None"
  proof -
    have "(case (case d of [] \<Rightarrow> None | r # _ \<Rightarrow> Some r) of None \<Rightarrow> False | Some r \<Rightarrow> fst r = i) \<longleftrightarrow>
        (case d of [] \<Rightarrow> False | r # _ \<Rightarrow> fst r = i)" for d :: "Record list"
      by (cases d) simp_all
    then show ?thesis unfolding cursor_at_peek[OF c'(3)] sorted_head_is[OF ok, symmetric] .
  qed
  with c' show ?thesis by (simp add: held_has_def bindM_def)
qed

lemma held_all_at:
  assumes "good s" "list_all2 (\<lambda>h c. record_pager good (fst h) (snd h) \<and> cursor_at (snd h) (fst c) (snd c)) held cs"
    "\<forall>h \<in> set held. length (snd h) < fuel"
  shows "\<exists>answers s'. mapM (held_has fuel i) (zip (map fst held) (map fst cs)) s = (Inr answers, s') \<and> good s' \<and>
    list_ex snd answers = list_ex (\<lambda>c. map_of (snd c) i \<noteq> None) cs \<and> length answers = length held \<and>
    list_all2 (\<lambda>h c. record_pager good (fst h) (snd h) \<and> cursor_at (snd h) (fst c) (snd c)) held
      (zip (map fst answers) (map (\<lambda>c. dropWhile (\<lambda>r. fst r < i) (snd c)) cs))"
  using assms(2,1,3)
proof (induction held cs arbitrary: s rule: list_all2_induct)
  case (Cons h held c cs)
  have h: "record_pager good (fst h) (snd h)" "cursor_at (snd h) (fst c) (snd c)" "length (snd h) < fuel"
    using Cons by auto
  obtain c' s1 where 1: "held_has fuel i (fst h, fst c) s = (Inr (c', map_of (snd c) i \<noteq> None), s1)" "good s1"
    "cursor_at (snd h) c' (dropWhile (\<lambda>r. fst r < i) (snd c))"
    using held_has_at[OF h(1) Cons.prems(1) h(2,3)] by blast
  from Cons.IH[OF 1(2)] Cons.prems(2) obtain answers s2 where
    2: "mapM (held_has fuel i) (zip (map fst held) (map fst cs)) s1 = (Inr answers, s2)" "good s2"
    "list_ex snd answers = list_ex (\<lambda>c. map_of (snd c) i \<noteq> None) cs" "length answers = length held"
    "list_all2 (\<lambda>h c. record_pager good (fst h) (snd h) \<and> cursor_at (snd h) (fst c) (snd c)) held
      (zip (map fst answers) (map (\<lambda>c. dropWhile (\<lambda>r. fst r < i) (snd c)) cs))"
    by auto
  show ?case
    using 1 2 h(1) by (simp add: bindM_def)
qed simp

lemma map_of_dropWhile:
  fixes i j :: ObjectId
  assumes "i < j" shows "map_of (dropWhile (\<lambda>r. fst r < i) rest) j = map_of rest j"
  using assms by (induction rest) (auto dest: order_less_asym)

definition unheld :: "Record list list \<Rightarrow> Record \<Rightarrow> bool" where
  "unheld hss r \<longleftrightarrow> \<not> list_ex (\<lambda>hs. map_of hs (fst r) \<noteq> None) hss"

lemma not_held_loop_at:
  assumes "good s" "record_pager good wants rs" "cursor_at rs want rest"
    "list_all2 (\<lambda>h c. record_pager good (fst h) (snd h) \<and> cursor_at (snd h) (fst c) (snd c)) held cs"
    "\<forall>h \<in> set held. length (snd h) < seeks" "length rest < fuel"
    "\<And>s. good s \<Longrightarrow> \<exists>s'. pause s = (Inr (), s') \<and> good s'"
  shows "\<exists>s'. not_held_loop seeks fuel wants (map fst held) pause want (map fst cs) seen out s =
    (Inr (out @ filter (unheld (map snd cs)) rest), s') \<and> good s'"
  using assms
proof (induction fuel arbitrary: s want rest cs seen out)
  case (Suc fuel)
  show ?case
  proof (cases rest)
    case Nil
    with Suc.prems(1) cursor_at_peek[OF Suc.prems(3)] show ?thesis by simp
  next
    case (Cons r rest')
    obtain passed where "rs = passed @ r # rest'" using Suc.prems(3) Cons unfolding cursor_at_def by auto
    then have gt: "\<forall>r' \<in> set rest'. fst r < fst r'"
      using record_pager.pager_records[OF Suc.prems(2,1)] by (auto simp: records_ok_def sorted_wrt_append)
    obtain answers s1 where 1: "mapM (held_has seeks (fst r)) (zip (map fst held) (map fst cs)) s = (Inr answers, s1)"
      "good s1" "list_ex snd answers = list_ex (\<lambda>c. map_of (snd c) (fst r) \<noteq> None) cs"
      "length answers = length held"
      "list_all2 (\<lambda>h c. record_pager good (fst h) (snd h) \<and> cursor_at (snd h) (fst c) (snd c)) held
        (zip (map fst answers) (map (\<lambda>c. dropWhile (\<lambda>x. fst x < fst r) (snd c)) cs))"
      using held_all_at[OF Suc.prems(1,4,5)] by blast
    obtain want' s2 where 2: "cursor_advance wants want s1 = (Inr want', s2)" "good s2" "cursor_at rs want' rest'"
      using record_pager.cursor_advance_at[OF Suc.prems(2) 1(2)] Suc.prems(3) Cons by blast
    obtain s3 where 3: "(if (seen + 1) mod 4096 = 0 then pause else retM ()) s2 = (Inr (), s3)" "good s3"
      using Suc.prems(7)[OF 2(2)] 2(2) by (cases "(seen + 1) mod 4096 = 0") auto
    let ?cs = "zip (map fst answers) (map (\<lambda>c. dropWhile (\<lambda>x. fst x < fst r) (snd c)) cs)"
    let ?out = "if list_ex snd answers then out else out @ [r]"
    have len: "length cs = length held" using Suc.prems(4) by (auto dest: list_all2_lengthD)
    have fst_cs: "map fst ?cs = map fst answers" using 1(4) len by simp
    have snd_cs: "map snd ?cs = map (\<lambda>c. dropWhile (\<lambda>x. fst x < fst r) (snd c)) cs" using 1(4) len by simp
    have "\<exists>s'. not_held_loop seeks fuel wants (map fst held) pause want' (map fst ?cs) (seen + 1) ?out s3 =
        (Inr (?out @ filter (unheld (map snd ?cs)) rest'), s') \<and> good s'"
      by (rule Suc.IH[OF 3(2) Suc.prems(2) 2(3) 1(5) Suc.prems(5) _ Suc.prems(7)]) (use Suc.prems(6) Cons in simp)
    moreover have "filter (unheld (map snd ?cs)) rest' = filter (unheld (map snd cs)) rest'"
      unfolding snd_cs using gt by (intro filter_cong) (auto simp: unheld_def list_ex_iff map_of_dropWhile)
    moreover have "list_ex snd answers \<longleftrightarrow> \<not> unheld (map snd cs) r"
      unfolding 1(3) by (simp add: unheld_def list_ex_iff)
    ultimately show ?thesis
      using 1(1) 2(1) 3(1) Cons cursor_at_peek[OF Suc.prems(3)] fst_cs
      by (auto simp: bindM_def Let_def)
  qed
qed simp

text \<open>A snapshot's pages.\<close>

interpretation snapshot_pager: record_pager
  "\<lambda>cache. snapshot_reading F s cache \<and> snapshot_holds F s rs" "snapshot_next s" rs for F s rs
proof
  fix cache after limit assume g: "snapshot_reading F s cache \<and> snapshot_holds F s rs"
  show "records_ok rs" using snapshot_holds_ledger segment_okD(1) g by blast
  show "\<exists>cache'. snapshot_next s after limit cache = (Inr (take limit (wanted after (after \<noteq> None) rs)), cache') \<and>
      snapshot_reading F s cache' \<and> snapshot_holds F s rs" if "\<And>a. after = Some a \<Longrightarrow> length a = 32"
    using snapshot_next_holds[of F s cache rs after limit] g that by blast
qed

lemma Cursor_new_all:
  assumes "good s" "\<forall>h \<in> set held. record_pager good (fst h) (snd h)"
  shows "\<exists>cs s'. mapM Cursor_new (map fst held) s = (Inr (map fst cs), s') \<and> good s' \<and> map snd cs = map snd held \<and>
    list_all2 (\<lambda>h c. record_pager good (fst h) (snd h) \<and> cursor_at (snd h) (fst c) (snd c)) held cs"
  using assms
proof (induction held arbitrary: s)
  case (Cons h held)
  have h: "record_pager good (fst h) (snd h)" using Cons.prems by simp
  obtain c s1 where 1: "Cursor_new (fst h) s = (Inr c, s1)" "good s1" "cursor_at (snd h) c (snd h)"
    using record_pager.Cursor_new_at[OF h Cons.prems(1)] by blast
  from Cons.IH[OF 1(2)] Cons.prems(2) obtain cs s2 where
    "mapM Cursor_new (map fst held) s1 = (Inr (map fst cs), s2)" "good s2" "map snd cs = map snd held"
    "list_all2 (\<lambda>h c. record_pager good (fst h) (snd h) \<and> cursor_at (snd h) (fst c) (snd c)) held cs" by auto
  with h 1 show ?case by (intro exI[of _ "(c, snd h) # cs"]) (simp add: bindM_def)
qed simp

lemma records_not_held_all:
  assumes "good s" "record_pager good wants rs" "\<forall>h \<in> set held. record_pager good (fst h) (snd h)"
    "length rs < fuel" "\<forall>h \<in> set held. length (snd h) < fuel"
    "\<And>s. good s \<Longrightarrow> \<exists>s'. pause s = (Inr (), s') \<and> good s'"
  shows "\<exists>s'. records_not_held fuel wants (map fst held) pause s =
    (Inr (filter (unheld (map snd held)) rs), s') \<and> good s'"
proof -
  obtain want s1 where 1: "Cursor_new wants s = (Inr want, s1)" "good s1" "cursor_at rs want rs"
    using record_pager.Cursor_new_at[OF assms(2,1)] by blast
  obtain cs s2 where 2: "mapM Cursor_new (map fst held) s1 = (Inr (map fst cs), s2)" "good s2"
    "map snd cs = map snd held"
    "list_all2 (\<lambda>h c. record_pager good (fst h) (snd h) \<and> cursor_at (snd h) (fst c) (snd c)) held cs"
    using Cursor_new_all[OF 1(2) assms(3)] by blast
  from not_held_loop_at[OF 2(2) assms(2) 1(3) 2(4) assms(5,4,6), where seen = 0 and out = "[]"] 1(1) 2(1,3) show ?thesis
    by (simp add: records_not_held_def bindM_def)
qed

section \<open>Properties\<close>

text \<open>
  C3: Comparing two snapshots finds every id whose record differs, each once, with what either side has.
  When SHA-256 has no collision among the messages hashed, the comparison of snapshots of two tries
  ends and throws nothing; it asks at most 32 questions for each difference it finds, in at most 64
  rounds, whatever the size of the tries.
\<close>

theorem diff_snapshots:
  assumes "diff_ready F s ls F' s' rs st"
  shows "\<exists>visited cost st'.
    diff_tries (left_source (SnapshotSource s)) (right_source (SnapshotSource s')) (retM ()) st =
      (Inr (visited, cost), st') \<and>
    distinct (map df_id visited) \<and>
    set visited = {\<lparr>df_id = i, df_left = map_of ls i, df_right = map_of rs i\<rparr> | i. map_of ls i \<noteq> map_of rs i} \<and>
    dc_prefixes cost \<le> 32 * length visited \<and> dc_rounds cost \<le> 64"
  by (rule snapshots_diff.diff_tries_exact[OF assms])

definition empty_trie :: ObjectTrie where
  "empty_trie = sample_trie\<lparr>ot_root := empty_child\<rparr>"

lemma digest_inputs_one_record: "digest_inputs C d (below p one_record) \<subseteq> {leaf_bytes one_record}"
  by (cases "covers p (replicate 32 7)")
     (subst digest_inputs.simps; simp add: below_def one_record_def leaf_max_def)+

lemma sample_diff_ready:
  "diff_ready sample_files (trie_snapshot sample_trie) one_record sample_files (trie_snapshot empty_trie) []
     (ot_cache sample_trie, ot_cache empty_trie)"
proof -
  have "trie_reading sample_files empty_trie empty_trie"
    using sample_trie_reading by (simp add: trie_reading_def trie_ready_def empty_trie_def)
  then have "snapshot_reading sample_files (trie_snapshot empty_trie) (ot_cache empty_trie)"
    by (rule trie_snapshot_reading)
  moreover have "snapshot_holds sample_files (trie_snapshot empty_trie) []"
    by (simp add: snapshot_holds_def trie_snapshot_def empty_trie_def holds_empty)
  moreover have "snapshot_reading sample_files (trie_snapshot sample_trie) (ot_cache sample_trie)"
    by (rule trie_snapshot_reading[OF sample_trie_reading])
  moreover have "snapshot_holds sample_files (trie_snapshot sample_trie) one_record"
    using sample_trie_holds by (simp add: snapshot_holds_def trie_snapshot_def)
  moreover have "ledger_inputs plain_crypto one_record \<union> ledger_inputs plain_crypto [] \<subseteq> {leaf_bytes one_record}"
    using digest_inputs_one_record unfolding ledger_inputs_def
    by (auto simp: below_def digest_inputs.simps[of _ _ "[]"])
  then have "inj_on (sha256 plain_crypto) (ledger_inputs plain_crypto one_record \<union> ledger_inputs plain_crypto [])"
    by (rule inj_on_subset[rotated]) simp
  then have "comparable (trie_snapshot sample_trie) (trie_snapshot empty_trie) one_record []"
    by (simp add: comparable_def trie_snapshot_def sample_trie_def empty_trie_def plain_crypto_ok)
  ultimately show ?thesis by (simp add: diff_ready_def)
qed

theorem diff_snapshots_witness:
  "\<exists>visited cost st'.
    diff_tries (left_source (SnapshotSource (trie_snapshot sample_trie)))
      (right_source (SnapshotSource (trie_snapshot empty_trie))) (retM ())
      (ot_cache sample_trie, ot_cache empty_trie) = (Inr (visited, cost), st') \<and>
    set visited = {\<lparr>df_id = replicate 32 7, df_left = Some [1, 2], df_right = None\<rparr>}"
proof -
  have "{\<lparr>df_id = i, df_left = map_of one_record i, df_right = map_of [] i\<rparr> | i. map_of one_record i \<noteq> map_of [] i} =
      {\<lparr>df_id = replicate 32 7, df_left = Some [1, 2], df_right = None\<rparr>}"
    by (auto simp: one_record_def)
  with diff_snapshots[OF sample_diff_ready] show ?thesis by metis
qed

text \<open>Snapshots of several tries, the caches of the tries side by side.\<close>

definition nth_pager :: "nat \<Rightarrow> Snapshot \<Rightarrow> (Node NodeCache list) pager" where
  "nth_pager j s after limit = zoomM (\<lambda>st. st ! j) (\<lambda>c st. st[j := c]) (snapshot_next s after limit)"

definition snapshots_ready :: "(node_files \<times> Snapshot \<times> Record list) list \<Rightarrow> Node NodeCache list \<Rightarrow> bool" where
  "snapshots_ready tries st \<longleftrightarrow>
     list_all2 (\<lambda>(F, s, rs) cache. snapshot_reading F s cache \<and> snapshot_holds F s rs) tries st"

lemma nth_pager_pages:
  assumes "j < length tries" "tries ! j = (F, s, rs)"
  shows "record_pager (snapshots_ready tries) (nth_pager j s) rs"
proof
  fix st and after :: "ObjectId option" and limit assume g: "snapshots_ready tries st"
  have len: "j < length st" using g assms(1) by (auto simp: snapshots_ready_def list_all2_lengthD)
  have r: "snapshot_reading F s (st ! j) \<and> snapshot_holds F s rs"
    using list_all2_nthD[OF g[unfolded snapshots_ready_def] assms(1)] assms(2) by simp
  show "records_ok rs" by (rule snapshot_pager.pager_records[OF r])
  assume a: "\<And>a. after = Some a \<Longrightarrow> length a = 32"
  obtain c' where c': "snapshot_next s after limit (st ! j) = (Inr (take limit (wanted after (after \<noteq> None) rs)), c')"
    "snapshot_reading F s c' \<and> snapshot_holds F s rs"
    using snapshot_pager.pager_page[OF r a] by blast
  have same: "tries[j := (F, s, rs)] = tries" using assms(2) list_update_id[of tries j] by simp
  have "snapshots_ready tries (st[j := c'])"
    using list_all2_update_cong[of "\<lambda>(F, s, rs) cache. snapshot_reading F s cache \<and> snapshot_holds F s rs"
        tries st "(F, s, rs)" c' j] g c'(2) same
    by (simp add: snapshots_ready_def)
  with c'(1) show "\<exists>st'. nth_pager j s after limit st = (Inr (take limit (wanted after (after \<noteq> None) rs)), st') \<and>
      snapshots_ready tries st'" by (simp add: nth_pager_def zoomM_apply)
qed

text \<open>
  C23: The pass that looks for records nobody holds returns exactly the records of the wanted snapshot
  whose id is in none of the held ones, in order. It ends: as many steps as the largest of the
  tries has records, and one, are enough.
\<close>

theorem records_not_held_exact:
  assumes "snapshots_ready ((F, s, rs) # tries) st" "length rs < fuel" "\<forall>t \<in> set tries. length (snd (snd t)) < fuel"
  shows "\<exists>st'. records_not_held fuel (nth_pager 0 s)
      (map (\<lambda>j. nth_pager (Suc j) (fst (snd (tries ! j)))) [0..<length tries]) (retM ()) st =
    (Inr (filter (\<lambda>r. \<forall>t \<in> set tries. map_of (snd (snd t)) (fst r) = None) rs), st')"
proof -
  let ?good = "snapshots_ready ((F, s, rs) # tries)"
  let ?held = "map (\<lambda>j. (nth_pager (Suc j) (fst (snd (tries ! j))), snd (snd (tries ! j)))) [0..<length tries]"
  have w: "record_pager ?good (nth_pager 0 s) rs" by (rule nth_pager_pages) simp_all
  have h: "\<forall>h \<in> set ?held. record_pager ?good (fst h) (snd h)"
  proof
    fix h assume "h \<in> set ?held"
    then obtain j where j: "j < length tries" "h = (nth_pager (Suc j) (fst (snd (tries ! j))), snd (snd (tries ! j)))"
      by auto
    from nth_pager_pages[of "Suc j" "(F, s, rs) # tries" "fst (tries ! j)"] j
    show "record_pager ?good (fst h) (snd h)" by simp
  qed
  have short: "\<forall>h \<in> set ?held. length (snd h) < fuel" using assms(3) by auto
  have "map snd ?held = map (\<lambda>t. snd (snd t)) tries" by (rule nth_equalityI) simp_all
  then have none: "unheld (map snd ?held) = (\<lambda>r. \<forall>t \<in> set tries. map_of (snd (snd t)) (fst r) = None)"
    by (simp only: unheld_def[abs_def]) (auto simp: list_ex_iff)
  have pagers: "map fst ?held = map (\<lambda>j. nth_pager (Suc j) (fst (snd (tries ! j)))) [0..<length tries]" by simp
  have "\<exists>st'. records_not_held fuel (nth_pager 0 s) (map fst ?held) (retM ()) st =
      (Inr (filter (unheld (map snd ?held)) rs), st') \<and> ?good st'"
    by (rule records_not_held_all[OF assms(1) w h assms(2) short]) simp
  then show ?thesis unfolding none pagers by blast
qed

theorem records_not_held_exact_witness:
  "\<exists>st'. records_not_held 2 (nth_pager 0 (trie_snapshot sample_trie)) [nth_pager 1 (trie_snapshot empty_trie)]
     (retM ()) [ot_cache sample_trie, ot_cache empty_trie] = (Inr one_record, st')"
proof -
  have "snapshots_ready [(sample_files, trie_snapshot sample_trie, one_record), (sample_files, trie_snapshot empty_trie, [])]
      [ot_cache sample_trie, ot_cache empty_trie]"
    using sample_diff_ready by (simp add: snapshots_ready_def diff_ready_def)
  from records_not_held_exact[OF this, of 2] show ?thesis by (simp add: one_record_def)
qed

end
