(* ===== verification/Trie_Wire.thy ===== *)
theory Trie_Wire
  imports Trie_Diff
begin

text \<open>
  The messages a comparison with a peer's trie travels in (the second half of
  \<^verbatim>\<open>src/ledger/trie_diff.cpp\<close>): questions about a root, about the subtrees below prefixes and about
  the records below prefixes, and their answers. The bytes of a message come from a peer, so each
  decoder is shown twice: it gives back what was encoded, and whatever the bytes are, what it
  returns is within the bounds the comparison relies on.
\<close>

section \<open>Questions\<close>

datatype TrieQuestionKind = Question_root | Question_children | Question_records
datatype TrieName = held_data

definition kind_code :: "TrieQuestionKind \<Rightarrow> u8" where
  "kind_code k = (case k of Question_root \<Rightarrow> 0 | Question_children \<Rightarrow> 1 | Question_records \<Rightarrow> 2)"

definition name_code :: "TrieName \<Rightarrow> u8" where
  "name_code n = (case n of held_data \<Rightarrow> 0)"

definition trie_question_max :: nat where "trie_question_max = 64"
definition trie_records_max :: nat where "trie_records_max = 512"

definition trie_question_limit :: "TrieQuestionKind \<Rightarrow> nat" where
  "trie_question_limit kind = (if kind = Question_records then trie_records_max else trie_question_max)"

record TrieQuestion =
  tq_kind :: TrieQuestionKind
  tq_trie :: TrieName
  tq_at :: Hash256
  tq_prefixes :: "Prefix list"

definition write_prefix :: "Writer \<Rightarrow> Prefix \<Rightarrow> Writer" where
  "write_prefix w p =
     foldl (\<lambda>w i. writer_u8 w (px_bytes p ! i)) (writer_u8 w (of_nat (px_length p))) [0..<px_length p]"

definition read_prefix :: "(Reader, Prefix) prog" where
  "read_prefix = bindM reader_u8 (\<lambda>len.
     if unat len > 32 then raiseM (DecodeError ''trie prefix longer than an id'')
     else bindM (foldM (\<lambda>bytes i. bindM reader_u8 (\<lambda>b. retM (bytes[i := b])))
                  (replicate 32 0) [0..<unat len]) (\<lambda>bytes.
          retM \<lparr>px_bytes = bytes, px_length = unat len\<rparr>))"

definition read_count :: "nat \<Rightarrow> string \<Rightarrow> (Reader, nat) prog" where
  "read_count most what = bindM reader_u32 (\<lambda>count.
     if unat count > most then raiseM (DecodeError (''too many '' @ what)) else retM (unat count))"

definition encode_trie_question :: "TrieQuestion \<Rightarrow> Bytes result" where
  "encode_trie_question q =
     (if length (tq_prefixes q) > trie_question_limit (tq_kind q)
      then Inl (InvalidArgument ''too many prefixes in one trie question'')
      else Inr (foldl write_prefix
             (writer_u32 (writer_fixed (writer_u8 (writer_u8 [] (kind_code (tq_kind q)))
                (name_code (tq_trie q))) (tq_at q)) (of_nat (length (tq_prefixes q))))
             (tq_prefixes q)))"

definition read_question_prefix :: "TrieQuestionKind \<Rightarrow> Prefix list \<Rightarrow> (Reader, Prefix list) prog" where
  "read_question_prefix kind asked = bindM read_prefix (\<lambda>p.
     if kind = Question_children \<and> px_length p \<ge> 32
     then raiseM (DecodeError ''a whole id has no children'')
     else retM (asked @ [p]))"

definition question_kind :: "u8 \<Rightarrow> TrieQuestionKind" where
  "question_kind code =
     (if code = 0 then Question_root else if code = 1 then Question_children else Question_records)"

definition read_question :: "TrieQuestionKind \<Rightarrow> (Reader, TrieQuestion) prog" where
  "read_question kind =
     bindM reader_u8 (\<lambda>trie.
       if trie \<noteq> name_code held_data then raiseM (DecodeError ''unknown trie'')
       else bindM (reader_fixed 32) (\<lambda>at.
       bindM (read_count (trie_question_limit kind) ''prefixes in one trie question'') (\<lambda>count.
       bindM (foldM (\<lambda>asked _. read_question_prefix kind asked) [] [0..<count]) (\<lambda>asked.
       bindM reader_finish (\<lambda>_.
       retM \<lparr>tq_kind = kind, tq_trie = held_data, tq_at = at, tq_prefixes = asked\<rparr>)))))"

definition decode_trie_question :: "Bytes \<Rightarrow> TrieQuestion result" where
  "decode_trie_question encoded =
     fst (bindM reader_u8 (\<lambda>kind.
       if kind > kind_code Question_records then raiseM (DecodeError ''unknown trie question'')
       else read_question (question_kind kind)) (reader encoded))"

section \<open>Answers\<close>

definition encode_trie_root :: "Summary \<Rightarrow> Bytes" where
  "encode_trie_root s = writer_fixed (writer_u64 [] (sm_count s)) (sm_hash s)"

definition decode_trie_root :: "Bytes \<Rightarrow> Summary result" where
  "decode_trie_root encoded =
     fst (bindM reader_u64 (\<lambda>count. bindM (reader_fixed 32) (\<lambda>hash. bindM reader_finish (\<lambda>_.
       retM \<lparr>sm_count = count, sm_hash = hash\<rparr>))) (reader encoded))"

definition write_children :: "Writer \<Rightarrow> Summary list \<Rightarrow> Writer" where
  "write_children w children =
     foldl (\<lambda>w slot. if sm_count (children ! slot) = 0 then w
              else writer_fixed (writer_u64 (writer_u8 w (of_nat slot)) (sm_count (children ! slot)))
                     (sm_hash (children ! slot)))
       (writer_u16 w (foldl (\<lambda>present s. present + (if sm_count s \<noteq> 0 then 1 else 0)) 0 children))
       [0..<length children]"

definition encode_trie_children :: "Summary list list \<Rightarrow> Bytes" where
  "encode_trie_children answers =
     foldl write_children (writer_u32 [] (of_nat (length answers))) answers"

definition read_wire_slot :: "Summary list \<times> int \<Rightarrow> (Reader, Summary list \<times> int) prog" where
  "read_wire_slot st = (case st of (children, latest) \<Rightarrow>
     bindM reader_u8 (\<lambda>slot.
       if int (unat slot) \<le> latest then raiseM (DecodeError ''trie children out of order'')
       else bindM reader_u64 (\<lambda>count.
       if count = 0 then raiseM (DecodeError ''an empty trie child sent'')
       else bindM (reader_fixed 32) (\<lambda>hash.
       retM (children[unat slot := \<lparr>sm_count = count, sm_hash = hash\<rparr>], int (unat slot))))))"

definition read_children :: "(Reader, Summary list) prog" where
  "read_children = bindM reader_u16 (\<lambda>present.
     if unat present > 256 then raiseM (DecodeError ''more than 256 trie children'')
     else bindM (foldM (\<lambda>st _. read_wire_slot st) (replicate fanout Summary_0, -1) [0..<unat present])
       (\<lambda>st. retM (fst st)))"

definition decode_trie_children :: "Bytes \<Rightarrow> Summary list list result" where
  "decode_trie_children encoded =
     fst (bindM (read_count trie_question_max ''answers in one trie reply'') (\<lambda>count.
       bindM (repeatM count read_children) (\<lambda>answers.
       bindM reader_finish (\<lambda>_. retM answers))) (reader encoded))"

definition write_answer :: "Writer \<Rightarrow> Record list \<Rightarrow> Writer result" where
  "write_answer w records = foldR write_record (writer_u32 w (of_nat (length records))) records"

definition encode_trie_records :: "Record list list \<Rightarrow> Bytes result" where
  "encode_trie_records answers =
     foldR write_answer (writer_u32 [] (of_nat (length answers))) answers"

definition read_wire_record :: "Record list \<Rightarrow> (Reader, Record list) prog" where
  "read_wire_record records =
     bindM (reader_fixed 32) (\<lambda>i. bindM (reader_bytes value_max) (\<lambda>v.
       if records \<noteq> [] \<and> \<not> fst (last records) < i
       then raiseM (DecodeError ''trie records out of order'')
       else retM (records @ [(i, v)])))"

definition read_answer :: "(Reader, Record list) prog" where
  "read_answer = bindM (read_count leaf_max ''records in one trie answer'') (\<lambda>sz.
     foldM (\<lambda>records _. read_wire_record records) [] [0..<sz])"

definition decode_trie_records :: "Bytes \<Rightarrow> Record list list result" where
  "decode_trie_records encoded =
     fst (bindM (read_count trie_records_max ''answers in one trie reply'') (\<lambda>count.
       bindM (repeatM count read_answer) (\<lambda>answers.
       bindM reader_finish (\<lambda>_. retM answers))) (reader encoded))"

section \<open>Prefixes\<close>

text \<open>A prefix as the code makes them: the bytes past its length are zero.\<close>

definition prefix_canonical :: "Prefix \<Rightarrow> bool" where
  "prefix_canonical p \<longleftrightarrow> prefix_ok p \<and> (\<forall>i \<in> {px_length p..<32}. px_bytes p ! i = 0)"

definition enc_prefix :: "Prefix \<Rightarrow> Bytes" where
  "enc_prefix p = enc_u8 (of_nat (px_length p)) @ concat (map (\<lambda>i. enc_u8 (px_bytes p ! i)) [0..<px_length p])"

lemma write_prefix_append: "write_prefix w p = w @ enc_prefix p"
proof -
  have "foldl (\<lambda>w i. writer_u8 w (px_bytes p ! i)) w xs = w @ concat (map (\<lambda>i. enc_u8 (px_bytes p ! i)) xs)" for w xs
    by (induction xs arbitrary: w) (simp_all add: writer_simps)
  then show ?thesis by (simp add: write_prefix_def enc_prefix_def writer_simps)
qed

lemma foldl_write_prefix: "foldl write_prefix w ps = w @ concat (map enc_prefix ps)"
  by (induction ps arbitrary: w) (simp_all add: write_prefix_append)

lemma reads_store_bytes:
  "reads (foldM (\<lambda>bytes i. bindM reader_u8 (\<lambda>b. retM (bytes[i := b]))) acc xs)
     (concat (map (\<lambda>i. enc_u8 (bs ! i)) xs)) (foldl (\<lambda>acc i. acc[i := bs ! i]) acc xs)"
proof (induction xs arbitrary: acc)
  case (Cons x xs)
  have "reads (bindM reader_u8 (\<lambda>b. retM (acc[x := b]))) (enc_u8 (bs ! x) @ []) (acc[x := bs ! x])"
    by (intro reads_bind[OF reads_u8] reads_ret)
  then have "reads (bindM reader_u8 (\<lambda>b. retM (acc[x := b]))) (enc_u8 (bs ! x)) (acc[x := bs ! x])"
    by (simp only: append_Nil2)
  from reads_bind[OF this Cons.IH] show ?case by (simp only: foldM.simps list.map concat.simps foldl.simps)
qed auto

lemma store_nth:
  "j < length acc \<Longrightarrow> foldl (\<lambda>acc i. acc[i := bs ! i]) acc xs ! j = (if j \<in> set xs then bs ! j else acc ! j)"
  by (induction xs arbitrary: acc) (auto simp: nth_list_update)

lemma length_store [simp]: "length (foldl (\<lambda>acc i. acc[i := bs ! i]) acc xs) = length acc"
  by (induction xs arbitrary: acc) simp_all

lemma reads_prefix:
  assumes "prefix_canonical p"
  shows "reads read_prefix (enc_prefix p) p"
proof -
  have len: "px_length p \<le> 32" "length (px_bytes p) = 32"
    and zero: "\<forall>i \<in> {px_length p..<32}. px_bytes p ! i = 0"
    using assms by (auto simp: prefix_canonical_def prefix_ok_def)
  have u: "unat (of_nat (px_length p) :: u8) = px_length p" using len by (simp add: unat_of_nat take_bit_nat_eq_self)
  have bytes: "foldl (\<lambda>acc i. acc[i := px_bytes p ! i]) (replicate 32 0) [0..<px_length p] = px_bytes p"
    using len zero by (intro nth_equalityI) (auto simp: store_nth)
  have "reads read_prefix (enc_u8 (of_nat (px_length p)) @
      concat (map (\<lambda>i. enc_u8 (px_bytes p ! i)) [0..<px_length p]) @ []) \<lparr>px_bytes = px_bytes p, px_length = px_length p\<rparr>"
    unfolding read_prefix_def
  proof (rule reads_bind[OF reads_u8], unfold u, rule reads_if)
    show "reads (bindM (foldM (\<lambda>bytes i. bindM reader_u8 (\<lambda>b. retM (bytes[i := b]))) (replicate 32 0) [0..<px_length p])
         (\<lambda>bytes. retM \<lparr>px_bytes = bytes, px_length = px_length p\<rparr>))
       (concat (map (\<lambda>i. enc_u8 (px_bytes p ! i)) [0..<px_length p]) @ []) \<lparr>px_bytes = px_bytes p, px_length = px_length p\<rparr>"
      by (rule reads_bind[OF reads_store_bytes[of "replicate 32 0" "[0..<px_length p]" "px_bytes p", unfolded bytes]]) auto
  qed (use len in simp)
  then show ?thesis by (cases p) (simp add: enc_prefix_def)
qed

lemma read_prefix_canonical:
  assumes "read_prefix r = (Inr p, r')"
  shows "prefix_canonical p"
proof -
  from assms obtain len bytes s s' where b: "unat len \<le> 32"
    "foldM (\<lambda>bytes i. bindM reader_u8 (\<lambda>b. retM (bytes[i := b]))) (replicate 32 0) [0..<unat len] s = (Inr bytes, s')"
    "p = \<lparr>px_bytes = bytes, px_length = unat (len :: u8)\<rparr>"
    by (auto simp: read_prefix_def elim!: bindM_InrE split: if_splits)
  have "length bytes = 32 \<and> (\<forall>i \<in> {unat len..<32}. bytes ! i = 0)"
    by (rule foldM_inv[OF b(2)]) (auto elim!: bindM_InrE simp: nth_list_update)
  with b(1,3) show ?thesis by (simp add: prefix_canonical_def prefix_ok_def)
qed

section \<open>The question\<close>

definition question_ok :: "TrieQuestion \<Rightarrow> bool" where
  "question_ok q \<longleftrightarrow> length (tq_at q) = 32 \<and> length (tq_prefixes q) \<le> trie_question_limit (tq_kind q) \<and>
     list_all (\<lambda>p. prefix_canonical p \<and> (tq_kind q = Question_children \<longrightarrow> px_length p < 32)) (tq_prefixes q)"

lemma read_countE:
  assumes "read_count m what r = (Inr n, r')"
  shows "n \<le> m"
  using assms by (auto simp: read_count_def elim!: bindM_InrE split: if_splits)

lemma reads_count:
  assumes "n \<le> m" "n < 4294967296"
  shows "reads (read_count m what) (enc_u32 (of_nat n)) n"
proof -
  have u: "unat (of_nat n :: u32) = n" using assms(2) by (rule unat_of_length)
  have "reads (read_count m what) (enc_u32 (of_nat n) @ []) n"
    unfolding read_count_def using assms(1) by (intro reads_bind[OF reads_u32] reads_if reads_ret_eq) (simp_all add: u)
  then show ?thesis by simp
qed

lemma question_limit: "trie_question_limit k \<le> 512"
  by (simp add: trie_question_limit_def trie_records_max_def trie_question_max_def)

lemma reads_question_prefixes:
  assumes "list_all (\<lambda>p. prefix_canonical p \<and> (k = Question_children \<longrightarrow> px_length p < 32)) ps" "length xs = length ps"
  shows "reads (foldM (\<lambda>asked _. read_question_prefix k asked) acc xs) (concat (map enc_prefix ps)) (acc @ ps)"
  using assms
proof (induction ps arbitrary: acc xs)
  case (Cons p ps)
  obtain x ys where xs: "xs = x # ys" "length ys = length ps" using Cons.prems by (cases xs) auto
  have "reads (read_question_prefix k acc) (enc_prefix p @ []) (acc @ [p])"
    unfolding read_question_prefix_def using Cons.prems(1)
    by (intro reads_bind[OF reads_prefix] reads_if reads_ret) auto
  moreover have "reads (foldM (\<lambda>asked _. read_question_prefix k asked) (acc @ [p]) ys)
      (concat (map enc_prefix ps)) ((acc @ [p]) @ ps)"
    using Cons.prems xs by (intro Cons.IH) auto
  ultimately show ?case using xs by (auto intro!: reads_bind)
qed auto


definition enc_question :: "TrieQuestion \<Rightarrow> Bytes" where
  "enc_question q = enc_u8 (kind_code (tq_kind q)) @ enc_u8 (name_code (tq_trie q)) @ tq_at q @
     enc_u32 (of_nat (length (tq_prefixes q))) @ concat (map enc_prefix (tq_prefixes q))"

lemma encode_question_ok:
  "length (tq_prefixes q) \<le> trie_question_limit (tq_kind q) \<Longrightarrow> encode_trie_question q = Inr (enc_question q)"
  by (simp add: encode_trie_question_def enc_question_def foldl_write_prefix writer_simps)

lemma kind_of_code: "question_kind (kind_code k) = k" "\<not> kind_code k > kind_code Question_records"
  by (cases k; simp add: kind_code_def question_kind_def)+

lemma decode_question_ok:
  assumes "question_ok q"
  shows "decode_trie_question (enc_question q) = Inr q"
proof -
  let ?k = "tq_kind q" and ?ps = "tq_prefixes q"
  have at: "length (tq_at q) = 32" and lim: "length ?ps \<le> trie_question_limit ?k"
    and ps: "list_all (\<lambda>p. prefix_canonical p \<and> (?k = Question_children \<longrightarrow> px_length p < 32)) ?ps"
    using assms by (auto simp: question_ok_def)
  have u32: "length ?ps < 4294967296" using lim question_limit[of ?k] by linarith
  have "reads_all (read_question ?k) (enc_u8 (name_code (tq_trie q)) @ tq_at q @
     enc_u32 (of_nat (length ?ps)) @ concat (map enc_prefix ?ps) @ []) q"
    unfolding read_question_def
    by (intro reads_all_bind[OF reads_u8] reads_all_if
          reads_all_bind[OF reads_fixed[OF at]] reads_all_bind[OF reads_count[OF lim u32]]
          reads_all_bind[OF reads_question_prefixes[OF ps]] reads_all_finish)
       (cases "tq_trie q"; cases q; simp)+
  then have rest: "reads_all (read_question (question_kind (kind_code ?k))) (enc_u8 (name_code (tq_trie q)) @ tq_at q @
     enc_u32 (of_nat (length ?ps)) @ concat (map enc_prefix ?ps)) q" by (simp add: kind_of_code)
  show ?thesis
    unfolding decode_trie_question_def enc_question_def
    by (rule reads_all_reader, rule reads_all_bind[OF reads_u8], rule reads_all_if[OF kind_of_code(2) rest])
qed

lemma decoded_question_ok:
  assumes "decode_trie_question bytes = Inr q"
  shows "question_ok q"
proof -
  from assms obtain k at n asked r1 r2 r3 r4 r5 where
    at: "reader_fixed 32 r1 = (Inr at, r2)"
    and n: "read_count (trie_question_limit k) ''prefixes in one trie question'' r2 = (Inr n, r3)"
    and ps: "foldM (\<lambda>asked _. read_question_prefix k asked) [] [0..<n] r3 = (Inr asked, r4)"
    and q: "q = \<lparr>tq_kind = k, tq_trie = held_data, tq_at = at, tq_prefixes = asked\<rparr>"
    by (auto simp: decode_trie_question_def read_question_def elim!: fst_InrE split: if_splits)
  have "length asked = length ([] :: Prefix list) + length [0..<n]"
    by (rule foldM_length[OF ps]) (auto simp: read_question_prefix_def elim!: bindM_InrE split: if_splits)
  moreover have "list_all (\<lambda>p. prefix_canonical p \<and> (k = Question_children \<longrightarrow> px_length p < 32)) asked"
  proof (rule foldM_inv[OF ps])
    fix acc acc' s s'
    assume "list_all (\<lambda>p. prefix_canonical p \<and> (k = Question_children \<longrightarrow> px_length p < 32)) acc"
      and "read_question_prefix k acc s = (Inr acc', s')"
    then show "list_all (\<lambda>p. prefix_canonical p \<and> (k = Question_children \<longrightarrow> px_length p < 32)) acc'"
      unfolding read_question_prefix_def by (elim bindM_InrE) (auto split: if_splits dest!: read_prefix_canonical)
  qed simp
  ultimately show ?thesis
    using read_countE[OF n] reader_fixed_length[OF at] q by (simp add: question_ok_def)
qed

section \<open>The answers\<close>

definition enc_wire_slot :: "nat \<times> Summary \<Rightarrow> Bytes" where
  "enc_wire_slot s = enc_u8 (of_nat (fst s)) @ enc_u64 (sm_count (snd s)) @ sm_hash (snd s)"

definition enc_children :: "Summary list \<Rightarrow> Bytes" where
  "enc_children cs = enc_u16 (of_nat (length (used_slots cs))) @ concat (map enc_wire_slot (used_slots cs))"

lemma enumerate_upt: "enumerate 0 xs = map (\<lambda>i. (i, xs ! i)) [0..<length xs]"
  by (rule nth_equalityI) (simp_all add: nth_enumerate_eq)

lemma count_used: "foldl (\<lambda>present s. present + (if sm_count s \<noteq> 0 then 1 else 0)) n cs =
    n + of_nat (length (filter (\<lambda>s. sm_count s \<noteq> 0) cs))"
  by (induction cs arbitrary: n) (simp_all add: add.assoc)

lemma length_used: "length (used_slots cs) = length (filter (\<lambda>s. sm_count s \<noteq> 0) cs)"
proof -
  have "map snd (filter (\<lambda>s. sm_count (snd s) \<noteq> 0) xs) = filter (\<lambda>s. sm_count s \<noteq> 0) (map snd xs)" for xs
    by (induction xs) auto
  then show ?thesis unfolding used_slots_def by (metis length_map map_snd_enumerate)
qed

lemma write_children_append: "write_children w cs = w @ enc_children cs"
proof -
  have "foldl (\<lambda>w slot. if sm_count (cs ! slot) = 0 then w
          else writer_fixed (writer_u64 (writer_u8 w (of_nat slot)) (sm_count (cs ! slot))) (sm_hash (cs ! slot))) w xs =
      w @ concat (map enc_wire_slot (filter (\<lambda>s. sm_count (snd s) \<noteq> 0) (map (\<lambda>i. (i, cs ! i)) xs)))" for w xs
    by (induction xs arbitrary: w) (simp_all add: writer_simps enc_wire_slot_def)
  then show ?thesis
    by (simp add: write_children_def enc_children_def length_used count_used[of 0, simplified] writer_simps)
       (simp add: used_slots_def enumerate_upt)
qed

text \<open>The answer grows by one slot a turn.\<close>

definition store_slots :: "Summary list \<times> int \<Rightarrow> (nat \<times> Summary) list \<Rightarrow> Summary list \<times> int" where
  "store_slots = foldl (\<lambda>st s. ((fst st)[fst s := snd s], int (fst s)))"

lemma reads_wire_slots:
  assumes "list_all (\<lambda>s. slot_ok s \<and> sm_count (snd s) \<noteq> 0) us" "sorted_wrt (<) (map fst us)"
    "\<forall>s \<in> set us. snd st < int (fst s)" "length xs = length us"
  shows "reads (foldM (\<lambda>st _. read_wire_slot st) st xs) (concat (map enc_wire_slot us)) (store_slots st us)"
  using assms
proof (induction us arbitrary: st xs)
  case (Cons u us)
  obtain x ys where xs: "xs = x # ys" "length ys = length us" using Cons.prems by (cases xs) auto
  have ok: "length (sm_hash (snd u)) = 32" "fst u < 256" "sm_count (snd u) \<noteq> 0" "snd st < int (fst u)"
    using Cons.prems by (auto simp: slot_ok_def fanout_def)
  have i: "unat (of_nat (fst u) :: u8) = fst u" using ok(2) by (simp add: unat_of_nat take_bit_nat_eq_self)
  have "reads (read_wire_slot st) (enc_u8 (of_nat (fst u)) @ enc_u64 (sm_count (snd u)) @ sm_hash (snd u) @ [])
      ((fst st)[fst u := snd u], int (fst u))"
    unfolding read_wire_slot_def split_beta
    by (intro reads_bind[OF reads_u8] reads_if reads_bind[OF reads_u64] reads_bind[OF reads_fixed[OF ok(1)]] reads_ret_eq)
       (use ok in \<open>simp_all add: i\<close>, cases "snd u", simp)
  then have 1: "reads (read_wire_slot st) (enc_wire_slot u) ((fst st)[fst u := snd u], int (fst u))"
    by (simp add: enc_wire_slot_def)
  have 2: "reads (foldM (\<lambda>st _. read_wire_slot st) ((fst st)[fst u := snd u], int (fst u)) ys)
      (concat (map enc_wire_slot us)) (store_slots ((fst st)[fst u := snd u], int (fst u)) us)"
    using Cons.prems xs(2) by (intro Cons.IH) auto
  have "reads (bindM (read_wire_slot st) (\<lambda>st. foldM (\<lambda>st _. read_wire_slot st) st ys))
      (enc_wire_slot u @ concat (map enc_wire_slot us)) (store_slots ((fst st)[fst u := snd u], int (fst u)) us)"
    by (rule reads_bind[OF 1]) (rule 2)
  then show ?case by (simp add: xs(1) store_slots_def)
qed (auto simp: store_slots_def)

lemma store_slots_length: "length (fst (store_slots st us)) = length (fst st)"
  by (induction us arbitrary: st) (simp_all add: store_slots_def)

lemma store_slots_nth:
  assumes "distinct (map fst us)" "i < length (fst st)"
  shows "fst (store_slots st us) ! i = (case map_of us i of None \<Rightarrow> fst st ! i | Some s \<Rightarrow> s)"
  using assms
proof (induction us arbitrary: st)
  case (Cons u us)
  have "map_of us (fst u) = None" using Cons.prems(1) by (simp add: map_of_eq_None_iff)
  with Cons show ?case by (auto simp: store_slots_def nth_list_update split: option.splits)
qed (simp add: store_slots_def)

lemma used_slots_sorted: "sorted_wrt (<) (map fst (used_slots cs))"
proof -
  have "sorted_wrt (\<lambda>a b. fst a < fst b) (enumerate 0 cs)"
    by (simp add: enumerate_upt sorted_wrt_map)
  then show ?thesis by (simp add: used_slots_def sorted_wrt_map sorted_wrt_filter)
qed

lemma map_of_used: "i < length cs \<Longrightarrow> map_of (used_slots cs) i = (if sm_count (cs ! i) = 0 then None else Some (cs ! i))"
proof -
  have "map_of (filter (\<lambda>s. sm_count (snd s) \<noteq> 0) (map (\<lambda>i. (i, cs ! i)) xs)) i =
      (if i \<in> set xs \<and> sm_count (cs ! i) \<noteq> 0 then Some (cs ! i) else None)" for xs
    by (induction xs) auto
  then show "i < length cs \<Longrightarrow> ?thesis" by (simp add: used_slots_def enumerate_upt)
qed

lemma reads_children:
  assumes "slots_ok cs"
  shows "reads read_children (enc_children cs) cs"
proof -
  have len: "length cs = fanout" and ok: "\<And>s. s \<in> set cs \<Longrightarrow> length (sm_hash s) = 32 \<and> (sm_count s = 0 \<longrightarrow> s = Summary_0)"
    using assms by (auto simp: slots_ok_def list_all_iff)
  let ?us = "used_slots cs" and ?st = "(replicate fanout Summary_0, -1 :: int)"
  have n: "length ?us \<le> 256" using length_filter_le[of _ cs] len by (simp add: length_used fanout_def)
  have u: "unat (of_nat (length ?us) :: u16) = length ?us" using n by (simp add: unat_of_nat take_bit_nat_eq_self)
  have us: "list_all (\<lambda>s. slot_ok s \<and> sm_count (snd s) \<noteq> 0) ?us"
    using ok len by (auto simp: used_slots_def enumerate_upt list_all_iff slot_ok_def)
  have slots: "reads (foldM (\<lambda>st _. read_wire_slot st) ?st [0..<length ?us]) (concat (map enc_wire_slot ?us)) (store_slots ?st ?us)"
    by (rule reads_wire_slots[OF us used_slots_sorted]) auto
  have "fst (store_slots ?st ?us) = cs"
  proof (rule nth_equalityI)
    fix i assume "i < length (fst (store_slots ?st ?us))"
    then have i: "i < fanout" by (simp add: store_slots_length)
    have "distinct (map fst ?us)" using used_slots_sorted strict_sorted_iff by blast
    with i show "fst (store_slots ?st ?us) ! i = cs ! i"
      using ok[of "cs ! i"] len by (auto simp: store_slots_nth map_of_used)
  qed (simp add: store_slots_length len)
  moreover have "reads read_children (enc_u16 (of_nat (length ?us)) @ concat (map enc_wire_slot ?us) @ [])
      (fst (store_slots ?st ?us))"
    unfolding read_children_def
    by (rule reads_bind[OF reads_u16], unfold u, rule reads_if, use n in simp, rule reads_bind[OF slots reads_ret])
  ultimately show ?thesis by (simp add: enc_children_def)
qed

lemma read_children_ok:
  assumes "read_children r = (Inr cs, r')"
  shows "slots_ok cs"
proof -
  from assms obtain n s s' st where st: "foldM (\<lambda>st _. read_wire_slot st) (replicate fanout Summary_0, -1) [0..<n] s = (Inr st, s')"
    "cs = fst st" by (auto simp: read_children_def elim!: bindM_InrE split: if_splits)
  have "slots_ok (fst st)"
  proof (rule foldM_inv[OF st(1)])
    fix acc acc' s s' assume ok: "slots_ok (fst acc)" and r: "read_wire_slot acc s = (Inr acc', s')"
    from r obtain i count hash s1 s2 where "count \<noteq> 0" "reader_fixed 32 s1 = (Inr hash, s2)"
      "fst acc' = (fst acc)[unat (i :: u8) := \<lparr>sm_count = count, sm_hash = hash\<rparr>]"
      by (auto simp: read_wire_slot_def split_beta elim!: bindM_InrE split: if_splits)
    with ok show "slots_ok (fst acc')"
      by (auto simp: slots_ok_def list_all_iff dest!: reader_fixed_length set_update_subset_insert[THEN subsetD])
  qed (simp add: slots_ok_def list_all_iff Summary_0_def Hash256_0_def)
  with st(2) show ?thesis by simp
qed

definition enc_answer :: "Record list \<Rightarrow> Bytes" where
  "enc_answer rs = enc_u32 (of_nat (length rs)) @ concat (map enc_record rs)"

definition answer_ok :: "Record list \<Rightarrow> bool" where
  "answer_ok rs \<longleftrightarrow> records_ok rs \<and> length rs \<le> leaf_max"

lemma write_answer_ok: "answer_ok rs \<Longrightarrow> write_answer w rs = Inr (w @ enc_answer rs)"
  by (simp add: write_answer_def enc_answer_def write_records_ok answer_ok_def records_ok_def writer_simps)

lemma write_answers_ok: "list_all answer_ok as \<Longrightarrow> foldR write_answer w as = Inr (w @ concat (map enc_answer as))"
  by (induction as arbitrary: w) (simp_all add: write_answer_ok)

lemma reads_wire_record:
  assumes "record_ok r" "acc = [] \<or> fst (last acc) < fst r"
  shows "reads (read_wire_record acc) (enc_record r) (acc @ [r])"
proof -
  have v: "length (snd r) \<le> 4294967295" "length (snd r) \<le> value_max" "length (fst r) = 32"
    using assms by (auto simp: record_ok_def value_max_def id_ok_def)
  have "reads (read_wire_record acc) (fst r @ enc_bytes (snd r) @ []) (acc @ [(fst r, snd r)])"
    unfolding read_wire_record_def using assms(2)
    by (intro reads_bind[OF reads_fixed[OF v(3)]] reads_bind[OF reads_bytes[OF v(2,1)]] reads_if
        reads_ret) auto
  then show ?thesis by (simp add: enc_record_def)
qed

lemma reads_wire_records:
  assumes "list_all record_ok rs" "sorted_wrt (<) (map fst (acc @ rs))" "length xs = length rs"
  shows "reads (foldM (\<lambda>records _. read_wire_record records) acc xs) (concat (map enc_record rs)) (acc @ rs)"
  using assms
proof (induction rs arbitrary: acc xs)
  case (Cons r rs)
  obtain x ys where xs: "xs = x # ys" "length ys = length rs" using Cons.prems by (cases xs) auto
  have "reads (read_wire_record acc) (enc_record r) (acc @ [r])"
    using Cons.prems by (intro reads_wire_record) (auto simp: sorted_wrt_append dest: last_in_set)
  moreover have "reads (foldM (\<lambda>records _. read_wire_record records) (acc @ [r]) ys)
      (concat (map enc_record rs)) ((acc @ [r]) @ rs)"
    using Cons.prems xs by (intro Cons.IH) auto
  ultimately show ?case using xs by (auto intro!: reads_bind)
qed auto

lemma reads_answer:
  assumes "answer_ok rs"
  shows "reads read_answer (enc_answer rs) rs"
proof -
  have n: "length rs \<le> leaf_max" "length rs < 4294967296" and ok: "list_all record_ok rs" "sorted_wrt (<) (map fst ([] @ rs))"
    using assms by (auto simp: answer_ok_def records_ok_def leaf_max_def)
  have "reads (foldM (\<lambda>records _. read_wire_record records) [] [0..<length rs]) (concat (map enc_record rs)) ([] @ rs)"
    by (rule reads_wire_records[OF ok]) simp
  then show ?thesis
    unfolding read_answer_def enc_answer_def by (intro reads_bind[OF reads_count[OF n]]) simp
qed

lemma read_answer_ok:
  assumes "read_answer r = (Inr rs, r')"
  shows "answer_ok rs"
proof -
  from assms obtain n s s1 s' where n: "read_count leaf_max ''records in one trie answer'' s = (Inr n, s1)"
    and f: "foldM (\<lambda>records _. read_wire_record records) [] [0..<n] s1 = (Inr rs, s')"
    by (auto simp: read_answer_def elim!: bindM_InrE)
  have "length rs = length ([] :: Record list) + length [0..<n]"
    by (rule foldM_length[OF f]) (auto simp: read_wire_record_def elim!: bindM_InrE split: if_splits)
  moreover have "records_ok rs"
  proof (rule foldM_inv[OF f])
    fix acc acc' s s' assume ok: "records_ok acc" and r: "read_wire_record acc s = (Inr acc', s')"
    from r obtain i v s1 s2 s3 where "reader_fixed 32 s1 = (Inr i, s2)" "reader_bytes value_max s2 = (Inr v, s3)"
      and le: "acc = [] \<or> fst (last acc) < i" and acc': "acc' = acc @ [(i, v)]"
      by (auto simp: read_wire_record_def elim!: bindM_InrE split: if_splits)
    then have rec: "record_ok (i, v)" by (auto simp: record_ok_def id_ok_def dest: reader_fixed_length reader_bytes_length)
    have "fst x < i" if "x \<in> set acc" for x
    proof -
      have "acc \<noteq> []" using that by auto
      then obtain ys y where a: "acc = ys @ [y]" by (metis rev_exhaust)
      then have "x = y \<or> fst x < fst y" using ok that by (auto simp: records_ok_def sorted_wrt_append)
      with le a show ?thesis by auto
    qed
    with ok rec acc' show "records_ok acc'" by (auto simp: records_ok_def sorted_wrt_append)
  qed (simp add: records_ok_def)
  ultimately show ?thesis using read_countE[OF n] by (simp add: answer_ok_def)
qed


lemma reads_repeatM:
  assumes "\<And>x. x \<in> set xs \<Longrightarrow> reads m (e x) x"
  shows "reads (repeatM (length xs) m) (concat (map e xs)) xs"
  using assms
proof (induction xs)
  case (Cons x xs)
  have "reads (bindM (repeatM (length xs) m) (\<lambda>ys. retM (x # ys))) (concat (map e xs) @ []) (x # xs)"
    by (rule reads_bind[OF Cons.IH reads_ret]) (use Cons.prems in auto)
  with Cons.prems[of x] show ?case by (auto intro: reads_bind)
qed auto

lemma decode_root_answer:
  assumes "length (sm_hash s) = 32"
  shows "decode_trie_root (encode_trie_root s) = Inr s"
proof -
  have "decode_trie_root (enc_u64 (sm_count s) @ sm_hash s @ []) = Inr s"
    unfolding decode_trie_root_def
    by (intro reads_all_reader reads_all_bind[OF reads_u64] reads_all_bind[OF reads_fixed[OF assms]] reads_all_finish) simp
  then show ?thesis by (simp add: encode_trie_root_def writer_simps)
qed

lemma decode_children_answers:
  assumes "list_all slots_ok as" "length as \<le> trie_question_max"
  shows "decode_trie_children (encode_trie_children as) = Inr as"
proof -
  have fold: "foldl write_children w as = w @ concat (map enc_children as)" for w and as :: "Summary list list"
    by (induction as arbitrary: w) (simp_all add: write_children_append)
  have n: "length as < 4294967296" using assms(2) by (simp add: trie_question_max_def)
  have "reads (repeatM (length as) read_children) (concat (map enc_children as)) as"
    using assms(1) by (intro reads_repeatM reads_children) (simp add: list_all_iff)
  then have "decode_trie_children (enc_u32 (of_nat (length as)) @ concat (map enc_children as) @ []) = Inr as"
    unfolding decode_trie_children_def
    by (intro reads_all_reader reads_all_bind[OF reads_count[OF assms(2) n]])
       (rule reads_all_bind, assumption, rule reads_all_finish, simp)
  then show ?thesis by (simp add: encode_trie_children_def writer_simps fold)
qed

lemma decode_records_answers:
  assumes "list_all answer_ok as" "length as \<le> trie_records_max"
  shows "\<exists>bytes. encode_trie_records as = Inr bytes \<and> decode_trie_records bytes = Inr as"
proof -
  have n: "length as < 4294967296" using assms(2) by (simp add: trie_records_max_def)
  have "reads (repeatM (length as) read_answer) (concat (map enc_answer as)) as"
    using assms(1) by (intro reads_repeatM reads_answer) (simp add: list_all_iff)
  then have "decode_trie_records (enc_u32 (of_nat (length as)) @ concat (map enc_answer as) @ []) = Inr as"
    unfolding decode_trie_records_def
    by (intro reads_all_reader reads_all_bind[OF reads_count[OF assms(2) n]])
       (rule reads_all_bind, assumption, rule reads_all_finish, simp)
  then show ?thesis by (simp add: encode_trie_records_def writer_simps write_answers_ok[OF assms(1)])
qed

section \<open>Properties\<close>

text \<open>
  C29: Questions and answers arrive as they were sent. A question within the limits the code puts on
  it is encoded and decoded to itself; so are the answers to each kind of question: a root's
  summary, up to 64 tables of subtrees, up to 512 lists of records.
\<close>

theorem trie_messages_roundtrip:
  assumes "question_ok q" "length (sm_hash s) = 32"
    "list_all slots_ok tables" "length tables \<le> trie_question_max"
    "list_all answer_ok answers" "length answers \<le> trie_records_max"
  shows "(\<exists>bytes. encode_trie_question q = Inr bytes \<and> decode_trie_question bytes = Inr q) \<and>
    decode_trie_root (encode_trie_root s) = Inr s \<and>
    decode_trie_children (encode_trie_children tables) = Inr tables \<and>
    (\<exists>bytes. encode_trie_records answers = Inr bytes \<and> decode_trie_records bytes = Inr answers)"
  using encode_question_ok[of q] decode_question_ok[OF assms(1)] decode_root_answer[OF assms(2)]
    decode_children_answers[OF assms(3,4)] decode_records_answers[OF assms(5,6)] assms(1)
  by (simp add: question_ok_def)

theorem trie_messages_roundtrip_witness:
  "\<exists>bytes. encode_trie_question \<lparr>tq_kind = Question_children, tq_trie = held_data, tq_at = replicate 32 1,
       tq_prefixes = [Prefix_0]\<rparr> = Inr bytes \<and>
     decode_trie_question bytes = Inr \<lparr>tq_kind = Question_children, tq_trie = held_data, tq_at = replicate 32 1,
       tq_prefixes = [Prefix_0]\<rparr>"
proof -
  have q: "question_ok \<lparr>tq_kind = Question_children, tq_trie = held_data, tq_at = replicate 32 1, tq_prefixes = [Prefix_0]\<rparr>"
    by (simp add: question_ok_def trie_question_limit_def trie_question_max_def prefix_canonical_def prefix_ok_def Prefix_0_def)
  have s: "length (sm_hash Summary_0) = 32" by (simp add: Summary_0_def Hash256_0_def)
  have "slots_ok (replicate fanout Summary_0)" using s by (simp add: slots_ok_def list_all_iff)
  then have t: "list_all slots_ok [replicate fanout Summary_0]" by simp
  have l: "list_all answer_ok [one_record]"
    using segment_okD(1)[OF one_record_ok] by (simp add: answer_ok_def one_record_def leaf_max_def)
  show ?thesis
    using trie_messages_roundtrip[OF q s t _ l] by (simp add: trie_question_max_def trie_records_max_def)
qed

text \<open>
  C38: Whatever bytes a peer sends, a decoder throws or returns a value within its bounds: a question has
  at most the prefixes its kind allows, none longer than an id, and asks for children of no whole
  id; a reply has at most 64 tables, each of 256 slots whose empty ones are zero; a reply of
  records has at most 512 lists, each sorted, without repetition, of at most a leaf's records and
  no value larger than a record takes.
\<close>

theorem decoded_messages_ok:
  "(decode_trie_question bytes = Inr q \<longrightarrow> question_ok q) \<and>
   (decode_trie_children bytes = Inr tables \<longrightarrow> length tables \<le> trie_question_max \<and> list_all slots_ok tables) \<and>
   (decode_trie_records bytes = Inr answers \<longrightarrow> length answers \<le> trie_records_max \<and> list_all answer_ok answers)"
proof (intro conjI impI)
  show "decode_trie_question bytes = Inr q \<Longrightarrow> question_ok q" by (rule decoded_question_ok)
next
  assume "decode_trie_children bytes = Inr tables"
  then have "length tables \<le> trie_question_max \<and> list_all slots_ok tables"
    unfolding decode_trie_children_def
    by (auto elim!: fst_InrE dest!: read_countE repeatM_inv[where P = slots_ok, OF _ read_children_ok])
  then show "length tables \<le> trie_question_max" "list_all slots_ok tables" by simp_all
next
  assume "decode_trie_records bytes = Inr answers"
  then have "length answers \<le> trie_records_max \<and> list_all answer_ok answers"
    unfolding decode_trie_records_def
    by (auto elim!: fst_InrE dest!: read_countE repeatM_inv[where P = answer_ok, OF _ read_answer_ok])
  then show "length answers \<le> trie_records_max" "list_all answer_ok answers" by simp_all
qed

definition sample_question :: TrieQuestion where
  "sample_question =
     \<lparr>tq_kind = Question_children, tq_trie = held_data, tq_at = replicate 32 1, tq_prefixes = [Prefix_0]\<rparr>"

theorem decoded_messages_ok_witness:
  "decode_trie_question (enc_question sample_question) = Inr sample_question \<and> question_ok sample_question"
proof -
  have "question_ok sample_question"
    by (simp add: sample_question_def question_ok_def trie_question_limit_def trie_question_max_def
        prefix_canonical_def prefix_ok_def Prefix_0_def)
  then have d: "decode_trie_question (enc_question sample_question) = Inr sample_question"
    by (rule decode_question_ok)
  with decoded_messages_ok[of "enc_question sample_question" sample_question] show ?thesis by blast
qed

end
