(* ===== verification/Trie_Union.thy ===== *)
theory Trie_Union
  imports Trie_Diff
begin

text \<open>
  Several tries read as one (\<^verbatim>\<open>src/ledger/trie_union.hpp\<close>, \<^verbatim>\<open>src/ledger/trie_union.cpp\<close>): each id once,
  with the value of the first part that holds it. Only the subtrees several parts hold differently
  are worked out, and a union made with an earlier one as a hint takes over the subtrees whose
  parts are as they were. The theorems are that a union has the summaries one trie over the same
  records would have, hint or not, and that it is a source for a comparison, so that it can be
  compared with any trie. The state of the operations is the list of the parts' node caches.
\<close>

section \<open>The union\<close>

datatype UnionNode =
  UnionNode (un_inputs: "Summary list") (un_summary: Summary) (un_whole: "nat option")
    (un_below: "UnionNode option list")

record TrieUnion =
  tu_crypto :: crypto
  tu_parts :: "Snapshot list"
  tu_root :: "UnionNode option"

type_synonym caches = "Node NodeCache list"

definition on_part :: "nat \<Rightarrow> (Node NodeCache, 'a) prog \<Rightarrow> (caches, 'a) prog" where
  "on_part i m = zoomM (\<lambda>cs. cs ! i) (\<lambda>c cs. cs[i := c]) m"

text \<open>The answer of one part for one prefix: \<^verbatim>\<open>front()\<close> of the answers for a span of one.\<close>

definition part_children :: "Snapshot list \<Rightarrow> nat \<Rightarrow> Prefix \<Rightarrow> (caches, Summary list) prog" where
  "part_children parts i p = bindM (on_part i (snapshot_children (parts ! i) [p])) (\<lambda>answers. retM (hd answers))"

definition part_records :: "Snapshot list \<Rightarrow> u64 \<Rightarrow> nat \<Rightarrow> Prefix \<Rightarrow> (caches, Record list) prog" where
  "part_records parts most i p =
     bindM (on_part i (snapshot_records (parts ! i) most [p])) (\<lambda>answers. retM (hd answers))"

text \<open>The merging loop of \<^verbatim>\<open>merged_records\<close>: the records of both, of equal ids the first's.\<close>

fun merge_first :: "Record list \<Rightarrow> Record list \<Rightarrow> Record list" where
  "merge_first [] got = got"
| "merge_first (a # out) [] = a # out"
| "merge_first (a # out) (b # got) =
     (if fst a < fst b then a # merge_first out (b # got)
      else if fst b < fst a then b # merge_first (a # out) got
      else a # merge_first out got)"

definition merge_part :: "Snapshot list \<Rightarrow> Prefix \<Rightarrow> u64 \<Rightarrow> Record list \<Rightarrow> nat \<Rightarrow> (caches, Record list) prog" where
  "merge_part parts p most out i =
     bindM (part_records parts most i p) (\<lambda>got.
       if got = [] then retM out
       else let out = merge_first out got in
         if of_nat (length out) > most
         then raiseM (LengthError ''trie union: more records below a prefix than asked for'')
         else retM out)"

definition merged_records :: "Snapshot list \<Rightarrow> Prefix \<Rightarrow> u64 \<Rightarrow> (caches, Record list) prog" where
  "merged_records parts p most = foldM (merge_part parts p most) [] [0..<length parts]"

text \<open>
  The loop over the inputs at the head of \<^verbatim>\<open>merge\<close>: the first part with records, whether every part
  with records has the same summary, and how many records they have between them.
\<close>

definition scan_input :: "Summary list \<Rightarrow> nat option \<times> bool \<times> u64 \<Rightarrow> nat \<times> Summary \<Rightarrow> nat option \<times> bool \<times> u64" where
  "scan_input inputs acc at =
     (case acc of (first, alike, most) \<Rightarrow>
        if sm_count (snd at) = 0 then acc
        else case first of
            None \<Rightarrow> (Some (fst at), alike, most + sm_count (snd at))
          | Some f \<Rightarrow> (first, alike \<and> snd at = inputs ! f, most + sm_count (snd at)))"

definition scan_inputs :: "Summary list \<Rightarrow> nat option \<times> bool \<times> u64" where
  "scan_inputs inputs = foldl (scan_input inputs) (None, True, 0) (enumerate 0 inputs)"

definition node_summary :: "UnionNode option \<Rightarrow> Summary" where
  "node_summary n = (case n of None \<Rightarrow> Summary_0 | Some n \<Rightarrow> un_summary n)"

text \<open>A node whose records are few enough for a leaf, or whose parts' are.\<close>

definition merge_leaf :: "crypto \<Rightarrow> Snapshot list \<Rightarrow> Prefix \<Rightarrow> Summary list \<Rightarrow> (caches, UnionNode option) prog" where
  "merge_leaf C parts p inputs =
     bindM (merged_records parts p uint64_max) (\<lambda>records.
     bindM (liftM (leaf_summary C records)) (\<lambda>summary. retM (Some (UnionNode inputs summary None []))))"

definition below_part :: "Snapshot list \<Rightarrow> Prefix \<Rightarrow> Summary list \<Rightarrow> nat \<Rightarrow> (caches, Summary list) prog" where
  "below_part parts p inputs i =
     (if sm_count (inputs ! i) \<noteq> 0 then part_children parts i p else retM (replicate fanout Summary_0))"

definition hint_below :: "UnionNode option \<Rightarrow> nat \<Rightarrow> UnionNode option" where
  "hint_below hint k =
     (case hint of None \<Rightarrow> None | Some h \<Rightarrow> if length (un_below h) = fanout then un_below h ! k else None)"

fun union_merge :: "nat \<Rightarrow> crypto \<Rightarrow> Snapshot list \<Rightarrow> Prefix \<Rightarrow> Summary list \<Rightarrow> UnionNode option \<Rightarrow>
    (caches, UnionNode option) prog" where
  "union_merge 0 C parts p inputs hint = raiseM OutOfFuel"
| "union_merge (Suc fuel) C parts p inputs hint =
     (if (case hint of None \<Rightarrow> False | Some h \<Rightarrow> un_inputs h = inputs) then retM hint
      else case scan_inputs inputs of (first, alike, most) \<Rightarrow>
        case first of
          None \<Rightarrow> retM None
        | Some f \<Rightarrow>
            if alike then retM (Some (UnionNode inputs (inputs ! f) (Some f) []))
            else if most > of_nat leaf_max then
              bindM (mapM (below_part parts p inputs) [0..<length parts]) (\<lambda>below.
              bindM (mapM (\<lambda>k. union_merge fuel C parts (prefix_child p (of_nat k))
                (map (\<lambda>i. below ! i ! k) [0..<length parts]) (hint_below hint k)) [0..<fanout]) (\<lambda>nodes.
              let slots = map node_summary nodes in
              if foldl (\<lambda>count s. count + sm_count s) 0 slots > of_nat leaf_max
              then retM (Some (UnionNode inputs (interior_summary C slots) None nodes))
              else merge_leaf C parts p inputs))
            else merge_leaf C parts p inputs)"

text \<open>
  A merge goes one byte down at a time and asks nothing below a whole id, so one call more than an
  id has bytes is enough.
\<close>

definition union_fuel :: nat where
  "union_fuel = 33"

definition TrieUnion_new :: "crypto \<Rightarrow> Snapshot list \<Rightarrow> TrieUnion option \<Rightarrow> (caches, TrieUnion) prog" where
  "TrieUnion_new C parts hint =
     bindM (union_merge union_fuel C parts Prefix_0 (map snapshot_summary parts)
       (case hint of None \<Rightarrow> None | Some h \<Rightarrow> tu_root h)) (\<lambda>root.
     retM \<lparr>tu_crypto = C, tu_parts = parts, tu_root = root\<rparr>)"

definition union_root :: "TrieUnion \<Rightarrow> Summary" where
  "union_root u = node_summary (tu_root u)"

fun union_get_from :: "TrieUnion \<Rightarrow> ObjectId \<Rightarrow> nat list \<Rightarrow> (caches, Bytes option) prog" where
  "union_get_from u i [] = retM None"
| "union_get_from u i (k # ks) =
     bindM (on_part k (snapshot_get (tu_parts u ! k) i)) (\<lambda>value.
       case value of Some v \<Rightarrow> retM (Some v) | None \<Rightarrow> union_get_from u i ks)"

definition union_get :: "TrieUnion \<Rightarrow> ObjectId \<Rightarrow> (caches, Bytes option) prog" where
  "union_get u i = union_get_from u i [0..<length (tu_parts u)]"

text \<open>The node a prefix falls in; the list is the prefix's bytes from the node's depth on.\<close>

fun find_node :: "UnionNode option \<Rightarrow> Bytes \<Rightarrow> UnionNode option" where
  "find_node node [] = node"
| "find_node node (b # bs) =
     (case node of
        None \<Rightarrow> None
      | Some n \<Rightarrow> if length (un_below n) = fanout then find_node (un_below n ! unat b) bs else node)"

definition prefix_node :: "TrieUnion \<Rightarrow> Prefix \<Rightarrow> UnionNode option" where
  "prefix_node u p = find_node (tu_root u) (take (px_length p) (px_bytes p))"

definition union_leaf_children :: "crypto \<Rightarrow> Prefix \<Rightarrow> Record list \<Rightarrow> (Summary list) result" where
  "union_leaf_children C p records =
     foldR (\<lambda>out group. bindR (leaf_summary C (snd group)) (\<lambda>s. Inr (out[unat (fst group) := s])))
       (replicate fanout Summary_0) (runs (\<lambda>r. fst r ! px_length p) records)"

definition union_children_one :: "TrieUnion \<Rightarrow> Prefix \<Rightarrow> (caches, Summary list) prog" where
  "union_children_one u p =
     (if px_length p \<ge> 32 then raiseM (LogicError ''trie union: a whole id has no children'')
      else case prefix_node u p of
          None \<Rightarrow> retM (replicate fanout Summary_0)
        | Some node \<Rightarrow>
            (case un_whole node of
               Some i \<Rightarrow> part_children (tu_parts u) i p
             | None \<Rightarrow>
                 if length (un_below node) = fanout then retM (map node_summary (un_below node))
                 else bindM (merged_records (tu_parts u) p uint64_max) (\<lambda>records.
                   liftM (union_leaf_children (tu_crypto u) p records))))"

definition union_children :: "TrieUnion \<Rightarrow> Prefix list \<Rightarrow> (caches, Summary list list) prog" where
  "union_children u ps = mapM (union_children_one u) ps"

definition union_records_one :: "TrieUnion \<Rightarrow> u64 \<Rightarrow> Prefix \<Rightarrow> (caches, Record list) prog" where
  "union_records_one u most p =
     (case prefix_node u p of
        None \<Rightarrow> retM []
      | Some node \<Rightarrow>
          (case un_whole node of
             Some i \<Rightarrow> part_records (tu_parts u) most i p
           | None \<Rightarrow>
               if length (un_below node) = fanout \<and> sm_count (un_summary node) > most
               then raiseM (LengthError ''trie union: more records below a prefix than asked for'')
               else merged_records (tu_parts u) p most))"

definition union_records_of :: "TrieUnion \<Rightarrow> u64 \<Rightarrow> Prefix list \<Rightarrow> (caches, Record list list) prog" where
  "union_records_of u most ps = mapM (union_records_one u most) ps"

definition UnionSource :: "TrieUnion \<Rightarrow> caches TrieSource" where
  "UnionSource u =
     \<lparr>src_root = retM (union_root u), src_children = union_children u,
      src_records = union_records_of u uint64_max\<rparr>"

section \<open>The records of a union\<close>

definition union_records :: "Record list list \<Rightarrow> Record list" where
  "union_records rss = foldl merge_first [] rss"

text \<open>The value of an id: the first part's that has one.\<close>

fun first_value :: "('k \<rightharpoonup> 'v) list \<Rightarrow> 'k \<Rightarrow> 'v option" where
  "first_value [] i = None"
| "first_value (m # ms) i = (case m i of None \<Rightarrow> first_value ms i | Some v \<Rightarrow> Some v)"

lemma records_omap: "records_ok rs \<longleftrightarrow> omap_ok rs \<and> list_all record_ok rs"
  by (auto simp: records_ok_def omap_ok_def)

lemma records_ext: "records_ok xs \<Longrightarrow> records_ok ys \<Longrightarrow> map_of xs = map_of ys \<Longrightarrow> xs = ys"
  by (rule omap_ext) (simp_all add: records_omap)

lemma set_merge_first: "set (merge_first xs ys) \<subseteq> set xs \<union> set ys"
  by (induction xs ys rule: merge_first.induct) auto

lemma merge_first_records:
  "records_ok xs \<Longrightarrow> records_ok ys \<Longrightarrow>
   records_ok (merge_first xs ys) \<and> map_of (merge_first xs ys) = map_of ys ++ map_of xs"
proof (induction xs ys rule: merge_first.induct)
  case (1 got)
  then show ?case by simp
next
  case (2 a out)
  then show ?case by simp
next
  case (3 a out b got)
  have ok: "records_ok out" "\<forall>x \<in> set out. fst a < fst x" "records_ok got" "\<forall>x \<in> set got. fst b < fst x"
    "record_ok a" "record_ok b" using "3.prems" by (simp_all add: records_ok_Cons)
  consider "fst a < fst b" | "\<not> fst a < fst b" "fst b < fst a" | "\<not> fst a < fst b" "\<not> fst b < fst a" by blast
  then show ?case
  proof cases
    case 1
    have "\<forall>x \<in> set (merge_first out (b # got)). fst a < fst x"
      using set_merge_first[of out "b # got"] ok(2,4) 1 by fastforce
    then have "records_ok (a # merge_first out (b # got))"
      using "3.IH"(1)[OF 1 ok(1) "3.prems"(2)] ok(5) by (simp add: records_ok_Cons)
    moreover have "map_of (a # merge_first out (b # got)) = map_of (b # got) ++ map_of (a # out)"
      using "3.IH"(1)[OF 1 ok(1) "3.prems"(2)] by (simp only: map_of.simps map_add_upd)
    ultimately show ?thesis using 1 by (simp only: merge_first.simps if_True)
  next
    case 2
    have "\<forall>x \<in> set (merge_first (a # out) got). fst b < fst x"
      using set_merge_first[of "a # out" got] ok(2,4) 2 by fastforce
    then have "records_ok (b # merge_first (a # out) got)"
      using "3.IH"(2)[OF 2 "3.prems"(1) ok(3)] ok(6) by (simp add: records_ok_Cons)
    moreover have "map_of (a # out) (fst b) = None"
      using 2 ok(2) "3.prems"(1) by (intro map_of_smaller) auto
    then have no: "fst b \<notin> dom (map_of (a # out))" by (simp only: domIff not_not)
    have "map_of (b # merge_first (a # out) got) = map_of (b # got) ++ map_of (a # out)"
      using map_add_upd_left[OF no, of "map_of got" "snd b"] "3.IH"(2)[OF 2 "3.prems"(1) ok(3)]
      by (simp only: map_of.simps)
    ultimately show ?thesis using 2 by (simp only: merge_first.simps if_True if_False)
  next
    case 3
    then have e: "fst b = fst a" by simp
    have "\<forall>x \<in> set (merge_first out got). fst a < fst x"
      using set_merge_first[of out got] ok(2,4) e by fastforce
    then have "records_ok (a # merge_first out got)"
      using "3.IH"(3)[OF 3 ok(1,3)] ok(5) by (simp add: records_ok_Cons)
    moreover have "(map_of got)(fst a \<mapsto> snd b) ++ (map_of out)(fst a \<mapsto> snd a) = (map_of got ++ map_of out)(fst a \<mapsto> snd a)"
      by (rule ext) (simp add: map_add_def split: option.split)
    then have "map_of (a # merge_first out got) = map_of (b # got) ++ map_of (a # out)"
      unfolding map_of.simps "3.IH"(3)[OF 3 ok(1,3), THEN conjunct2] e by (rule sym)
    ultimately show ?thesis using 3 by (simp only: merge_first.simps if_False)
  qed
qed

lemmas records_ok_merge_first = merge_first_records[THEN conjunct1]
lemmas map_of_merge_first = merge_first_records[THEN conjunct2]

lemma foldl_merge_first:
  assumes "records_ok out" "\<forall>rs \<in> set rss. records_ok rs"
  shows "records_ok (foldl merge_first out rss)"
    "map_of (foldl merge_first out rss) i = first_value (map map_of (out # rss)) i"
  using assms
proof (induction rss arbitrary: out)
  case (Cons rs rss)
  { case 1 then show ?case using Cons.IH(1) by (simp add: records_ok_merge_first) }
  { case 2 then show ?case using Cons.IH(2)[of "merge_first out rs"]
      by (simp add: records_ok_merge_first map_of_merge_first map_add_def split: option.split) }
qed (auto split: option.split)

lemma union_records_ok:
  assumes "\<forall>rs \<in> set rss. records_ok rs"
  shows "records_ok (union_records rss)" "map_of (union_records rss) = first_value (map map_of rss)"
  using foldl_merge_first[of "[]" rss] assms by (auto simp: union_records_def records_ok_def)

lemma filter_union_records:
  assumes "\<forall>rs \<in> set rss. records_ok rs"
  shows "filter (\<lambda>r. P (fst r)) (union_records rss) = union_records (map (filter (\<lambda>r. P (fst r))) rss)"
proof (rule records_ext)
  have ok: "\<forall>rs \<in> set (map (filter (\<lambda>r. P (fst r))) rss). records_ok rs"
    using assms by (auto simp: records_ok_filter)
  show "records_ok (filter (\<lambda>r. P (fst r)) (union_records rss))"
    by (simp add: records_ok_filter union_records_ok assms)
  show "records_ok (union_records (map (filter (\<lambda>r. P (fst r))) rss))" by (rule union_records_ok(1)[OF ok])
  have "first_value (map map_of (map (filter (\<lambda>r. P (fst r))) rss)) i =
      (if P i then first_value (map map_of rss) i else None)" for i
    by (induction rss) (simp_all add: map_of_filter_id split: option.split)
  then show "map_of (filter (\<lambda>r. P (fst r)) (union_records rss)) = map_of (union_records (map (filter (\<lambda>r. P (fst r))) rss))"
    unfolding union_records_ok(2)[OF ok] by (simp add: fun_eq_iff map_of_filter_id union_records_ok(2)[OF assms])
qed

lemma below_union:
  "\<forall>rs \<in> set rss. records_ok rs \<Longrightarrow> below p (union_records rss) = union_records (map (below p) rss)"
  using filter_union_records[of rss "covers p"] by (simp add: below_def[abs_def])

lemma slot_union:
  "\<forall>rs \<in> set rss. records_ok rs \<Longrightarrow> slot d k (union_records rss) = union_records (map (slot d k) rss)"
  using filter_union_records[of rss "\<lambda>i. unat (i ! d) = k"] by (simp add: slot_def[abs_def])

lemma merge_first_Nil [simp]: "merge_first xs [] = xs"
  by (cases xs) simp_all

lemma merge_first_same [simp]: "merge_first xs xs = xs"
  by (induction xs) simp_all

lemma length_merge_first: "length (merge_first xs ys) \<le> length xs + length ys"
  by (induction xs ys rule: merge_first.induct) auto

lemma length_merge_first_ge: "length xs \<le> length (merge_first xs ys) \<and> length ys \<le> length (merge_first xs ys)"
  by (induction xs ys rule: merge_first.induct) auto

lemma length_foldl_merge_first:
  "length (foldl merge_first out rss) \<le> length out + sum_list (map length rss)"
  "length out \<le> length (foldl merge_first out rss)"
proof (induction rss arbitrary: out)
  case (Cons xs rss)
  { case 1 show ?case using Cons.IH(1)[of "merge_first out xs"] length_merge_first[of out xs] by simp }
  { case 2 show ?case using Cons.IH(2)[of "merge_first out xs"] length_merge_first_ge[of out xs] by simp }
qed simp_all

lemma length_union_records: "length (union_records rss) \<le> sum_list (map length rss)"
  using length_foldl_merge_first(1)[of "[]" rss] by (simp add: union_records_def)

lemma length_union_part:
  assumes "rs \<in> set rss" shows "length rs \<le> length (union_records rss)"
proof -
  obtain xs ys where rss: "rss = xs @ rs # ys" using split_list[OF assms] by blast
  have "length rs \<le> length (merge_first (foldl merge_first [] xs) rs)" by (rule length_merge_first_ge[THEN conjunct2])
  also have "\<dots> \<le> length (union_records rss)"
    unfolding union_records_def rss foldl_append foldl_Cons by (rule length_foldl_merge_first(2))
  finally show ?thesis .
qed

lemma union_Nil: "set rss \<subseteq> {[]} \<Longrightarrow> union_records rss = []"
  unfolding union_records_def by (induction rss) simp_all

lemma union_records_Nil: "union_records rss = [] \<longleftrightarrow> (\<forall>rs \<in> set rss. rs = [])"
proof
  show "union_records rss = [] \<Longrightarrow> \<forall>rs \<in> set rss. rs = []" using length_union_part[of _ rss] by (metis le_zero_eq length_0_conv)
  show "\<forall>rs \<in> set rss. rs = [] \<Longrightarrow> union_records rss = []"
    using union_Nil by blast
qed

lemma union_alike:
  assumes "set rss \<subseteq> {[], x}" "x \<in> set rss"
  shows "union_records rss = x"
proof -
  have "set rss \<subseteq> {[], x} \<Longrightarrow> out \<in> {[], x} \<Longrightarrow>
      foldl merge_first out rss = (if out = x \<or> x \<in> set rss then x else out)" for out
  proof (induction rss arbitrary: out)
    case (Cons rs rss)
    have "merge_first out rs \<in> {[], x}" "merge_first out rs = x \<longleftrightarrow> out = x \<or> rs = x"
      using Cons.prems by auto
    then show ?case using Cons.IH[of "merge_first out rs"] Cons.prems by auto
  qed simp
  from this[OF assms(1), of "[]"] assms(2) show ?thesis by (simp add: union_records_def)
qed

section \<open>The parts\<close>

definition parts_reading :: "node_files list \<Rightarrow> Snapshot list \<Rightarrow> caches \<Rightarrow> bool" where
  "parts_reading Fs parts cs \<longleftrightarrow>
     length Fs = length parts \<and> length cs = length parts \<and>
     (\<forall>i < length parts. snapshot_reading (Fs ! i) (parts ! i) (cs ! i))"

definition parts_hold :: "crypto \<Rightarrow> node_files list \<Rightarrow> Snapshot list \<Rightarrow> Record list list \<Rightarrow> bool" where
  "parts_hold C Fs parts rss \<longleftrightarrow>
     length rss = length parts \<and>
     (\<forall>i < length parts. snapshot_holds (Fs ! i) (parts ! i) (rss ! i) \<and> sn_crypto (parts ! i) = C)"

text \<open>
  Few enough parts and records, no more records of the union sharing 31 bytes than a leaf takes,
  and no collision among the hashes of a set of ledgers.
\<close>

definition union_fits :: "Record list list \<Rightarrow> bool" where
  "union_fits rss \<longleftrightarrow> ledger_ok (union_records rss) \<and> sum_list (map length rss) < 2 ^ 64 \<and> length rss \<le> leaf_max"

definition apart :: "crypto \<Rightarrow> Record list set \<Rightarrow> bool" where
  "apart C A \<longleftrightarrow> crypto_ok C \<and> inj_on (sha256 C) (\<Union>rs \<in> A. ledger_inputs C rs) \<and> (\<forall>rs \<in> A. ledger_ok rs)"

lemma apart_sound:
  assumes "apart C A" "ls \<in> A" "rs \<in> A" "prefix_ok p"
    "trie_summary C (px_length p) (below p ls) = trie_summary C (px_length p) (below p rs)"
  shows "below p ls = below p rs"
proof (rule ledger_inputs_sound[OF _ _ _ _ assms(4,5)])
  have "ledger_inputs C ls \<union> ledger_inputs C rs \<subseteq> (\<Union>rs \<in> A. ledger_inputs C rs)" using assms(2,3) by blast
  then show "inj_on (sha256 C) (ledger_inputs C ls \<union> ledger_inputs C rs)"
    using assms(1) inj_on_subset unfolding apart_def by blast
qed (use assms in \<open>simp_all add: apart_def\<close>)

lemma on_part_reads:
  assumes "parts_reading Fs parts cs" "i < length parts"
    "\<exists>c'. m (cs ! i) = (Inr x, c') \<and> snapshot_reading (Fs ! i) (parts ! i) c'"
  shows "\<exists>cs'. on_part i m cs = (Inr x, cs') \<and> parts_reading Fs parts cs'"
proof -
  obtain c' where "m (cs ! i) = (Inr x, c')" "snapshot_reading (Fs ! i) (parts ! i) c'" using assms(3) by blast
  with assms(1,2) show ?thesis by (auto simp: on_part_def zoomM_apply parts_reading_def nth_list_update)
qed

lemma parts_holdD:
  assumes "parts_hold C Fs parts rss"
  shows "length rss = length parts" "i < length parts \<Longrightarrow> snapshot_holds (Fs ! i) (parts ! i) (rss ! i)"
    "i < length parts \<Longrightarrow> sn_crypto (parts ! i) = C"
  using assms by (simp_all add: parts_hold_def)

lemma part_children_holds:
  assumes "parts_reading Fs parts cs" "parts_hold C Fs parts rss" "i < length parts" "prefix_ok p" "px_length p < 32"
  shows "\<exists>cs'. part_children parts i p cs = (Inr (slot_summaries C (px_length p) (below p (rss ! i))), cs') \<and>
    parts_reading Fs parts cs'"
proof -
  have "snapshot_reading (Fs ! i) (parts ! i) (cs ! i)" using assms(1,3) by (simp add: parts_reading_def)
  from snapshot_children_holds[OF this parts_holdD(2)[OF assms(2,3)], of "[p]"] assms(4,5)
  have "\<exists>c'. snapshot_children (parts ! i) [p] (cs ! i) =
      (Inr [slot_summaries C (px_length p) (below p (rss ! i))], c') \<and> snapshot_reading (Fs ! i) (parts ! i) c'"
    by (simp add: parts_holdD(3)[OF assms(2,3)])
  from on_part_reads[where m = "snapshot_children (parts ! i) [p]", OF assms(1,3) this] show ?thesis
    by (auto simp: part_children_def bindM_def)
qed

lemma part_records_holds:
  assumes "parts_reading Fs parts cs" "parts_hold C Fs parts rss" "i < length parts" "prefix_ok p"
    "length (below p (rss ! i)) \<le> leaf_max \<or> length (below p (rss ! i)) \<le> unat most"
  shows "\<exists>cs'. part_records parts most i p cs = (Inr (below p (rss ! i)), cs') \<and> parts_reading Fs parts cs'"
proof -
  have "snapshot_reading (Fs ! i) (parts ! i) (cs ! i)" using assms(1,3) by (simp add: parts_reading_def)
  from snapshot_records_holds[OF this parts_holdD(2)[OF assms(2,3)], of "[p]" most] assms(4,5)
  have "\<exists>c'. snapshot_records (parts ! i) most [p] (cs ! i) = (Inr [below p (rss ! i)], c') \<and>
      snapshot_reading (Fs ! i) (parts ! i) c'" by simp
  from on_part_reads[where m = "snapshot_records (parts ! i) most [p]", OF assms(1,3) this] show ?thesis
    by (auto simp: part_records_def bindM_def)
qed

text \<open>Merging what the parts hold below a prefix, when the union of it is within the limit asked for.\<close>

lemma merged_records_holds:
  assumes "parts_reading Fs parts cs" "parts_hold C Fs parts rss" "prefix_ok p"
    and "\<forall>rs \<in> set rss. records_ok rs" "length (below p (union_records rss)) \<le> unat most"
  shows "\<exists>cs'. merged_records parts p most cs = (Inr (below p (union_records rss)), cs') \<and> parts_reading Fs parts cs'"
proof -
  let ?b = "\<lambda>k. union_records (map (below p) (take k rss))"
  have len: "length rss = length parts" by (rule parts_holdD(1)[OF assms(2)])
  have all: "?b (length rss) = below p (union_records rss)" using below_union[OF assms(4)] by simp
  have step: "?b (Suc k) = merge_first (?b k) (below p (rss ! k))" if "k < length rss" for k
    using that by (simp add: take_Suc_conv_app_nth union_records_def)
  have mono: "length (?b (Suc k)) \<le> length (below p (union_records rss))" if "k < length rss" for k
  proof -
    have "map (below p) rss = map (below p) (take (Suc k) rss) @ map (below p) (drop (Suc k) rss)"
      by (simp flip: map_append)
    then have "union_records (map (below p) rss) = foldl merge_first (?b (Suc k)) (map (below p) (drop (Suc k) rss))"
      unfolding union_records_def by simp
    then show ?thesis using length_foldl_merge_first(2) below_union[OF assms(4)] by simp
  qed
  have "\<exists>cs'. foldM (merge_part parts p most) (?b k) [k..<k + n] cs = (Inr (?b (k + n)), cs') \<and> parts_reading Fs parts cs'"
    if "k + n \<le> length rss" "parts_reading Fs parts cs" for k n cs
    using that
  proof (induction n arbitrary: k cs)
    case (Suc n)
    then have k: "k < length rss" "k < length parts" using len by auto
    let ?m = "below p (rss ! k)"
    have le: "length (?b (Suc k)) \<le> unat most" using mono[OF k(1)] assms(5) by simp
    have "length ?m \<le> length (?b (Suc k))" using step[OF k(1)] length_merge_first_ge by metis
    then have "length ?m \<le> leaf_max \<or> length ?m \<le> unat most" using le by simp
    from part_records_holds[OF Suc.prems(2) assms(2) k(2) assms(3) this]
    obtain cs1 where r: "part_records parts most k p cs = (Inr ?m, cs1)" "parts_reading Fs parts cs1" by blast
    have "merge_part parts p most (?b k) k cs = (Inr (?b (Suc k)), cs1)"
    proof (cases "?m = []")
      case True
      with r(1) step[OF k(1)] show ?thesis by (simp add: merge_part_def bindM_def)
    next
      case False
      have "\<not> most < of_nat (length (?b (Suc k)))"
        using le by (metis le_unat_uoi not_less word_le_nat_alt)
      with False r(1) step[OF k(1)] show ?thesis by (simp add: merge_part_def bindM_def Let_def)
    qed
    moreover have "[k..<k + Suc n] = k # [Suc k..<Suc k + n]" by (simp add: upt_rec)
    ultimately show ?case using Suc.IH[of "Suc k" cs1] Suc.prems(1) r(2) by (simp add: bindM_def)
  qed simp
  from this[of 0 "length rss" cs] assms(1) all len show ?thesis
    by (simp add: merged_records_def union_records_def)
qed

section \<open>What a worked-out node stands for\<close>

lemma scan_zeros: "\<forall>x \<in> set xs. sm_count (snd x) = 0 \<Longrightarrow> foldl (scan_input inputs) acc xs = acc"
  by (induction xs) (auto simp: scan_input_def split: prod.split)

lemma scan_rest:
  "foldl (scan_input inputs) (Some f, alike, most) xs =
     (Some f, alike \<and> (\<forall>x \<in> set xs. sm_count (snd x) \<noteq> 0 \<longrightarrow> snd x = inputs ! f),
      most + sum_list (map (\<lambda>x. sm_count (snd x)) xs))"
proof (induction xs arbitrary: alike most)
  case (Cons x xs)
  then show ?case by (cases "sm_count (snd x) = 0") (auto simp: scan_input_def add.assoc)
qed simp

lemma ball_enumerate: "(\<forall>x \<in> set (enumerate n xs). P (snd x)) \<longleftrightarrow> (\<forall>x \<in> set xs. P x)"
  by (induction xs arbitrary: n) auto

lemma map_enumerate_snd: "map (\<lambda>x. f (snd x)) (enumerate n xs) = map f xs"
  by (induction xs arbitrary: n) auto

lemma scan_inputs_none: "\<forall>s \<in> set inputs. sm_count s = 0 \<Longrightarrow> scan_inputs inputs = (None, True, 0)"
  unfolding scan_inputs_def by (rule scan_zeros) (simp add: ball_enumerate[where P = "\<lambda>s. sm_count s = 0"])

lemma scan_inputs_some:
  assumes "\<exists>s \<in> set inputs. sm_count s \<noteq> 0"
  obtains f alike where "f < length inputs" "sm_count (inputs ! f) \<noteq> 0"
    "scan_inputs inputs = (Some f, alike, sum_list (map sm_count inputs))"
    "alike \<longleftrightarrow> (\<forall>s \<in> set inputs. sm_count s \<noteq> 0 \<longrightarrow> s = inputs ! f)"
proof -
  from assms have "\<exists>s \<in> set inputs. (\<lambda>s. sm_count s \<noteq> 0) s" by simp
  from split_list_first_prop[OF this] obtain zs s ys where
    i: "inputs = zs @ s # ys" "sm_count s \<noteq> 0" "\<forall>z \<in> set zs. sm_count z = 0" by blast
  let ?f = "length zs"
  have e: "enumerate 0 inputs = enumerate 0 zs @ (?f, s) # enumerate (Suc ?f) ys" unfolding i by (simp add: enumerate_append_eq)
  have z: "foldl (scan_input inputs) (None, True, 0) (enumerate 0 zs) = (None, True, 0)"
    by (rule scan_zeros) (use i(3) in \<open>simp add: ball_enumerate[where P = "\<lambda>s. sm_count s = 0"]\<close>)
  have "sum_list (map sm_count zs) = 0" using i(3) by (simp add: sum_list_0 cong: map_cong)
  then have sc: "scan_inputs inputs = (Some ?f, \<forall>s' \<in> set ys. sm_count s' \<noteq> 0 \<longrightarrow> s' = inputs ! ?f, sum_list (map sm_count inputs))"
    unfolding scan_inputs_def e foldl_append foldl_Cons z
    using i(2) ball_enumerate[of "Suc ?f" ys "\<lambda>s'. sm_count s' \<noteq> 0 \<longrightarrow> s' = inputs ! ?f"]
    by (simp add: scan_input_def scan_rest map_enumerate_snd i(1))
  have "(\<forall>s' \<in> set ys. sm_count s' \<noteq> 0 \<longrightarrow> s' = inputs ! ?f) \<longleftrightarrow>
      (\<forall>s' \<in> set inputs. sm_count s' \<noteq> 0 \<longrightarrow> s' = inputs ! ?f)" using i by auto
  with sc that[of ?f] i(1,2) show ?thesis by simp
qed

text \<open>
  \<open>union_holds C d n rss\<close>: at depth \<open>d\<close>, where the parts have the records \<open>rss\<close>, the node \<open>n\<close> stands for
  their union. A whole node's part has all of it; a leaf's is few enough; below an interior node
  each byte has its own.
\<close>

inductive union_holds :: "crypto \<Rightarrow> nat \<Rightarrow> UnionNode option \<Rightarrow> Record list list \<Rightarrow> bool" for C where
  holds_none: "\<forall>rs \<in> set rss. rs = [] \<Longrightarrow> union_holds C d None rss"
| holds_whole: "i < length rss \<Longrightarrow> rss ! i = union_records rss \<Longrightarrow>
    union_holds C d (Some (UnionNode (map (trie_summary C d) rss) (trie_summary C d (union_records rss)) (Some i) [])) rss"
| holds_leaf: "length (union_records rss) \<le> leaf_max \<Longrightarrow>
    union_holds C d (Some (UnionNode (map (trie_summary C d) rss) (trie_summary C d (union_records rss)) None [])) rss"
| holds_interior: "length nodes = fanout \<Longrightarrow> leaf_max < length (union_records rss) \<Longrightarrow>
    (\<And>k. k < fanout \<Longrightarrow> union_holds C (d + 1) (nodes ! k) (map (slot d k) rss)) \<Longrightarrow>
    union_holds C d (Some (UnionNode (map (trie_summary C d) rss) (trie_summary C d (union_records rss)) None nodes)) rss"

inductive_cases union_holds_SomeE: "union_holds C d (Some n) rss"

lemma union_holds_summary: "union_holds C d n rss \<Longrightarrow> node_summary n = trie_summary C d (union_records rss)"
  by (cases rule: union_holds.cases) (auto simp: node_summary_def Summary_0_trie union_records_Nil[THEN iffD2])

lemma union_holds_inputs: "union_holds C d (Some n) rss \<Longrightarrow> un_inputs n = map (trie_summary C d) rss"
  by (erule union_holds_SomeE) simp_all

lemma union_holds_below:
  "union_holds C d (Some n) rss \<Longrightarrow> length (un_below n) = fanout \<Longrightarrow> k < fanout \<Longrightarrow>
   union_holds C (d + 1) (un_below n ! k) (map (slot d k) rss)"
  by (erule union_holds_SomeE) (auto simp: fanout_def)

section \<open>Working out a union\<close>

definition union_ready :: "crypto \<Rightarrow> node_files list \<Rightarrow> Snapshot list \<Rightarrow> Record list list \<Rightarrow> Record list list \<Rightarrow> bool" where
  "union_ready C Fs parts rss hinted \<longleftrightarrow>
     parts_hold C Fs parts rss \<and> union_fits rss \<and> apart C (set rss \<union> set hinted)"

lemma union_readyD:
  assumes "union_ready C Fs parts rss hinted"
  shows "parts_hold C Fs parts rss" "\<forall>rs \<in> set rss. ledger_ok rs" "\<forall>rs \<in> set rss. records_ok rs"
    "ledger_ok (union_records rss)" "sum_list (map length rss) < 2 ^ 64" "length rss \<le> leaf_max"
    "apart C (set rss \<union> set hinted)" "length rss = length parts" "crypto_ok C" "\<forall>rs \<in> set hinted. ledger_ok rs"
  using assms segment_okD(1) by (auto simp: union_ready_def union_fits_def apart_def parts_hold_def)

lemma count_above_leaf_max:
  "n < 2 ^ 64 \<Longrightarrow> (of_nat leaf_max :: u64) < of_nat n \<longleftrightarrow> leaf_max < n"
  using count_le_leaf_max[of "replicate n ()"] by (simp add: not_le[symmetric])

lemma uint64_max_ge: "leaf_max \<le> unat uint64_max"
  by (simp add: uint64_max_def leaf_max_def unsigned_minus_1_eq_mask mask_eq_exp_minus_1)

lemma whole_id_once:
  assumes "segment_ok d rs" "32 \<le> d"
  shows "length rs \<le> 1"
proof (rule ccontr)
  assume "\<not> length rs \<le> 1"
  then obtain r r' rest where rs: "rs = r # r' # rest" by (cases rs rule: remdups_adj.cases) auto
  have "length (fst r) = 32" "length (fst r') = 32"
    using records_ok_id[OF segment_okD(1)[OF assms(1)]] rs by auto
  moreover have "take d (fst r) = take d (fst r')" using segment_okD(4)[OF assms(1)] rs by simp
  ultimately have "fst r = fst r'" using assms(2) by simp
  then show False using segment_okD(1)[OF assms(1)] rs by (simp add: records_ok_Cons)
qed

lemma sum_lengths_below: "sum_list (map length (map (below p) rss)) \<le> sum_list (map length rss)"
proof (induction rss)
  case (Cons rs rss)
  have "length (below p rs) \<le> length rs" by (simp add: below_def)
  with Cons show ?case by simp
qed simp

lemma parts_depth:
  assumes "\<forall>rs \<in> set rss. ledger_ok rs" "prefix_ok p" "length rss \<le> leaf_max"
    "leaf_max < sum_list (map length (map (below p) rss))"
  shows "px_length p < 32"
proof (rule ccontr)
  assume n: "\<not> px_length p < 32"
  have "length (below p rs) \<le> 1" if "rs \<in> set rss" for rs
    using that assms(1,2) n by (intro whole_id_once[OF below_segment]) (simp_all add: prefix_ok_def)
  then have "sum_list (map length (map (below p) rss)) \<le> length rss"
  proof (induction rss)
    case (Cons a rss)
    then have "length (below p a) \<le> 1" "sum_list (map length (map (below p) rss)) \<le> length rss" by simp_all
    then show ?case by simp
  qed simp
  with assms(3,4) show False by simp
qed

lemma union_below_segment:
  assumes "union_ready C Fs parts rss hinted" "prefix_ok p"
  shows "segment_ok (px_length p) (union_records (map (below p) rss))"
  using below_segment[OF union_readyD(4)[OF assms(1)], of p] assms(2)
  by (simp add: below_union[OF union_readyD(3)[OF assms(1)]] prefix_ok_def)

lemma merge_leaf_holds:
  assumes "parts_reading Fs parts cs" "union_ready C Fs parts rss hinted" "prefix_ok p"
    "length (union_records (map (below p) rss)) \<le> leaf_max"
  shows "\<exists>n cs'. merge_leaf C parts p (map (trie_summary C (px_length p)) (map (below p) rss)) cs = (Inr n, cs') \<and>
    parts_reading Fs parts cs' \<and> union_holds C (px_length p) n (map (below p) rss)"
proof -
  note r = union_readyD[OF assms(2)]
  let ?u = "union_records (map (below p) rss)"
  have u: "below p (union_records rss) = ?u" by (rule below_union[OF r(3)])
  have seg: "segment_ok (px_length p) ?u" by (rule union_below_segment[OF assms(2,3)])
  have "length (below p (union_records rss)) \<le> unat uint64_max"
    using assms(4) uint64_max_ge unfolding u by simp
  from merged_records_holds[OF assms(1) r(1) assms(3) r(3) this] obtain cs1 where
    m: "merged_records parts p uint64_max cs = (Inr ?u, cs1)" "parts_reading Fs parts cs1" unfolding u by blast
  have "leaf_summary C ?u = Inr (trie_summary C (px_length p) ?u)"
    using segment_okD(1)[OF seg] assms(4)
    by (simp add: leaf_summary_def leaf_hash_ok records_ok_def trie_summary_def trie_digest_leaf)
  with m holds_leaf[OF assms(4)] show ?thesis by (simp add: merge_leaf_def bindM_def)
qed

lemma below_parts_holds:
  assumes "parts_reading Fs parts cs" "union_ready C Fs parts rss hinted" "prefix_ok p" "px_length p < 32"
  shows "\<exists>cs'. mapM (below_part parts p (map (trie_summary C (px_length p)) (map (below p) rss))) [0..<length parts] cs =
      (Inr (map (\<lambda>i. slot_summaries C (px_length p) (below p (rss ! i))) [0..<length parts]), cs') \<and> parts_reading Fs parts cs'"
proof (rule mapM_reads[where good = "parts_reading Fs parts", OF assms(1)])
  note r = union_readyD[OF assms(2)]
  let ?d = "px_length p"
  fix i cs assume "i \<in> set [0..<length parts]" and cs: "parts_reading Fs parts cs"
  then have i: "i < length parts" "i < length rss" using r(8) by simp_all
  have "segment_ok ?d (below p (rss ! i))"
    using below_segment[of "rss ! i" p] r(2) i assms(3) by (simp add: prefix_ok_def)
  then have z: "sm_count (trie_summary C ?d (below p (rss ! i))) = 0 \<longleftrightarrow> below p (rss ! i) = []"
    using of_nat_length_eq_0[OF segment_okD(3)] by (simp add: trie_summary_def)
  show "\<exists>cs'. below_part parts p (map (trie_summary C ?d) (map (below p) rss)) i cs =
      (Inr (slot_summaries C ?d (below p (rss ! i))), cs') \<and> parts_reading Fs parts cs'"
  proof (cases "below p (rss ! i) = []")
    case True
    then have "slot_summaries C ?d (below p (rss ! i)) = replicate fanout Summary_0"
      by (simp add: slot_summaries_def slot_def Summary_0_trie map_replicate_const)
    with True z i cs show ?thesis by (simp add: below_part_def)
  next
    case False
    with z i part_children_holds[OF cs r(1) i(1) assms(3,4)] show ?thesis by (simp add: below_part_def)
  qed
qed

lemma slot_counts:
  assumes "segment_ok d rs" "d < 32"
  shows "foldl (\<lambda>count s. count + sm_count s) 0 (slot_summaries C d rs) = of_nat (length rs)"
proof -
  have f: "foldl (\<lambda>count s. count + sm_count s) a xs = a + sum_list (map sm_count xs)" for a :: u64 and xs
    by (induction xs arbitrary: a) (simp_all add: add.assoc)
  have s: "sum_list (map (\<lambda>i. of_nat (length (slot d i rs)) :: u64) is) = of_nat (sum_list (map (\<lambda>i. length (slot d i rs)) is))" for "is"
    by (induction "is") simp_all
  have "sum_list (map (\<lambda>i. length (slot d i rs)) [0..<fanout]) = length (concat (map (\<lambda>i. slot d i rs) [0..<fanout]))"
    by (simp add: length_concat comp_def)
  then show ?thesis unfolding f slot_summaries_def using concat_slots[OF assms] by (simp add: trie_summary_def comp_def s)
qed

lemma interior_summary_slots:
  assumes "segment_ok d rs" "leaf_max < length rs"
  shows "interior_summary C (slot_summaries C d rs) = trie_summary C d rs"
proof -
  have d: "d < 32" using segment_interior_depth[OF assms] by simp
  have "foldl (\<lambda>out child. out\<lparr>sm_count := sm_count out + sm_count child\<rparr>) \<lparr>sm_count = n, sm_hash = h\<rparr> xs =
      \<lparr>sm_count = foldl (\<lambda>count s. count + sm_count s) n xs, sm_hash = h\<rparr>" for n h and xs :: "Summary list"
    by (induction xs arbitrary: n) simp_all
  then show ?thesis
    using slot_counts[OF assms(1) d, of C] trie_digest_interior[OF assms(2) d, of C]
    by (simp add: interior_summary_def trie_summary_def)
qed

text \<open>What is below one more byte of the prefix.\<close>

lemma map_below_child:
  assumes "\<forall>rs \<in> set rss. records_ok rs" "prefix_ok p" "px_length p < 32" "k < fanout"
  shows "map (below (prefix_child p (of_nat k))) rss = map (slot (px_length p) k) (map (below p) rss)"
proof -
  have "unat (of_nat k :: u8) = k" using assms(4) by (simp add: unat_of_nat take_bit_nat_eq_self fanout_def)
  then show ?thesis using below_child[OF assms(2,3)] assms(1) by simp
qed

lemma hint_reused:
  assumes "apart C (set rss \<union> set hinted)" "prefix_ok p" "union_holds C (px_length p) (Some h) (map (below p) hinted)"
    "un_inputs h = map (trie_summary C (px_length p)) (map (below p) rss)"
  shows "union_holds C (px_length p) (Some h) (map (below p) rss)"
proof -
  have e: "map (trie_summary C (px_length p)) (map (below p) hinted) = map (trie_summary C (px_length p)) (map (below p) rss)"
    using union_holds_inputs[OF assms(3)] assms(4) by simp
  have len: "length hinted = length rss" using arg_cong[OF e, of length] by simp
  have "map (below p) hinted = map (below p) rss"
  proof (rule nth_equalityI)
    fix i assume "i < length (map (below p) hinted)"
    then have i: "i < length hinted" "i < length rss" using len by simp_all
    have "trie_summary C (px_length p) (below p (hinted ! i)) = trie_summary C (px_length p) (below p (rss ! i))"
      using arg_cong[OF e, of "\<lambda>xs. xs ! i"] i by simp
    from apart_sound[OF assms(1) _ _ assms(2) this] i show "map (below p) hinted ! i = map (below p) rss ! i" by simp
  qed (simp add: len)
  with assms(3) show ?thesis by simp
qed

lemma whole_holds:
  assumes "apart C (set rss \<union> set hinted)" "prefix_ok p" "f < length rss" "below p (rss ! f) \<noteq> []"
    "\<forall>rs \<in> set rss. below p rs \<noteq> [] \<longrightarrow> trie_summary C (px_length p) (below p rs) = trie_summary C (px_length p) (below p (rss ! f))"
  shows "union_holds C (px_length p) (Some (UnionNode (map (trie_summary C (px_length p)) (map (below p) rss))
      (trie_summary C (px_length p) (below p (rss ! f))) (Some f) [])) (map (below p) rss)"
proof -
  have "below p rs = [] \<or> below p rs = below p (rss ! f)" if "rs \<in> set rss" for rs
    using apart_sound[OF assms(1) _ _ assms(2), of rs "rss ! f"] assms(3,5) that by auto
  then have "union_records (map (below p) rss) = below p (rss ! f)"
    using assms(3) by (intro union_alike) auto
  with holds_whole[of f "map (below p) rss" C "px_length p"] assms(3) show ?thesis by simp
qed

text \<open>The subtrees one byte down are worked out and put together.\<close>

lemma merge_interior_holds:
  assumes "parts_reading Fs parts cs" "union_ready C Fs parts rss hinted" "prefix_ok p" "px_length p < 32"
    "list_all2 (\<lambda>k n. union_holds C (px_length p + 1) n (map (slot (px_length p) k) (map (below p) rss))) [0..<fanout] nodes"
  shows "\<exists>n cs'. (if foldl (\<lambda>count s. count + sm_count s) 0 (map node_summary nodes) > of_nat leaf_max
      then retM (Some (UnionNode (map (trie_summary C (px_length p)) (map (below p) rss))
        (interior_summary C (map node_summary nodes)) None nodes))
      else merge_leaf C parts p (map (trie_summary C (px_length p)) (map (below p) rss))) cs = (Inr n, cs') \<and>
    parts_reading Fs parts cs' \<and> union_holds C (px_length p) n (map (below p) rss)"
proof -
  note r = union_readyD[OF assms(2)]
  let ?d = "px_length p" and ?rss = "map (below p) rss"
  let ?u = "union_records ?rss"
  have seg: "segment_ok ?d ?u" by (rule union_below_segment[OF assms(2,3)])
  have ok: "\<forall>rs \<in> set ?rss. records_ok rs" using r(3) by (auto simp: below_def records_ok_filter)
  have len: "length nodes = fanout" using list_all2_lengthD[OF assms(5)] by simp
  have node: "union_holds C (?d + 1) (nodes ! k) (map (slot ?d k) ?rss)" if "k < fanout" for k
    using list_all2_nthD[OF assms(5), of k] that by simp
  have slots: "map node_summary nodes = slot_summaries C ?d ?u"
  proof (rule nth_equalityI)
    fix k assume "k < length (map node_summary nodes)"
    then have k: "k < fanout" using len by simp
    then show "map node_summary nodes ! k = slot_summaries C ?d ?u ! k"
      using union_holds_summary[OF node[OF k]] len by (simp add: slot_summaries_def slot_union[OF ok])
  qed (simp add: len slot_summaries_def)
  have few: "length ?u < 2 ^ 64" by (rule segment_okD(3)[OF seg])
  show ?thesis
  proof (cases "leaf_max < length ?u")
    case True
    have "union_holds C ?d (Some (UnionNode (map (trie_summary C ?d) ?rss) (trie_summary C ?d ?u) None nodes)) ?rss"
      by (rule holds_interior[OF len True node])
    with True assms(1) show ?thesis
      unfolding slots slot_counts[OF seg assms(4)] count_above_leaf_max[OF few] interior_summary_slots[OF seg True] by simp
  next
    case False
    with merge_leaf_holds[OF assms(1-3)] show ?thesis
      unfolding slots slot_counts[OF seg assms(4)] count_above_leaf_max[OF few] by simp
  qed
qed

text \<open>One round of the recursion: the subtrees below each byte, each merged as the whole is.\<close>

lemma merge_slots_holds:
  assumes "parts_reading Fs parts cs" "union_ready C Fs parts rss hinted" "prefix_ok p" "px_length p < 32"
    "hint = None \<or> union_holds C (px_length p) hint (map (below p) hinted)"
    and merge: "\<And>q cs hint. parts_reading Fs parts cs \<Longrightarrow> prefix_ok q \<Longrightarrow> px_length q = px_length p + 1 \<Longrightarrow>
      hint = None \<or> union_holds C (px_length q) hint (map (below q) hinted) \<Longrightarrow>
      \<exists>n cs'. merge q (map (trie_summary C (px_length q)) (map (below q) rss)) hint cs = (Inr n, cs') \<and>
        parts_reading Fs parts cs' \<and> union_holds C (px_length q) n (map (below q) rss)"
  defines "b \<equiv> map (\<lambda>i. slot_summaries C (px_length p) (below p (rss ! i))) [0..<length parts]"
  shows "\<exists>nodes cs'. mapM (\<lambda>k. merge (prefix_child p (of_nat k)) (map (\<lambda>i. b ! i ! k) [0..<length parts])
      (hint_below hint k)) [0..<fanout] cs = (Inr nodes, cs') \<and> parts_reading Fs parts cs' \<and>
    list_all2 (\<lambda>k n. union_holds C (px_length p + 1) n (map (slot (px_length p) k) (map (below p) rss))) [0..<fanout] nodes"
proof (rule mapM_holds[where good = "parts_reading Fs parts", OF assms(1)])
  note r = union_readyD[OF assms(2)]
  let ?d = "px_length p"
  fix k cs assume "k \<in> set [0..<fanout]" and cs: "parts_reading Fs parts cs"
  then have k: "k < fanout" by simp
  let ?p = "prefix_child p (of_nat k)"
  have q: "prefix_ok ?p" "px_length ?p = ?d + 1" using prefix_child_ok[OF assms(3,4)] by simp_all
  have bel: "map (below ?p) rss = map (slot ?d k) (map (below p) rss)" by (rule map_below_child[OF r(3) assms(3,4) k])
  have "\<forall>rs \<in> set hinted. records_ok rs" using r(10) segment_okD(1) by blast
  then have belh: "map (below ?p) hinted = map (slot ?d k) (map (below p) hinted)"
    by (rule map_below_child[OF _ assms(3,4) k])
  have "map (\<lambda>i. b ! i ! k) [0..<length parts] = map (trie_summary C (px_length ?p)) (map (below ?p) rss)"
    unfolding bel q(2) b_def using k r(8) by (intro nth_equalityI) (simp_all add: slot_summaries_def)
  moreover have "hint_below hint k = None \<or> union_holds C (px_length ?p) (hint_below hint k) (map (below ?p) hinted)"
    unfolding belh q(2) using assms(5) union_holds_below[of C ?d _ "map (below p) hinted" k] k
    by (auto simp: hint_below_def simp del: map_map split: option.split)
  ultimately show "\<exists>n cs'. merge ?p (map (\<lambda>i. b ! i ! k) [0..<length parts]) (hint_below hint k) cs = (Inr n, cs') \<and>
      parts_reading Fs parts cs' \<and> union_holds C (?d + 1) n (map (slot ?d k) (map (below p) rss))"
    using merge[OF cs q, of "hint_below hint k"] unfolding bel q(2) by simp
qed

lemma union_merge_holds:
  assumes "parts_reading Fs parts cs" "union_ready C Fs parts rss hinted" "prefix_ok p" "33 \<le> fuel + px_length p"
    "hint = None \<or> union_holds C (px_length p) hint (map (below p) hinted)"
  shows "\<exists>n cs'. union_merge fuel C parts p (map (trie_summary C (px_length p)) (map (below p) rss)) hint cs = (Inr n, cs') \<and>
    parts_reading Fs parts cs' \<and> union_holds C (px_length p) n (map (below p) rss)"
  using assms(1,3-5)
proof (induction fuel arbitrary: cs p hint)
  case 0
  then show ?case by (simp add: prefix_ok_def)
next
  case (Suc fuel)
  note r = union_readyD[OF assms(2)]
  let ?d = "px_length p" and ?rss = "map (below p) rss"
  let ?in = "map (trie_summary C ?d) ?rss"
  let ?same = "case hint of None \<Rightarrow> False | Some h \<Rightarrow> un_inputs h = ?in"
  have count: "sm_count (trie_summary C ?d (below p rs)) = 0 \<longleftrightarrow> below p rs = []" if "rs \<in> set rss" for rs
    using that r(2) Suc.prems(2) of_nat_length_eq_0[OF segment_okD(3)[OF below_segment]]
    by (simp add: trie_summary_def prefix_ok_def)
  have total: "sum_list (map sm_count ?in) = of_nat (sum_list (map length ?rss))"
    by (induction rss) (simp_all add: trie_summary_def)
  have few: "sum_list (map length ?rss) < 2 ^ 64" using sum_lengths_below[of p rss] r(5) by simp
  consider ?same | "\<not> ?same" "\<forall>rs \<in> set rss. below p rs = []" | "\<not> ?same" "\<exists>rs \<in> set rss. below p rs \<noteq> []" by blast
  then show ?case
  proof cases
    case 1
    with hint_reused[OF r(7) Suc.prems(2)] Suc.prems(1,4) show ?thesis by (cases hint) auto
  next
    case 2
    then have "scan_inputs ?in = (None, True, 0)" using count by (intro scan_inputs_none) auto
    with 2 Suc.prems(1) holds_none[of ?rss C ?d] show ?thesis by (simp del: map_map)
  next
    case 3
    then obtain f alike where f: "f < length ?in" "sm_count (?in ! f) \<noteq> 0"
      "scan_inputs ?in = (Some f, alike, sum_list (map sm_count ?in))"
      and alike: "alike \<longleftrightarrow> (\<forall>s \<in> set ?in. sm_count s \<noteq> 0 \<longrightarrow> s = ?in ! f)"
    proof -
      have "\<exists>s \<in> set ?in. sm_count s \<noteq> 0" using 3(2) count by auto
      then show ?thesis using scan_inputs_some that by blast
    qed
    consider alike | "\<not> alike" "leaf_max < sum_list (map length ?rss)"
      | "\<not> alike" "\<not> leaf_max < sum_list (map length ?rss)" by blast
    then show ?thesis
    proof cases
      case 1
      have f': "f < length rss" "?in ! f = trie_summary C ?d (below p (rss ! f))" "below p (rss ! f) \<noteq> []"
        using f(1,2) count[of "rss ! f"] by simp_all
      have same: "\<forall>rs \<in> set rss. below p rs \<noteq> [] \<longrightarrow> trie_summary C ?d (below p rs) = trie_summary C ?d (below p (rss ! f))"
      proof (intro ballI impI)
        fix rs assume rs: "rs \<in> set rss" "below p rs \<noteq> []"
        then have "trie_summary C ?d (below p rs) \<in> set ?in" "sm_count (trie_summary C ?d (below p rs)) \<noteq> 0"
          using count by simp_all
        with alike 1 have "trie_summary C ?d (below p rs) = ?in ! f" by blast
        then show "trie_summary C ?d (below p rs) = trie_summary C ?d (below p (rss ! f))" using f(1) by simp
      qed
      have "union_holds C ?d (Some (UnionNode ?in (?in ! f) (Some f) [])) ?rss"
        unfolding f'(2) by (rule whole_holds[OF r(7) Suc.prems(2) f'(1,3) same])
      with 1 f(3) 3(1) Suc.prems(1) show ?thesis by (simp del: map_map)
    next
      case big: 2
      have d: "?d < 32" by (rule parts_depth[OF r(2) Suc.prems(2) r(6) big(2)])
      let ?b = "map (\<lambda>i. slot_summaries C ?d (below p (rss ! i))) [0..<length parts]"
      obtain cs1 where b: "mapM (below_part parts p ?in) [0..<length parts] cs = (Inr ?b, cs1)" "parts_reading Fs parts cs1"
        using below_parts_holds[OF Suc.prems(1) assms(2) Suc.prems(2) d] by blast
      obtain nodes cs2 where n: "mapM (\<lambda>k. union_merge fuel C parts (prefix_child p (of_nat k))
          (map (\<lambda>i. ?b ! i ! k) [0..<length parts]) (hint_below hint k)) [0..<fanout] cs1 = (Inr nodes, cs2)"
        "parts_reading Fs parts cs2" "list_all2 (\<lambda>k n. union_holds C (?d + 1) n (map (slot ?d k) ?rss)) [0..<fanout] nodes"
        using merge_slots_holds[where merge = "union_merge fuel C parts", OF b(2) assms(2) Suc.prems(2) d Suc.prems(4) Suc.IH]
          Suc.prems(3) by auto
      have "union_merge (Suc fuel) C parts p ?in hint cs = (if foldl (\<lambda>count s. count + sm_count s) 0 (map node_summary nodes) > of_nat leaf_max
          then retM (Some (UnionNode ?in (interior_summary C (map node_summary nodes)) None nodes))
          else merge_leaf C parts p ?in) cs2"
        using 3(1) f(3) big b(1) n(1) total count_above_leaf_max[OF few] by (simp add: bindM_def Let_def del: map_map)
      with merge_interior_holds[OF n(2) assms(2) Suc.prems(2) d n(3)] show ?thesis by simp
    next
      case small: 3
      then have "length (union_records ?rss) \<le> leaf_max" using length_union_records[of ?rss] by simp
      from merge_leaf_holds[OF Suc.prems(1) assms(2) Suc.prems(2) this] 3(1) f(3) small total count_above_leaf_max[OF few]
      show ?thesis by (simp del: map_map)
    qed
  qed
qed

section \<open>Asking a union\<close>

definition union_stands :: "crypto \<Rightarrow> node_files list \<Rightarrow> TrieUnion \<Rightarrow> Record list list \<Rightarrow> bool" where
  "union_stands C Fs u rss \<longleftrightarrow>
     tu_crypto u = C \<and> parts_hold C Fs (tu_parts u) rss \<and> ledger_ok (union_records rss) \<and> (\<forall>rs \<in> set rss. records_ok rs) \<and>
     union_holds C 0 (tu_root u) rss"

definition follows :: "Prefix \<Rightarrow> nat \<Rightarrow> Record list \<Rightarrow> bool" where
  "follows q d rs \<longleftrightarrow> records_ok rs \<and> (\<forall>r \<in> set rs. take d (fst r) = take d (px_bytes q))"

lemma follows_slot:
  assumes "follows q d rs" "d < px_length q" "prefix_ok q"
  shows "follows q (d + 1) (slot d (unat (px_bytes q ! d)) rs)"
proof -
  have "take (d + 1) (fst r) = take (d + 1) (px_bytes q)" if "r \<in> set rs" "unat (fst r ! d) = unat (px_bytes q ! d)" for r
  proof -
    have "d < length (fst r)" "d < length (px_bytes q)"
      using records_ok_id[of rs r] assms that(1) by (auto simp: follows_def prefix_ok_def)
    moreover have "fst r ! d = px_bytes q ! d" using that(2) by (simp add: word_unat_eq_iff)
    ultimately show ?thesis using assms(1) that(1) by (simp add: follows_def take_Suc_conv_app_nth)
  qed
  then show ?thesis using assms(1) by (auto simp: follows_def slot_def records_ok_filter)
qed

text \<open>
  The node a prefix falls in has everything below the prefix; it is worked out further only where
  it stands exactly at the prefix.
\<close>

definition found_union :: "crypto \<Rightarrow> Prefix \<Rightarrow> Record list list \<Rightarrow> UnionNode option \<Rightarrow> bool" where
  "found_union C q rss node \<longleftrightarrow> (\<exists>d rss'. union_holds C d node rss' \<and> map (below q) rss' = map (below q) rss \<and>
     (\<forall>rs \<in> set rss'. follows q d rs) \<and> (\<forall>n. node = Some n \<longrightarrow> length (un_below n) = fanout \<longrightarrow> d = px_length q))"

lemma found_union_below: "map (below q) rss' = map (below q) rss \<Longrightarrow> found_union C q rss' n \<Longrightarrow> found_union C q rss n"
  unfolding found_union_def by (simp only:)

lemma found_unionI:
  "union_holds C d node rss \<Longrightarrow> \<forall>rs \<in> set rss. follows q d rs \<Longrightarrow>
   (\<And>n. node = Some n \<Longrightarrow> length (un_below n) = fanout \<Longrightarrow> d = px_length q) \<Longrightarrow> found_union C q rss node"
  unfolding found_union_def by blast

lemma find_node_holds:
  assumes "union_holds C d node rss" "prefix_ok q" "d \<le> px_length q" "\<forall>rs \<in> set rss. follows q d rs"
  shows "found_union C q rss (find_node node (drop d (take (px_length q) (px_bytes q))))"
  using assms
proof (induction "px_length q - d" arbitrary: d node rss)
  case 0
  then have "d = px_length q" by simp
  with "0.prems" found_unionI show ?case by simp
next
  case (Suc m)
  let ?b = "px_bytes q ! d"
  have d: "d < px_length q" using Suc.hyps(2) by simp
  have bs: "drop d (take (px_length q) (px_bytes q)) = ?b # drop (d + 1) (take (px_length q) (px_bytes q))"
    using d Suc.prems(2) by (subst Cons_nth_drop_Suc[symmetric]) (auto simp: prefix_ok_def)
  show ?case
  proof (cases "\<exists>n. node = Some n \<and> length (un_below n) = fanout")
    case True
    then obtain n where n: "node = Some n" "length (un_below n) = fanout" by blast
    have k: "unat ?b < fanout" using unsigned_less[of ?b] by (simp add: fanout_def)
    have "union_holds C (d + 1) (un_below n ! unat ?b) (map (slot d (unat ?b)) rss)"
      using union_holds_below Suc.prems(1) n k by blast
    moreover have "\<forall>rs \<in> set (map (slot d (unat ?b)) rss). follows q (d + 1) rs"
      using follows_slot[OF _ d Suc.prems(2)] Suc.prems(4) by auto
    ultimately have "found_union C q (map (slot d (unat ?b)) rss)
        (find_node (un_below n ! unat ?b) (drop (d + 1) (take (px_length q) (px_bytes q))))"
      using Suc.hyps d Suc.prems(2) by (intro Suc.hyps(1)) auto
    moreover have "map (below q) (map (slot d (unat ?b)) rss) = map (below q) rss"
      using below_slot[OF Suc.prems(2) _ d] Suc.prems(4) by (simp add: follows_def)
    ultimately have "found_union C q rss (find_node (un_below n ! unat ?b) (drop (d + 1) (take (px_length q) (px_bytes q))))"
      by (rule found_union_below[rotated])
    then show ?thesis unfolding bs n(1) using n(2) by simp
  next
    case False
    then have "find_node node (?b # drop (d + 1) (take (px_length q) (px_bytes q))) = node"
      by (auto split: option.split)
    moreover have "found_union C q rss node" by (rule found_unionI[OF Suc.prems(1,4)]) (use False in blast)
    ultimately show ?thesis unfolding bs by simp
  qed
qed

lemma prefix_node_found:
  assumes "union_stands C Fs u rss" "prefix_ok q"
  shows "found_union C q rss (prefix_node u q)"
proof -
  have "\<forall>rs \<in> set rss. follows q 0 rs" using assms(1) by (simp add: union_stands_def follows_def)
  from find_node_holds[OF _ assms(2) _ this, of C "tu_root u"] assms(1) show ?thesis
    by (simp add: union_stands_def prefix_node_def)
qed

text \<open>The four shapes a prefix's node may have, and what each says of the records below the prefix.\<close>

lemma prefix_node_cases:
  assumes "union_stands C Fs u rss" "prefix_ok q"
  obtains (none) "prefix_node u q = None" "below q (union_records rss) = []"
    | (whole) n i where "prefix_node u q = Some n" "un_whole n = Some i" "i < length (tu_parts u)"
        "below q (rss ! i) = below q (union_records rss)"
    | (leaf) n where "prefix_node u q = Some n" "un_whole n = None" "un_below n = []"
        "length (below q (union_records rss)) \<le> leaf_max"
    | (interior) n where "prefix_node u q = Some n" "un_whole n = None" "length (un_below n) = fanout"
        "map node_summary (un_below n) = slot_summaries C (px_length q) (below q (union_records rss))"
        "sm_count (un_summary n) = of_nat (length (below q (union_records rss)))"
proof -
  obtain d rss' where f: "union_holds C d (prefix_node u q) rss'" "map (below q) rss' = map (below q) rss"
    "\<forall>rs \<in> set rss'. follows q d rs"
    "\<And>n. prefix_node u q = Some n \<Longrightarrow> length (un_below n) = fanout \<Longrightarrow> d = px_length q"
    using prefix_node_found[OF assms] unfolding found_union_def by blast
  have ok: "\<forall>rs \<in> set rss'. records_ok rs" using f(3) by (simp add: follows_def)
  have "\<forall>rs \<in> set rss. records_ok rs" using assms(1) by (simp add: union_stands_def)
  then have u: "below q (union_records rss') = below q (union_records rss)"
    using f(2) ok by (simp add: below_union)
  have len: "length rss' = length rss" "length rss = length (tu_parts u)"
    using arg_cong[OF f(2), of length] assms(1) by (simp_all add: union_stands_def parts_hold_def)
  have le: "length (below q (union_records rss)) \<le> length (union_records rss')"
    unfolding u[symmetric] by (simp add: below_def)
  show ?thesis
    using f(1)
  proof (cases rule: union_holds.cases)
    case holds_none
    then have "union_records rss' = []" by (simp only: union_records_Nil)
    then show ?thesis using none holds_none(1) le by simp
  next
    case (holds_whole i)
    have "below q (rss ! i) = map (below q) rss' ! i" unfolding f(2) using holds_whole(2) len by simp
    also have "\<dots> = below q (rss' ! i)" using holds_whole(2) by simp
    finally have "below q (rss ! i) = below q (union_records rss)" using holds_whole(3) u by simp
    then show ?thesis using holds_whole(2) len by (intro whole[OF holds_whole(1)]) simp_all
  next
    case holds_leaf
    have "length (below q (union_records rss)) \<le> leaf_max" using le holds_leaf(2) by (rule le_trans)
    then show ?thesis by (rule leaf[OF holds_leaf(1) UnionNode.sel(3) UnionNode.sel(4)])
  next
    case (holds_interior nodes)
    have d: "d = px_length q" by (rule f(4)[OF holds_interior(1)]) (use holds_interior(2) in simp)
    have bel: "below q rs = rs" if "rs \<in> set rss'" for rs
      using f(3) that unfolding d by (intro below_all) (simp add: follows_def)
    have "below q (union_records rss') = union_records (map (below q) rss')" by (rule below_union[OF ok])
    also have "map (below q) rss' = rss'" using bel by (simp add: map_idI)
    finally have all: "union_records rss' = below q (union_records rss)" using u by simp
    have "map node_summary nodes = slot_summaries C (px_length q) (union_records rss')"
    proof (rule nth_equalityI)
      fix k assume "k < length (map node_summary nodes)"
      then have k: "k < fanout" using holds_interior(2) by simp
      then show "map node_summary nodes ! k = slot_summaries C (px_length q) (union_records rss') ! k"
        using union_holds_summary[OF holds_interior(4)[OF k]] holds_interior(2)
        by (simp add: slot_summaries_def slot_union[OF ok] d)
    qed (simp add: holds_interior(2) slot_summaries_def)
    then show ?thesis using holds_interior(2) all by (intro interior[OF holds_interior(1)]) (simp_all add: trie_summary_def)
  qed
qed

lemma union_standsD:
  assumes "union_stands C Fs u rss"
  shows "tu_crypto u = C" "parts_hold C Fs (tu_parts u) rss" "ledger_ok (union_records rss)" "\<forall>rs \<in> set rss. records_ok rs"
    "union_holds C 0 (tu_root u) rss"
  using assms by (simp_all add: union_stands_def)

lemma union_children_one_holds:
  assumes "union_stands C Fs u rss" "parts_reading Fs (tu_parts u) cs" "prefix_ok p" "px_length p < 32"
  shows "\<exists>cs'. union_children_one u p cs = (Inr (slot_summaries C (px_length p) (below p (union_records rss))), cs') \<and>
    parts_reading Fs (tu_parts u) cs'"
proof -
  note st = union_standsD[OF assms(1)]
  show ?thesis
    using assms(1,3)
  proof (cases rule: prefix_node_cases)
    case none
    have "slot_summaries C (px_length p) [] = replicate fanout Summary_0"
      by (simp add: slot_summaries_def slot_def Summary_0_trie map_replicate_const)
    then show ?thesis using none assms(2,4) by (simp add: union_children_one_def)
  next
    case (whole n i)
    from part_children_holds[OF assms(2) st(2) whole(3) assms(3,4)] whole assms(4) show ?thesis
      by (simp add: union_children_one_def)
  next
    case (leaf n)
    have seg: "segment_ok (px_length p) (below p (union_records rss))"
      using below_segment[OF st(3), of p] assms(4) by simp
    have "length (below p (union_records rss)) \<le> unat uint64_max" using leaf(4) uint64_max_ge by simp
    from merged_records_holds[OF assms(2) st(2) assms(3) st(4) this] store_runs_ok[OF seg leaf(4) assms(4), of C]
    show ?thesis using leaf(1-3) assms(4) st(1)
      by (auto simp: union_children_one_def union_leaf_children_def bindM_def fanout_def)
  next
    case (interior n)
    then show ?thesis using assms(2,4) by (simp add: union_children_one_def)
  qed
qed

lemma union_records_one_holds:
  assumes "union_stands C Fs u rss" "parts_reading Fs (tu_parts u) cs" "prefix_ok p"
    "length (below p (union_records rss)) \<le> unat most"
  shows "\<exists>cs'. union_records_one u most p cs = (Inr (below p (union_records rss)), cs') \<and> parts_reading Fs (tu_parts u) cs'"
proof -
  note st = union_standsD[OF assms(1)]
  have merged: "\<exists>cs'. merged_records (tu_parts u) p most cs = (Inr (below p (union_records rss)), cs') \<and>
      parts_reading Fs (tu_parts u) cs'"
    by (rule merged_records_holds[OF assms(2) st(2) assms(3) st(4) assms(4)])
  show ?thesis
    using assms(1,3)
  proof (cases rule: prefix_node_cases)
    case none
    then show ?thesis using assms(2) by (simp add: union_records_one_def)
  next
    case (whole n i)
    have "length (below p (rss ! i)) \<le> leaf_max \<or> length (below p (rss ! i)) \<le> unat most" using whole(4) assms(4) by simp
    from part_records_holds[OF assms(2) st(2) whole(3) assms(3) this] whole show ?thesis
      by (simp add: union_records_one_def)
  next
    case (leaf n)
    with merged show ?thesis by (simp add: union_records_one_def fanout_def)
  next
    case (interior n)
    have "px_length p \<le> 32" using assms(3) by (simp add: prefix_ok_def)
    from interior(5) assms(4) segment_okD(3)[OF below_segment[OF st(3) this]]
    have "\<not> most < sm_count (un_summary n)" by (simp add: word_less_nat_alt unat_length_u64)
    with merged interior(1,2) show ?thesis by (simp add: union_records_one_def)
  qed
qed

lemma union_get_holds:
  assumes "parts_reading Fs (tu_parts u) cs" "parts_hold C Fs (tu_parts u) rss"
  shows "\<exists>cs'. union_get u i cs = (Inr (first_value (map map_of rss) i), cs') \<and> parts_reading Fs (tu_parts u) cs'"
proof -
  let ?n = "length (tu_parts u)"
  have "\<exists>cs'. union_get_from u i [k..<?n] cs = (Inr (first_value (map map_of (drop k rss)) i), cs') \<and>
      parts_reading Fs (tu_parts u) cs'" if "k \<le> ?n" "parts_reading Fs (tu_parts u) cs" for k cs
    using that
  proof (induction "?n - k" arbitrary: k cs)
    case 0
    then show ?case using parts_holdD(1)[OF assms(2)] by simp
  next
    case (Suc m)
    then have k: "k < ?n" by simp
    have "snapshot_reading (Fs ! k) (tu_parts u ! k) (cs ! k)" using Suc.prems(2) k by (simp add: parts_reading_def)
    from snapshot_get_holds[OF this parts_holdD(2)[OF assms(2) k], of i]
    have "\<exists>c'. snapshot_get (tu_parts u ! k) i (cs ! k) = (Inr (map_of (rss ! k) i), c') \<and>
        snapshot_reading (Fs ! k) (tu_parts u ! k) c'" .
    from on_part_reads[where m = "snapshot_get (tu_parts u ! k) i", OF Suc.prems(2) k this] obtain cs1 where
      1: "on_part k (snapshot_get (tu_parts u ! k) i) cs = (Inr (map_of (rss ! k) i), cs1)" "parts_reading Fs (tu_parts u) cs1"
      by blast
    have d: "drop k rss = rss ! k # drop (Suc k) rss" using k parts_holdD(1)[OF assms(2)] by (simp add: Cons_nth_drop_Suc)
    have u: "[k..<?n] = k # [Suc k..<?n]" using k by (simp add: upt_rec)
    have "m = ?n - Suc k" "Suc k \<le> ?n" using Suc.hyps(2) k by simp_all
    from Suc.hyps(1)[OF this 1(2)] 1 show ?case unfolding u d
      by (cases "map_of (rss ! k) i") (simp_all add: bindM_def)
  qed
  from this[of 0 cs] assms(1) show ?thesis by (simp add: union_get_def)
qed

lemma TrieUnion_new_stands:
  assumes "parts_reading Fs parts cs" "union_ready C Fs parts rss hinted"
    "\<And>h. hint = Some h \<Longrightarrow> union_holds C 0 (tu_root h) hinted"
  shows "\<exists>u cs'. TrieUnion_new C parts hint cs = (Inr u, cs') \<and> parts_reading Fs parts cs' \<and> tu_parts u = parts \<and>
    union_stands C Fs u rss"
proof -
  note r = union_readyD[OF assms(2)]
  let ?hint = "case hint of None \<Rightarrow> None | Some h \<Rightarrow> tu_root h"
  have top: "map (below Prefix_0) xs = xs" for xs by (simp add: prefix_0 map_idI)
  have "map snapshot_summary parts = map (trie_summary C 0) (map (below Prefix_0) rss)"
  proof (rule nth_equalityI)
    fix i assume "i < length (map snapshot_summary parts)"
    then have i: "i < length parts" "i < length rss" using r(8) by simp_all
    have "child_summary (sn_root (parts ! i)) = trie_summary C 0 (rss ! i)"
      using holds_summary(1) parts_holdD(2,3)[OF r(1) i(1)] unfolding snapshot_holds_def by metis
    then show "map snapshot_summary parts ! i = map (trie_summary C 0) (map (below Prefix_0) rss) ! i"
      using i by (simp add: snapshot_summary_def child_summary_def prefix_0)
  qed (simp add: r(8))
  moreover have "?hint = None \<or> union_holds C (px_length Prefix_0) ?hint (map (below Prefix_0) hinted)"
    using assms(3) by (cases hint) (simp_all add: prefix_0 top)
  ultimately obtain n cs' where n: "union_merge union_fuel C parts Prefix_0 (map snapshot_summary parts) ?hint cs = (Inr n, cs')"
    "parts_reading Fs parts cs'" "union_holds C 0 n rss"
    using union_merge_holds[OF assms(1,2) prefix_0(1), of union_fuel ?hint] by (auto simp: prefix_0 top union_fuel_def)
  then have "TrieUnion_new C parts hint cs = (Inr \<lparr>tu_crypto = C, tu_parts = parts, tu_root = n\<rparr>, cs')"
    unfolding TrieUnion_new_def by (simp add: bindM_def)
  moreover have "union_stands C Fs \<lparr>tu_crypto = C, tu_parts = parts, tu_root = n\<rparr> rss"
    using r(1,3,4) n(3) by (simp add: union_stands_def)
  ultimately show ?thesis using n(2) by auto
qed

text \<open>A union is a source for a comparison, as a snapshot is.\<close>

interpretation union_source: trie_source C
  "\<lambda>cs. union_stands C Fs u rss \<and> parts_reading Fs (tu_parts u) cs" "UnionSource u" "union_records rss" for C Fs u rss
proof
  fix cs ps assume good: "union_stands C Fs u rss \<and> parts_reading Fs (tu_parts u) cs"
  then have st: "union_stands C Fs u rss" by simp
  show "ledger_ok (union_records rss)" by (rule union_standsD(3)[OF st])
  show "\<exists>cs'. src_root (UnionSource u) cs = (Inr (trie_summary C 0 (union_records rss)), cs') \<and>
      union_stands C Fs u rss \<and> parts_reading Fs (tu_parts u) cs'"
    using good union_holds_summary[OF union_standsD(5)[OF st]] by (simp add: UnionSource_def union_root_def)
  show "\<exists>cs'. src_children (UnionSource u) ps cs =
      (Inr (map (\<lambda>p. slot_summaries C (px_length p) (below p (union_records rss))) ps), cs') \<and>
      union_stands C Fs u rss \<and> parts_reading Fs (tu_parts u) cs'" if ps: "\<forall>p \<in> set ps. prefix_ok p \<and> px_length p < 32"
    using mapM_reads[where good = "parts_reading Fs (tu_parts u)" and f = "union_children_one u" and xs = ps]
      union_children_one_holds[OF st] good ps by (simp add: UnionSource_def union_children_def)
  show "\<exists>cs'. src_records (UnionSource u) ps cs = (Inr (map (\<lambda>p. below p (union_records rss)) ps), cs') \<and>
      union_stands C Fs u rss \<and> parts_reading Fs (tu_parts u) cs'"
    if ps: "\<forall>p \<in> set ps. prefix_ok p \<and> length (below p (union_records rss)) \<le> leaf_max"
  proof -
    have "\<exists>cs'. mapM (union_records_one u uint64_max) ps cs = (Inr (map (\<lambda>p. below p (union_records rss)) ps), cs') \<and>
        parts_reading Fs (tu_parts u) cs'"
    proof (rule mapM_reads[where good = "parts_reading Fs (tu_parts u)"])
      fix p cs assume p: "p \<in> set ps" "parts_reading Fs (tu_parts u) cs"
      then have "length (below p (union_records rss)) \<le> unat uint64_max" using ps uint64_max_ge le_trans by blast
      then show "\<exists>cs'. union_records_one u uint64_max p cs = (Inr (below p (union_records rss)), cs') \<and>
          parts_reading Fs (tu_parts u) cs'" using union_records_one_holds[OF st p(2)] ps p(1) by blast
    qed (use good in simp)
    then show ?thesis using st by (simp add: UnionSource_def union_records_of_def)
  qed
qed

definition union_diff_ready :: "crypto \<Rightarrow> node_files list \<Rightarrow> TrieUnion \<Rightarrow> Record list list \<Rightarrow> node_files \<Rightarrow> Snapshot \<Rightarrow>
    Record list \<Rightarrow> caches \<times> Node NodeCache \<Rightarrow> bool" where
  "union_diff_ready C Fs u rss F s rs st \<longleftrightarrow>
     (union_stands C Fs u rss \<and> parts_reading Fs (tu_parts u) (fst st)) \<and>
     (sn_crypto s = C \<and> crypto_ok C \<and>
      inj_on (sha256 C) (ledger_inputs C (union_records rss) \<union> ledger_inputs C rs)) \<and>
     snapshot_reading F s (snd st) \<and> snapshot_holds F s rs"

interpretation union_diff: trie_diff C "union_diff_ready C Fs u rss F s rs"
  "left_source (UnionSource u)" "right_source (SnapshotSource s)" "union_records rss" rs "retM ()" for C Fs u rss F s rs
proof -
  let ?l = "\<lambda>cs. union_stands C Fs u rss \<and> parts_reading Fs (tu_parts u) cs"
  let ?r = "\<lambda>cache. snapshot_reading F s cache \<and> snapshot_holds F s rs"
  let ?c = "sn_crypto s = C \<and> crypto_ok C \<and> inj_on (sha256 C) (ledger_inputs C (union_records rss) \<union> ledger_inputs C rs)"
  have l: "trie_source C ?l (UnionSource u) (union_records rss)" by (rule union_source.trie_source_axioms)
  have r: "trie_source C (\<lambda>cache. ?c \<and> ?r cache) (SnapshotSource s) rs"
    by (rule trie_source_cond) (use snapshot_source.trie_source_axioms[of s F rs] in simp)
  have good: "union_diff_ready C Fs u rss F s rs = (\<lambda>st. ?l (fst st) \<and> ?c \<and> ?r (snd st))"
    by (auto simp: union_diff_ready_def fun_eq_iff)
  have left: "trie_source C (union_diff_ready C Fs u rss F s rs) (left_source (UnionSource u)) (union_records rss)"
    unfolding good by (rule trie_source_left[OF l])
  have right: "trie_source C (union_diff_ready C Fs u rss F s rs) (right_source (SnapshotSource s)) rs"
    unfolding good by (rule trie_source_right[OF r])
  show "trie_diff C (union_diff_ready C Fs u rss F s rs) (left_source (UnionSource u))
      (right_source (SnapshotSource s)) (union_records rss) rs (retM ())"
  proof (intro trie_diff.intro trie_diff_axioms.intro left right)
    fix st p assume g: "union_diff_ready C Fs u rss F s rs st"
    show "\<exists>st'. retM () st = (Inr (), st') \<and> union_diff_ready C Fs u rss F s rs st'" using g by simp
    assume "prefix_ok p" "trie_summary C (px_length p) (below p (union_records rss)) =
      trie_summary C (px_length p) (below p rs)"
    then show "below p (union_records rss) = below p rs"
      using g ledger_inputs_sound union_standsD(3) snapshot_holds_ledger unfolding union_diff_ready_def by blast
  qed
qed

section \<open>Properties\<close>

text \<open>
  C31: A union of tries is the trie over their records. Made from snapshots, with or without an earlier
  union as a hint, it has the count and hash one trie over the union of the records would have,
  where an id several parts hold has the value of the first of them; and it answers a lookup, the
  summaries below a prefix and the records below a prefix as that trie would. Making it ends and
  throws nothing when SHA-256 has no collision among the messages of its parts and of the hint's.
\<close>

theorem union_is_one_trie:
  assumes "parts_reading Fs parts cs" "union_ready C Fs parts rss hinted"
    "\<And>h. hint = Some h \<Longrightarrow> union_holds C 0 (tu_root h) hinted"
  shows "\<exists>u cs'. TrieUnion_new C parts hint cs = (Inr u, cs') \<and>
    union_root u = trie_summary C 0 (union_records rss) \<and>
    map_of (union_records rss) = first_value (map map_of rss) \<and>
    (\<forall>i. fst (union_get u i cs') = Inr (first_value (map map_of rss) i)) \<and>
    (\<forall>p. prefix_ok p \<and> px_length p < 32 \<longrightarrow>
      fst (union_children u [p] cs') = Inr [slot_summaries C (px_length p) (below p (union_records rss))]) \<and>
    (\<forall>p most. prefix_ok p \<and> length (below p (union_records rss)) \<le> unat most \<longrightarrow>
      fst (union_records_of u most [p] cs') = Inr [below p (union_records rss)])"
proof -
  obtain u cs' where u: "TrieUnion_new C parts hint cs = (Inr u, cs')" "parts_reading Fs parts cs'" "tu_parts u = parts"
    "union_stands C Fs u rss" using TrieUnion_new_stands[OF assms] by blast
  have r: "parts_reading Fs (tu_parts u) cs'" using u(2,3) by simp
  have "fst (union_get u i cs') = Inr (first_value (map map_of rss) i)" for i
    using union_get_holds[OF r union_standsD(2)[OF u(4)], of i] by auto
  moreover have "fst (union_children u [p] cs') = Inr [slot_summaries C (px_length p) (below p (union_records rss))]"
    if "prefix_ok p \<and> px_length p < 32" for p
    using union_children_one_holds[OF u(4) r, of p] that by (auto simp: union_children_def bindM_def)
  moreover have "fst (union_records_of u most [p] cs') = Inr [below p (union_records rss)]"
    if "prefix_ok p \<and> length (below p (union_records rss)) \<le> unat most" for p most
    using union_records_one_holds[OF u(4) r, of p most] that by (auto simp: union_records_of_def bindM_def)
  moreover have "union_root u = trie_summary C 0 (union_records rss)"
    using union_holds_summary[OF union_standsD(5)[OF u(4)]] by (simp add: union_root_def)
  ultimately show ?thesis using u(1) union_records_ok(2)[OF union_standsD(4)[OF u(4)]] by blast
qed

definition two_parts :: "Snapshot list" where
  "two_parts = [trie_snapshot sample_trie, trie_snapshot empty_trie]"

lemma two_parts_ready:
  "parts_reading [sample_files, sample_files] two_parts [ot_cache sample_trie, ot_cache empty_trie]"
  "union_ready plain_crypto [sample_files, sample_files] two_parts [one_record, []] []"
proof -
  have c: "sn_crypto (trie_snapshot sample_trie) = plain_crypto" "sn_crypto (trie_snapshot empty_trie) = plain_crypto"
    by (simp_all add: trie_snapshot_def empty_trie_def sample_trie_def)
  have d: "snapshot_reading sample_files (trie_snapshot sample_trie) (ot_cache sample_trie)"
    "snapshot_holds sample_files (trie_snapshot sample_trie) one_record"
    "snapshot_reading sample_files (trie_snapshot empty_trie) (ot_cache empty_trie)"
    "snapshot_holds sample_files (trie_snapshot empty_trie) []"
    "inj_on (sha256 plain_crypto) (ledger_inputs plain_crypto one_record \<union> ledger_inputs plain_crypto [])"
    using sample_diff_ready by (simp_all add: diff_ready_def comparable_def c)
  show "parts_reading [sample_files, sample_files] two_parts [ot_cache sample_trie, ot_cache empty_trie]"
    using d by (simp add: parts_reading_def two_parts_def less_Suc_eq)
  have "parts_hold plain_crypto [sample_files, sample_files] two_parts [one_record, []]"
    using d by (simp add: parts_hold_def two_parts_def less_Suc_eq c)
  moreover have "union_records [one_record, []] = one_record" by (simp add: union_records_def)
  then have "union_fits [one_record, []]"
    using one_record_ok[of 0] by (simp add: union_fits_def leaf_max_def) (simp add: one_record_def)
  moreover have "apart plain_crypto (set [one_record, []] \<union> set [])"
    using d(5) one_record_ok[of 0] plain_crypto_ok by (simp add: apart_def)
  ultimately show "union_ready plain_crypto [sample_files, sample_files] two_parts [one_record, []] []"
    by (simp add: union_ready_def)
qed

theorem union_is_one_trie_witness:
  "\<exists>u cs'. TrieUnion_new plain_crypto two_parts None [ot_cache sample_trie, ot_cache empty_trie] = (Inr u, cs') \<and>
     sm_count (union_root u) = 1 \<and> fst (union_get u (replicate 32 7) cs') = Inr (Some [1, 2])"
proof -
  have "trie_summary plain_crypto 0 (union_records [one_record, []]) = trie_summary plain_crypto 0 one_record"
    by (simp add: union_records_def)
  moreover have "sm_count (trie_summary plain_crypto 0 one_record) = 1" by (simp add: trie_summary_def one_record_def)
  moreover have "first_value (map map_of [one_record, []]) (replicate 32 7) = Some [1, 2]" by (simp add: one_record_def)
  ultimately show ?thesis using union_is_one_trie[OF two_parts_ready, of None] by (metis option.distinct(1))
qed

text \<open>
  C13: Comparing a union with a trie finds every id whose record differs, each once, with what the union
  and the trie have, as comparing with the one trie over the union's records would.
\<close>

theorem union_diff_exact:
  assumes "union_diff_ready C Fs u rss F s rs st"
  shows "\<exists>visited cost st'.
    diff_tries (left_source (UnionSource u)) (right_source (SnapshotSource s)) (retM ()) st = (Inr (visited, cost), st') \<and>
    distinct (map df_id visited) \<and>
    set visited = {\<lparr>df_id = i, df_left = first_value (map map_of rss) i, df_right = map_of rs i\<rparr> | i.
      first_value (map map_of rss) i \<noteq> map_of rs i} \<and>
    dc_prefixes cost \<le> 32 * length visited \<and> dc_rounds cost \<le> 64"
proof -
  have "union_stands C Fs u rss" using assms by (simp add: union_diff_ready_def)
  then have "map_of (union_records rss) = first_value (map map_of rss)" by (rule union_records_ok(2)[OF union_standsD(4)])
  with union_diff.diff_tries_exact[OF assms] show ?thesis by simp
qed

definition whole_union :: TrieUnion where
  "whole_union =
     \<lparr>tu_crypto = plain_crypto, tu_parts = two_parts,
      tu_root = Some (UnionNode (map (trie_summary plain_crypto 0) [one_record, []]) (trie_summary plain_crypto 0 one_record) (Some 0) [])\<rparr>"

lemma whole_union_ready:
  "union_diff_ready plain_crypto [sample_files, sample_files] whole_union [one_record, []] sample_files
     (trie_snapshot empty_trie) [] ([ot_cache sample_trie, ot_cache empty_trie], ot_cache empty_trie)"
proof -
  note r = union_readyD[OF two_parts_ready(2)]
  have u: "union_records [one_record, []] = one_record" by (simp add: union_records_def)
  have "union_holds plain_crypto 0 (tu_root whole_union) [one_record, []]"
    using holds_whole[of 0 "[one_record, []]" plain_crypto 0] by (simp add: whole_union_def u)
  then have "union_stands plain_crypto [sample_files, sample_files] whole_union [one_record, []]"
    using r(1,3,4) by (simp add: union_stands_def whole_union_def)
  moreover have "sn_crypto (trie_snapshot sample_trie) = plain_crypto" "sn_crypto (trie_snapshot empty_trie) = plain_crypto"
    "tu_parts whole_union = two_parts"
    by (simp_all add: trie_snapshot_def empty_trie_def sample_trie_def whole_union_def)
  ultimately show "union_diff_ready plain_crypto [sample_files, sample_files] whole_union [one_record, []] sample_files
      (trie_snapshot empty_trie) [] ([ot_cache sample_trie, ot_cache empty_trie], ot_cache empty_trie)"
    using two_parts_ready(1) sample_diff_ready by (simp add: union_diff_ready_def u diff_ready_def comparable_def)
qed

theorem union_diff_exact_witness:
  "\<exists>visited cost st'.
    diff_tries (left_source (UnionSource whole_union)) (right_source (SnapshotSource (trie_snapshot empty_trie))) (retM ())
      ([ot_cache sample_trie, ot_cache empty_trie], ot_cache empty_trie) = (Inr (visited, cost), st') \<and>
    set visited = {\<lparr>df_id = replicate 32 7, df_left = Some [1, 2], df_right = None\<rparr>}"
proof -
  have fv: "first_value (map map_of [one_record, []]) = map_of one_record" by (rule ext) (simp split: option.split)
  have "{\<lparr>df_id = i, df_left = map_of one_record i, df_right = map_of [] i\<rparr> | i. map_of one_record i \<noteq> map_of [] i} =
      {\<lparr>df_id = replicate 32 7, df_left = Some [1, 2], df_right = None\<rparr>}"
    by (auto simp: one_record_def)
  with union_diff_exact[OF whole_union_ready, unfolded fv] show ?thesis by metis
qed

end
