(* ===== verification/Trie_Update.thy ===== *)
theory Trie_Update
  imports Trie_Snapshot
begin

text \<open>
  Changing the object trie: building the canonical shape of a list of records, merging changes
  into it, in a leaf and through the interior nodes. The specification of a change is
  \<open>merge_changes\<close> on the sorted list of all records, itself the update of a finite map; the
  theorem is that \<open>mutate\<close> takes a child that holds the records to one that holds the changed
  ones, whatever part of the trie is saved, cached or in memory.
\<close>

section \<open>Sorted records as finite maps\<close>

lemma records_ok_tail: "records_ok (r # rs) \<Longrightarrow> records_ok rs"
  by (simp add: records_ok_def)

lemma map_of_below_head:
  fixes rs :: "Record list"
  shows "\<forall>r \<in> set rs. i < fst r \<Longrightarrow> map_of rs i = None"
  by (induction rs) auto

lemma records_head:
  assumes "records_ok (r # rs)"
  shows "\<forall>r' \<in> set rs. fst r < fst r'" "map_of rs (fst r) = None"
  using assms map_of_below_head[of rs "fst r"] by (auto simp: records_ok_def)

text \<open>Two sorted lists with the same lookups are equal.\<close>

lemma sorted_map_of_inj:
  assumes "records_ok xs" "records_ok ys" "map_of xs = map_of ys"
  shows "xs = ys"
  using assms by (intro omap_ext) (auto simp: records_ok_def omap_ok_def)

section \<open>What changes make of the records\<close>

definition change_ok :: "Change \<Rightarrow> bool" where
  "change_ok c \<longleftrightarrow> id_ok (cg_id c) \<and> \<not> change_too_large c"

definition changes_ok :: "Change list \<Rightarrow> bool" where
  "changes_ok cs \<longleftrightarrow> sorted_wrt (<) (map cg_id cs) \<and> list_all change_ok cs"

definition changed :: "Change list \<Rightarrow> ObjectId \<Rightarrow> Bytes option option" where
  "changed cs = map_of (map (\<lambda>c. (cg_id c, cg_value c)) cs)"

text \<open>The update of a finite map.\<close>

definition updated :: "(ObjectId \<Rightarrow> Bytes option) \<Rightarrow> Change list \<Rightarrow> ObjectId \<Rightarrow> Bytes option" where
  "updated m cs i = (case changed cs i of None \<Rightarrow> m i | Some v \<Rightarrow> v)"

lemma changes_ok_tail: "changes_ok (c # cs) \<Longrightarrow> changes_ok cs"
  by (simp add: changes_ok_def)

lemma changes_ok_filter: "changes_ok cs \<Longrightarrow> changes_ok (filter P cs)"
  by (auto simp: changes_ok_def list_all_iff sorted_wrt_map sorted_wrt_filter)

lemma records_ok_append:
  "records_ok (xs @ ys) \<longleftrightarrow> records_ok xs \<and> records_ok ys \<and> (\<forall>x \<in> set xs. \<forall>y \<in> set ys. fst x < fst y)"
  by (auto simp: records_ok_def sorted_wrt_append)

text \<open>One step of the merge: what precedes the change's id and what follows it.\<close>

lemma merge_changes_step:
  assumes "records_ok rs"
  obtains before after at where
    "rs = before @ at @ after"
    "\<forall>r \<in> set before. fst r < cg_id c" "\<forall>r \<in> set at. fst r = cg_id c" "\<forall>r \<in> set after. cg_id c < fst r"
    "\<And>cs. merge_changes rs (c # cs) = before @
       (case cg_value c of None \<Rightarrow> [] | Some v \<Rightarrow> [(cg_id c, v)]) @ merge_changes after cs"
proof -
  let ?P = "\<lambda>r. fst r < cg_id c"
  obtain before rest where w: "takeWhile ?P rs = before" "dropWhile ?P rs = rest" by blast
  have rs: "rs = before @ rest" using w by auto
  have ok: "records_ok rest" using assms rs by (simp add: records_ok_append)
  have before: "\<forall>r \<in> set before. fst r < cg_id c" using w(1) by (auto dest: set_takeWhileD)
  have step: "merge_changes rs (c # cs) = before @ (case cg_value c of None \<Rightarrow> [] | Some v \<Rightarrow> [(cg_id c, v)]) @
      merge_changes (case rest of [] \<Rightarrow> [] | r # rs \<Rightarrow> if fst r = cg_id c then rs else r # rs) cs" for cs
    by (simp only: merge_changes.simps w Let_def)
  show thesis
  proof (cases rest)
    case Nil
    show thesis by (rule that[of before "[]" "[]"]) (use rs step Nil before in simp_all)
  next
    case (Cons r later)
    have r: "\<not> fst r < cg_id c" using Cons w(2) dropWhile_eq_Cons_conv[of ?P rs r later] by auto
    have later: "\<forall>r' \<in> set later. fst r < fst r'" using records_head(1) ok Cons by metis
    show thesis
    proof (cases "fst r = cg_id c")
      case True
      show thesis by (rule that[of before "[r]" later]) (use rs step Cons before later True in auto)
    next
      case False
      have "\<forall>r' \<in> set (r # later). cg_id c < fst r'" using r False later by force
      then show thesis
        by (intro that[of before "[]" "r # later"]) (use rs step Cons before False in simp_all)
    qed
  qed
qed

lemma merge_changes_ids:
  assumes "records_ok rs" "i \<in> fst ` set (merge_changes rs cs)"
  shows "i \<in> fst ` set rs \<union> cg_id ` set cs"
  using assms
proof (induction cs arbitrary: rs)
  case (Cons c cs)
  obtain before after at where st: "rs = before @ at @ after"
    "\<And>cs. merge_changes rs (c # cs) = before @
       (case cg_value c of None \<Rightarrow> [] | Some v \<Rightarrow> [(cg_id c, v)]) @ merge_changes after cs"
    using merge_changes_step[OF Cons.prems(1), of c] by metis
  have "records_ok after" using Cons.prems(1) st(1) by (simp add: records_ok_append)
  from Cons.IH[OF this] Cons.prems(2)[unfolded st(2)] show ?case
    unfolding st(1) by (auto split: option.splits)
qed simp

lemma merge_changes_ok:
  assumes "records_ok rs" "changes_ok cs"
  shows "records_ok (merge_changes rs cs)"
  using assms
proof (induction cs arbitrary: rs)
  case (Cons c cs)
  obtain before after at where st: "rs = before @ at @ after"
    "\<forall>r \<in> set before. fst r < cg_id c" "\<forall>r \<in> set after. cg_id c < fst r"
    "\<And>cs. merge_changes rs (c # cs) = before @
       (case cg_value c of None \<Rightarrow> [] | Some v \<Rightarrow> [(cg_id c, v)]) @ merge_changes after cs"
    using merge_changes_step[OF Cons.prems(1), of c] by metis
  have ok: "records_ok before" "records_ok after" using Cons.prems(1) st(1) by (simp_all add: records_ok_append)
  have cs: "changes_ok cs" "\<forall>c' \<in> set cs. cg_id c < cg_id c'" "change_ok c"
    using Cons.prems(2) by (auto simp: changes_ok_def)
  have later: "cg_id c < fst r" if "r \<in> set (merge_changes after cs)" for r
    using merge_changes_ids[OF ok(2), of "fst r" cs] that cs(2) st(3) by auto
  have "records_ok [(cg_id c, v)]" if "cg_value c = Some v" for v
    using that cs(3) by (simp add: records_ok_def record_ok_def change_ok_def change_too_large_def)
  moreover have "records_ok (merge_changes after cs)" by (rule Cons.IH[OF ok(2) cs(1)])
  ultimately show ?case
    using ok(1) later st(2) unfolding st(4) records_ok_append
    by (auto split: option.splits simp: records_ok_def intro: order_less_trans)
qed simp

lemma map_of_below:
  fixes rs :: "Record list"
  shows "\<forall>r \<in> set rs. fst r < i \<Longrightarrow> map_of rs i = None"
  by (induction rs) auto

lemma map_of_at:
  fixes rs :: "Record list"
  shows "\<forall>r \<in> set rs. fst r = j \<Longrightarrow> i \<noteq> j \<Longrightarrow> map_of rs i = None"
  by (induction rs) auto

lemma changed_None: "\<forall>c \<in> set cs. cg_id c \<noteq> i \<Longrightarrow> changed cs i = None"
  by (auto simp: changed_def map_of_eq_None_iff)

text \<open>The merge is the update of the map.\<close>

lemma merge_changes_updated:
  assumes "records_ok rs" "changes_ok cs"
  shows "map_of (merge_changes rs cs) i = updated (map_of rs) cs i"
  using assms
proof (induction cs arbitrary: rs)
  case (Cons c cs)
  obtain before after at where st: "rs = before @ at @ after"
    "\<forall>r \<in> set before. fst r < cg_id c" "\<forall>r \<in> set at. fst r = cg_id c" "\<forall>r \<in> set after. cg_id c < fst r"
    "\<And>cs. merge_changes rs (c # cs) = before @
       (case cg_value c of None \<Rightarrow> [] | Some v \<Rightarrow> [(cg_id c, v)]) @ merge_changes after cs"
    using merge_changes_step[OF Cons.prems(1), of c] by metis
  have after: "records_ok after" using Cons.prems(1) st(1) by (simp add: records_ok_append)
  have cs: "changes_ok cs" "\<forall>c' \<in> set cs. cg_id c < cg_id c'" using Cons.prems(2) by (auto simp: changes_ok_def)
  have IH: "map_of (merge_changes after cs) i = updated (map_of after) cs i" by (rule Cons.IH[OF after cs(1)])
  consider "i < cg_id c" | "i = cg_id c" | "cg_id c < i" by (rule linorder_cases)
  then show ?case
  proof cases
    case 1
    have "changed (c # cs) i = None" "changed cs i = None" using 1 cs(2) by (force intro!: changed_None)+
    moreover have "map_of at i = None" using st(3) 1 by (intro map_of_at) auto
    moreover have "map_of after i = None" using st(4) 1 by (intro map_of_below_head) (auto intro: order_less_trans)
    ultimately show ?thesis using IH 1 unfolding st(5) unfolding st(1)
      by (auto simp: updated_def map_add_def split: option.splits)
  next
    case 2
    have "map_of before i = None" using st(2) 2 by (intro map_of_below) auto
    moreover have "changed cs i = None" using 2 cs(2) by (force intro!: changed_None)
    moreover have "map_of after i = None" using st(4) 2 by (intro map_of_below_head) auto
    moreover have "changed (c # cs) i = Some (cg_value c)" using 2 by (simp add: changed_def)
    ultimately show ?thesis using IH 2 unfolding st(5)
      by (auto simp: updated_def map_add_def split: option.splits)
  next
    case 3
    have "map_of before i = None" using st(2) 3 by (intro map_of_below) (auto intro: order_less_trans)
    moreover have "map_of at i = None" using st(3) 3 by (intro map_of_at) auto
    moreover have "changed (c # cs) i = changed cs i" using 3 by (auto simp: changed_def)
    ultimately show ?thesis using IH 3 unfolding st(5) unfolding st(1)
      by (auto simp: updated_def map_add_def split: option.splits)
  qed
qed (simp add: updated_def changed_def)


text \<open>The part of the changes under a byte, and that it makes the part of the records under it.\<close>

definition change_slot :: "nat \<Rightarrow> nat \<Rightarrow> Change list \<Rightarrow> Change list" where
  "change_slot d i cs = filter (\<lambda>c. unat (cg_id c ! d) = i) cs"

lemma lookup_slot:
  "map_of (slot d i rs) j = (if unat (j ! d) = i then map_of rs j else None)"
  by (induction rs) (auto simp: slot_def)

lemma changed_slot:
  "changed (change_slot d i cs) j = (if unat (j ! d) = i then changed cs j else None)"
  by (induction cs) (auto simp: change_slot_def changed_def)

lemma merge_changes_slot:
  assumes "records_ok rs" "changes_ok cs"
  shows "merge_changes (slot d i rs) (change_slot d i cs) = slot d i (merge_changes rs cs)"
proof (rule sorted_map_of_inj)
  have ok: "records_ok (slot d i rs)" "changes_ok (change_slot d i cs)"
    using assms by (simp_all add: slot_def records_ok_filter change_slot_def changes_ok_filter)
  show "records_ok (merge_changes (slot d i rs) (change_slot d i cs))" by (rule merge_changes_ok[OF ok])
  show "records_ok (slot d i (merge_changes rs cs))"
    using merge_changes_ok[OF assms] by (simp add: slot_def records_ok_filter)
  show "map_of (merge_changes (slot d i rs) (change_slot d i cs)) = map_of (slot d i (merge_changes rs cs))"
    by (rule ext)
       (simp add: merge_changes_updated[OF ok] merge_changes_updated[OF assms] updated_def lookup_slot changed_slot
        split: option.split)
qed

section \<open>Building\<close>

lemma slot_Nil [simp]: "slot d i [] = []"
  by (simp add: slot_def)

lemma filter_byte:
  assumes "i < fanout"
  shows "filter (\<lambda>x. f x ! d = of_nat i) xs = filter (\<lambda>x. unat (f x ! d :: u8) = i) xs"
proof -
  have "unat (of_nat i :: u8) = i" using assms by (simp add: fanout_def unat_of_nat take_bit_nat_eq_self)
  then show ?thesis by (intro filter_cong) (auto simp: word_unat_eq_iff)
qed

lemma holds_child_of: "node_holds C S d n rs \<Longrightarrow> holds C S d (child_of n) rs"
  unfolding child_of_def by (rule holds_node) simp_all

text \<open>The canonical shape of any records is built, and holds them.\<close>

lemma build_holds:
  assumes "segment_ok d rs" "d < 32"
  shows "\<exists>c. build C d rs = Inr c \<and> holds C S d c rs"
  using assms
proof (induction "32 - d" arbitrary: d rs rule: less_induct)
  case less
  consider "rs = []" | "rs \<noteq> []" "length rs \<le> leaf_max" | "leaf_max < length rs" by linarith
  then show ?case
  proof cases
    case 1
    then show ?thesis by (subst build.simps) (auto intro: holds_empty)
  next
    case 2
    have ok: "list_all record_ok rs" using segment_okD(1)[OF less.prems(1)] by (simp add: records_ok_def)
    have "node_holds C S d (Node d True rs [] (of_nat (length rs)) (leaf_digest C rs)) rs"
      by (rule node_leaf[OF less.prems(1) 2 less.prems(2)])
    from holds_child_of[OF this] 2 show ?thesis by (subst build.simps) (auto simp: make_leaf_ok[OF ok])
  next
    case 3
    let ?byte = "\<lambda>r. fst r ! d" and ?h = "\<lambda>g. projr (build C (d + 1) g)"
    have d: "d < 31" by (rule segment_interior_depth[OF less.prems(1) 3])
    have IH: "build C (d + 1) (slot d i rs) = Inr (?h (slot d i rs)) \<and>
        holds C S (d + 1) (?h (slot d i rs)) (slot d i rs)" for i
    proof -
      have "32 - (d + 1) < 32 - d" "d + 1 < 32" using d by simp_all
      from less.hyps[OF this(1) slot_segment[OF less.prems, of i] this(2)]
      show ?thesis by (elim exE conjE) (simp only: sum.sel)
    qed
    note srt = segment_sorted[OF less.prems]
    let ?cs = "foldl (\<lambda>cs g. cs[unat (fst g) := ?h (snd g)]) (replicate fanout empty_child) (runs ?byte rs)"
    have "foldR (\<lambda>cs g. bindR (build C (d + 1) (snd g)) (\<lambda>c. Inr (cs[unat (fst g) := c])))
        (replicate fanout empty_child) (runs ?byte rs) = Inr ?cs"
    proof (rule foldR_store)
      fix g assume "g \<in> set (runs ?byte rs)"
      then have "snd g = slot d (unat (fst g)) rs"
        using runs_sorted[OF srt] by (auto simp: slot_def word_unat_eq_iff)
      then show "build C (d + 1) (snd g) = Inr (?h (snd g))" using IH by metis
    qed
    moreover have "holds C S (d + 1) (?cs ! i) (slot d i rs)" if i: "i < fanout" for i
    proof -
      have "?cs ! i = (case map_of (runs ?byte rs) (of_nat i) of None \<Rightarrow> empty_child | Some g \<Rightarrow> ?h g)"
        using foldl_store_nth[of "runs ?byte rs" i "replicate fanout empty_child" ?h] runs_sorted[OF srt] i
        by (simp add: fanout_def cong: option.case_cong)
      also have "\<dots> = (if slot d i rs = [] then empty_child else ?h (slot d i rs))"
        by (simp add: map_of_runs[OF srt] Let_def filter_byte[OF i] slot_def)
      finally show ?thesis using IH[of i] holds_empty by auto
    qed
    then have "node_holds C S d (make_interior C d ?cs) rs"
      by (intro node_interior[OF less.prems(1) 3]) simp_all
    ultimately show ?thesis
      using holds_child_of 3 d by (subst build.simps) auto
  qed
qed

section \<open>Changing\<close>

lemma supersede_reading:
  assumes "trie_reading F t0 t"
  shows "\<exists>t'. supersede c t = (Inr (), t') \<and> trie_reading F t0 t'"
proof -
  have eq: "t = t0\<lparr>ot_cache := ot_cache t, ot_superseded_bytes := ot_superseded_bytes t\<rparr>"
    using assms unfolding trie_reading_def by blast
  have "t\<lparr>ot_superseded_bytes := x\<rparr> = t0\<lparr>ot_cache := ot_cache t, ot_superseded_bytes := x\<rparr>" for x
    by (subst eq) simp
  with assms have "trie_reading F t0 (t\<lparr>ot_superseded_bytes := x\<rparr>)" for x by (simp add: trie_reading_def)
  with assms show ?thesis by (simp add: supersede_def)
qed

lemma foldM_slots:
  assumes step: "\<And>i out s. i < length cs \<Longrightarrow> good s \<Longrightarrow> \<exists>s'. f out (cs ! i) s = (Inr (out @ rss ! i), s') \<and> good s'"
    and len: "length cs = length rss" and s: "good s"
  shows "\<exists>s'. foldM f out cs s = (Inr (out @ concat rss), s') \<and> good s'"
  using len step s
proof (induction cs rss arbitrary: out s rule: list_induct2)
  case (Cons c cs rs rss)
  obtain s1 where s1: "f out c s = (Inr (out @ rs), s1)" "good s1"
    using Cons.prems(1)[of 0 s out] Cons.prems(2) by auto
  have "\<exists>s'. foldM f (out @ rs) cs s1 = (Inr ((out @ rs) @ concat rss), s') \<and> good s'"
  proof (rule Cons.IH[OF _ s1(2)])
    fix i out s assume "i < length cs" "good s"
    then show "\<exists>s'. f out (cs ! i) s = (Inr (out @ rss ! i), s') \<and> good s'"
      using Cons.prems(1)[of "Suc i" s out] by simp
  qed
  with s1 show ?case by (auto simp: bindM_Inr)
qed simp

text \<open>\<open>gather\<close> collects every record below, in order.\<close>

lemma gather_holds:
  assumes "trie_reading F t0 t" "holds (ot_crypto t0) (F (ot_generation t0)) d c rs" "33 \<le> fuel + d" "d \<le> 32"
  shows "\<exists>t'. gather fuel c out superseding t = (Inr (out @ rs), t') \<and> trie_reading F t0 t'"
  using assms
proof (induction fuel arbitrary: d c rs out t)
  case 0
  then show ?case by simp
next
  case (Suc fuel)
  show ?case
  proof (cases "rs = []")
    case True
    with Suc.prems holds_empty_iff(1)[OF Suc.prems(2)] show ?thesis by auto
  next
    case False
    obtain n t1 where n: "trie_load c t = (Inr n, t1)" "trie_reading F t0 t1"
      "node_holds (ot_crypto t0) (F (ot_generation t0)) d n rs"
      by (rule trie_reader.loadE[OF Suc.prems(1,2) False])
    obtain t2 where t2: "(if superseding then supersede c else retM ()) t1 = (Inr (), t2)" "trie_reading F t0 t2"
      using supersede_reading[OF n(2)] n(2) by (cases superseding) auto
    have empty: "\<not> child_empty c" using holds_empty_iff(1)[OF Suc.prems(2)] False by simp
    from n(3) show ?thesis
    proof (cases rule: node_holds.cases)
      case node_leaf
      then show ?thesis using n t2 empty by (simp add: bindM_Inr)
    next
      case 2: (node_interior cs)
      have d: "d < 31" using segment_interior_depth[OF 2(2,3)] .
      have "\<exists>t'. foldM (\<lambda>out below. gather fuel below out superseding) out cs t2 =
          (Inr (out @ concat (map (\<lambda>i. slot d i rs) [0..<fanout])), t') \<and> trie_reading F t0 t'"
      proof (rule foldM_slots[where good = "trie_reading F t0", OF _ _ t2(2)])
        fix i out t assume "i < length cs" and t: "trie_reading F t0 t"
        then have i: "i < fanout" using 2(4) by simp
        show "\<exists>t'. gather fuel (cs ! i) out superseding t =
            (Inr (out @ map (\<lambda>i. slot d i rs) [0..<fanout] ! i), t') \<and> trie_reading F t0 t'"
          using Suc.IH[OF t 2(5)[OF i], of out] Suc.prems(3) d i by simp
      qed (use 2(4) in simp)
      moreover have "concat (map (\<lambda>i. slot d i rs) [0..<fanout]) = rs"
        using 2(2) d by (intro concat_slots) simp_all
      ultimately show ?thesis
        using n t2 empty 2(1) by (auto simp: bindM_Inr make_interior_def)
    qed
  qed
qed

text \<open>A loop that replaces the entries of a table by groups with different keys.\<close>

lemma foldM_store:
  fixes gs :: "(u8 \<times> 'g) list"
  assumes "distinct (map fst gs)" "good s" "length cs = 256"
    and "\<And>g s. g \<in> set gs \<Longrightarrow> good s \<Longrightarrow>
      \<exists>c s'. f (cs ! unat (fst g)) (snd g) s = (Inr c, s') \<and> good s' \<and> Q (unat (fst g)) c"
  shows "\<exists>cs' s'. foldM (\<lambda>cs g. bindM (f (cs ! unat (fst g)) (snd g)) (\<lambda>c. retM (cs[unat (fst g) := c]))) cs gs s =
      (Inr cs', s') \<and> good s' \<and> length cs' = 256 \<and>
      (\<forall>i < 256. if of_nat i \<in> fst ` set gs then Q i (cs' ! i) else cs' ! i = cs ! i)"
  using assms
proof (induction gs arbitrary: cs s)
  case (Cons g gs)
  obtain c s1 where c: "f (cs ! unat (fst g)) (snd g) s = (Inr c, s1)" "good s1" "Q (unat (fst g)) c"
    using Cons.prems(4)[of g s] Cons.prems(2) by auto
  let ?cs = "cs[unat (fst g) := c]"
  have "?cs ! unat (fst h) = cs ! unat (fst h)" if "h \<in> set gs" for h
    using Cons.prems(1) that by (subst nth_list_update_neq) (auto simp: word_unat_eq_iff)
  then have "\<exists>c s'. f (?cs ! unat (fst h)) (snd h) s = (Inr c, s') \<and> good s' \<and> Q (unat (fst h)) c"
    if "h \<in> set gs" "good s" for h s
    using Cons.prems(4)[of h s] that by simp
  moreover have "distinct (map fst gs)" "length ?cs = 256" using Cons.prems(1,3) by simp_all
  ultimately obtain cs' s' where cs': "foldM (\<lambda>cs g. bindM (f (cs ! unat (fst g)) (snd g))
        (\<lambda>c. retM (cs[unat (fst g) := c]))) ?cs gs s1 = (Inr cs', s')"
    "good s'" "length cs' = 256" "\<forall>i < 256. if of_nat i \<in> fst ` set gs then Q i (cs' ! i) else cs' ! i = ?cs ! i"
    using Cons.IH[OF _ c(2), of ?cs] by blast
  have "if of_nat i \<in> fst ` set (g # gs) then Q i (cs' ! i) else cs' ! i = cs ! i" if i: "i < 256" for i
  proof -
    have u: "unat (of_nat i :: u8) = i" using i by (simp add: unat_of_nat take_bit_nat_eq_self)
    consider "of_nat i \<in> fst ` set gs" | "of_nat i \<notin> fst ` set gs" "fst g = of_nat i"
      | "of_nat i \<notin> fst ` set gs" "fst g \<noteq> of_nat i" by blast
    then show ?thesis
    proof cases
      case 2
      then have "unat (fst g) = i" using u by simp
      moreover have "cs' ! i = ?cs ! i" using cs'(4) i 2(1) by simp
      ultimately show ?thesis using 2 c(3) i Cons.prems(3) by simp
    next
      case 3
      then have "unat (fst g) \<noteq> i" using u by (metis word_unat_eq_iff)
      moreover have "cs' ! i = ?cs ! i" using cs'(4) i 3(1) by simp
      ultimately show ?thesis using 3 by auto
    qed (use cs'(4) i in auto)
  qed
  moreover have "bindM (f (cs ! unat (fst g)) (snd g)) (\<lambda>c. retM (cs[unat (fst g) := c])) s = (Inr ?cs, s1)"
    by (simp add: bindM_def c(1))
  then have "foldM (\<lambda>cs g. bindM (f (cs ! unat (fst g)) (snd g)) (\<lambda>c. retM (cs[unat (fst g) := c]))) cs (g # gs) s =
      (Inr cs', s')"
    using cs'(1) by (simp only: foldM.simps bindM_def prod.case sum.case)
  ultimately show ?case using cs'(2,3) by blast
qed simp

definition changes_prefix :: "nat \<Rightarrow> Change list \<Rightarrow> bool" where
  "changes_prefix d cs \<longleftrightarrow> (\<forall>c \<in> set cs. \<forall>c' \<in> set cs. take d (cg_id c) = take d (cg_id c'))"

lemma changes_sorted:
  assumes "changes_ok cs" "changes_prefix d cs" "d < 32"
  shows "sorted (map (\<lambda>c. cg_id c ! d) cs)"
proof -
  have "cg_id c ! d \<le> cg_id c' ! d" if "c \<in> set cs" "c' \<in> set cs" "cg_id c < cg_id c'" for c c'
  proof (rule less_nth_le[OF _ _ _ that(3)])
    show "take d (cg_id c) = take d (cg_id c')" using assms(2) that unfolding changes_prefix_def by blast
  qed (use assms that in \<open>auto simp: changes_ok_def change_ok_def id_ok_def list_all_iff\<close>)
  moreover have "sorted_wrt (\<lambda>c c'. cg_id c < cg_id c') cs"
    using assms(1) by (simp add: changes_ok_def sorted_wrt_map)
  ultimately show ?thesis
    unfolding sorted_map
    using sorted_wrt_mono_rel[of cs "\<lambda>c c'. cg_id c < cg_id c'" "\<lambda>c c'. cg_id c ! d \<le> cg_id c' ! d"] by blast
qed

lemma change_slot_ok:
  assumes "changes_ok cs" "changes_prefix d cs" "d < 32"
  shows "changes_ok (change_slot d i cs)" "changes_prefix (d + 1) (change_slot d i cs)"
proof -
  show "changes_ok (change_slot d i cs)" using assms(1) by (simp add: change_slot_def changes_ok_filter)
  have "take (d + 1) (cg_id c) = take (d + 1) (cg_id c')"
    if "c \<in> set (change_slot d i cs)" "c' \<in> set (change_slot d i cs)" for c c'
  proof -
    from that have m: "c \<in> set cs" "c' \<in> set cs" "cg_id c ! d = cg_id c' ! d"
      by (auto simp: change_slot_def word_unat_eq_iff)
    then have "d < length (cg_id c)" "d < length (cg_id c')"
      using assms(1,3) by (auto simp: changes_ok_def change_ok_def id_ok_def list_all_iff)
    moreover have "take d (cg_id c) = take d (cg_id c')" using assms(2) m(1,2) unfolding changes_prefix_def by blast
    ultimately show ?thesis using m(3) by (simp add: take_Suc_conv_app_nth)
  qed
  then show "changes_prefix (d + 1) (change_slot d i cs)" unfolding changes_prefix_def by blast
qed

lemma child_counts_slots:
  assumes "segment_ok d rs" "d < 32" "length cs = fanout"
    "\<And>i. i < fanout \<Longrightarrow> holds C S (d + 1) (cs ! i) (slot d i rs)"
  shows "unat (child_counts cs) = length rs"
proof -
  have "child_counts cs = foldl (\<lambda>n c. n + ch_count c) (of_nat 0) cs" by (simp add: child_counts_def)
  also have "\<dots> = of_nat (0 + sum_list (map length (map (\<lambda>i. slot d i rs) [0..<fanout])))"
    using assms(3) holds_summary(1)[OF assms(4)]
    by (intro sum_counts) (auto simp: child_summary_def trie_summary_def)
  also have "sum_list (map length (map (\<lambda>i. slot d i rs) [0..<fanout])) = length rs"
    by (metis length_concat concat_slots[OF assms(1,2)])
  finally show ?thesis using unat_length_u64[OF segment_okD(3)[OF assms(1)]] by simp
qed

lemma build_reading:
  assumes "trie_reading F t0 t" "segment_ok d rs" "d < 32"
  shows "\<exists>c. bindM getM (\<lambda>t. liftM (build (ot_crypto t) d rs)) t = (Inr c, t) \<and>
    holds (ot_crypto t0) (F (ot_generation t0)) d c rs"
  using build_holds[OF assms(2,3), of "ot_crypto t0"] trie_readingD(1)[OF assms(1)] by simp

text \<open>The children after every group of changes is in its slot.\<close>

lemma mutate_children:
  assumes IH: "\<And>i t. i < fanout \<Longrightarrow> trie_reading F t0 t \<Longrightarrow>
      \<exists>c t'. mutate (d + 1) (cs ! i) (change_slot d i changes) t = (Inr c, t') \<and> trie_reading F t0 t' \<and>
        holds (ot_crypto t0) (F (ot_generation t0)) (d + 1) c (slot d i (merge_changes rs changes))"
    and ok: "changes_ok changes" "changes_prefix d changes" "d < 32" "records_ok rs"
    and cs: "length cs = fanout"
      "\<And>i. i < fanout \<Longrightarrow> holds (ot_crypto t0) (F (ot_generation t0)) (d + 1) (cs ! i) (slot d i rs)"
    and t: "trie_reading F t0 t"
  shows "\<exists>cs' t'. foldM (\<lambda>children group. bindM (mutate (d + 1) (children ! unat (fst group)) (snd group))
        (\<lambda>c. retM (children[unat (fst group) := c]))) cs (runs (\<lambda>c. cg_id c ! d) changes) t = (Inr cs', t') \<and>
      trie_reading F t0 t' \<and> length cs' = fanout \<and>
      (\<forall>i < fanout. holds (ot_crypto t0) (F (ot_generation t0)) (d + 1) (cs' ! i)
         (slot d i (merge_changes rs changes)))"
proof -
  let ?gs = "runs (\<lambda>c. cg_id c ! d) changes"
  let ?Q = "\<lambda>i c. holds (ot_crypto t0) (F (ot_generation t0)) (d + 1) c (slot d i (merge_changes rs changes))"
  note srt = runs_sorted[OF changes_sorted[OF ok(1,2,3)]]
  have group: "snd g = change_slot d (unat (fst g)) changes" if "g \<in> set ?gs" for g
    using srt that by (auto simp: change_slot_def word_unat_eq_iff)
  have step: "\<exists>c t'. mutate (d + 1) (cs ! unat (fst g)) (snd g) t = (Inr c, t') \<and> trie_reading F t0 t' \<and>
      ?Q (unat (fst g)) c" if "g \<in> set ?gs" "trie_reading F t0 t" for g t
    using IH[OF unat_byte that(2)] group[OF that(1)] by simp
  have len: "length cs = 256" using cs(1) by (simp add: fanout_def)
  obtain cs' t' where cs': "foldM (\<lambda>children group. bindM (mutate (d + 1) (children ! unat (fst group)) (snd group))
        (\<lambda>c. retM (children[unat (fst group) := c]))) cs ?gs t = (Inr cs', t')"
    "trie_reading F t0 t'" "length cs' = 256"
    "\<forall>i < 256. if of_nat i \<in> fst ` set ?gs then ?Q i (cs' ! i) else cs' ! i = cs ! i"
    using foldM_store[where Q = ?Q and f = "mutate (d + 1)" and good = "trie_reading F t0" and gs = ?gs, OF _ t len step] srt
    by blast
  have "?Q i (cs' ! i)" if i: "i < fanout" for i
  proof (cases "of_nat i \<in> fst ` set ?gs")
    case True
    have "i < 256" using i by (simp add: fanout_def)
    from cs'(4)[rule_format, OF this] True show ?thesis by (simp only: if_True)
  next
    case False
    then have "\<forall>c \<in> set changes. cg_id c ! d \<noteq> of_nat i" using srt by (metis (mono_tags, lifting) image_eqI)
    then have "change_slot d i changes = []"
      unfolding change_slot_def filter_byte[OF i, of cg_id d changes, symmetric] by (simp add: filter_empty_conv)
    then have "slot d i (merge_changes rs changes) = slot d i rs"
      using merge_changes_slot[OF ok(4,1), of d i] by simp
    moreover have "cs' ! i = cs ! i" using cs'(4) i False by (simp add: fanout_def)
    ultimately show ?thesis using cs(2)[OF i] by simp
  qed
  with cs'(1-3) show ?thesis by (auto simp: fanout_def)
qed

text \<open>What an interior node becomes: a leaf again when its records fit in one.\<close>

lemma mutate_shrink:
  assumes "segment_ok d rs" "d < 31" "length cs = fanout" "trie_reading F t0 t"
    "\<And>i. i < fanout \<Longrightarrow> holds (ot_crypto t0) (F (ot_generation t0)) (d + 1) (cs ! i) (slot d i rs)"
  shows "\<exists>c t'. (if unat (child_counts cs) \<le> leaf_max
            then bindM (foldM (\<lambda>all below. gather load_fuel below all True) [] cs) (\<lambda>all.
                   bindM getM (\<lambda>t. liftM (build (ot_crypto t) d all)))
            else bindM getM (\<lambda>t. retM (child_of (make_interior (ot_crypto t) d cs)))) t = (Inr c, t') \<and>
    trie_reading F t0 t' \<and> holds (ot_crypto t0) (F (ot_generation t0)) d c rs"
proof -
  have d: "d < 32" using assms(2) by simp
  have n: "unat (child_counts cs) = length rs" by (rule child_counts_slots[OF assms(1) d assms(3,5)])
  have "\<exists>t'. foldM (\<lambda>out below. gather load_fuel below out True) [] cs t =
      (Inr ([] @ concat (map (\<lambda>i. slot d i rs) [0..<fanout])), t') \<and> trie_reading F t0 t'"
  proof (rule foldM_slots[where good = "trie_reading F t0", OF _ _ assms(4)])
    fix i out t assume "i < length cs" and t: "trie_reading F t0 t"
    then have i: "i < fanout" using assms(3) by simp
    have "33 \<le> load_fuel + (d + 1)" by (rule enough_fuel)
    from gather_holds[OF t assms(5)[OF i] this] i assms(2)
    show "\<exists>t'. gather load_fuel (cs ! i) out True t =
        (Inr (out @ map (\<lambda>i. slot d i rs) [0..<fanout] ! i), t') \<and> trie_reading F t0 t'" by simp
  qed (use assms(3) in simp)
  then obtain t' where all: "foldM (\<lambda>out below. gather load_fuel below out True) [] cs t = (Inr rs, t')"
    "trie_reading F t0 t'" by (auto simp: concat_slots[OF assms(1) d])
  show ?thesis
  proof (cases "length rs \<le> leaf_max")
    case True
    with n all build_reading[OF all(2) assms(1) d] show ?thesis by (auto simp: bindM_Inr[where s' = t'])
  next
    case False
    then have "node_holds (ot_crypto t0) (F (ot_generation t0)) d (make_interior (ot_crypto t0) d cs) rs"
      using assms(1,3,5) by (intro node_interior) auto
    with n False assms(4) holds_child_of trie_readingD(1)[OF assms(4)] show ?thesis by auto
  qed
qed

text \<open>The three cases of \<open>mutate\<close>.\<close>

lemma mutate_empty:
  "changes \<noteq> [] \<Longrightarrow> child_empty c \<Longrightarrow> mutate d c changes t =
     bindM getM (\<lambda>t. liftM (build (ot_crypto t) d (merge_changes [] changes))) t"
  by (subst mutate.simps) (simp add: bindM_def)

lemma mutate_leaf:
  "changes \<noteq> [] \<Longrightarrow> \<not> child_empty c \<Longrightarrow> trie_load c t = (Inr n, t1) \<Longrightarrow> supersede c t1 = (Inr (), t2) \<Longrightarrow>
   nd_leaf n \<Longrightarrow> mutate d c changes t =
     bindM getM (\<lambda>t. liftM (build (ot_crypto t) d (merge_changes (nd_records n) changes))) t2"
  by (subst mutate.simps) (simp add: bindM_def)

lemma mutate_interior:
  "changes \<noteq> [] \<Longrightarrow> \<not> child_empty c \<Longrightarrow> trie_load c t = (Inr n, t1) \<Longrightarrow> supersede c t1 = (Inr (), t2) \<Longrightarrow>
   \<not> nd_leaf n \<Longrightarrow> d < 32 \<Longrightarrow>
   foldM (\<lambda>children group. bindM (mutate (d + 1) (children ! unat (fst group)) (snd group))
     (\<lambda>c. retM (children[unat (fst group) := c]))) (nd_children n) (runs (\<lambda>c. cg_id c ! d) changes) t2 = (Inr cs, t3) \<Longrightarrow>
   mutate d c changes t = (if unat (child_counts cs) \<le> leaf_max
     then bindM (foldM (\<lambda>all below. gather load_fuel below all True) [] cs) (\<lambda>all.
            bindM getM (\<lambda>t. liftM (build (ot_crypto t) d all)))
     else bindM getM (\<lambda>t. retM (child_of (make_interior (ot_crypto t) d cs)))) t3"
  by (subst mutate.simps) (simp add: bindM_def)

lemma mutate_holds:
  assumes "trie_reading F t0 t" "holds (ot_crypto t0) (F (ot_generation t0)) d c rs" "d < 32"
    and "changes_ok changes" "changes_prefix d changes" "segment_ok d (merge_changes rs changes)"
  shows "\<exists>c' t'. mutate d c changes t = (Inr c', t') \<and> trie_reading F t0 t' \<and>
    holds (ot_crypto t0) (F (ot_generation t0)) d c' (merge_changes rs changes)"
  using assms
proof (induction "32 - d" arbitrary: d c rs changes t rule: less_induct)
  case less
  note t = less.prems(1) and h = less.prems(2) and d = less.prems(3) and ok = less.prems(4,5)
  show ?case
  proof (cases "changes = []")
    case True
    with t h show ?thesis by (subst mutate.simps) simp
  next
    case changes: False
    show ?thesis
    proof (cases "rs = []")
      case True
      then have "child_empty c" using holds_empty_iff(1)[OF h] by simp
      with mutate_empty[OF changes, of c d t] True build_reading[OF t less.prems(6) d] t show ?thesis by auto
    next
      case False
      have empty: "\<not> child_empty c" using holds_empty_iff(1)[OF h] False by simp
      obtain n t1 where n: "trie_load c t = (Inr n, t1)" "trie_reading F t0 t1"
        "node_holds (ot_crypto t0) (F (ot_generation t0)) d n rs"
        by (rule trie_reader.loadE[OF t h False])
      obtain t2 where t2: "supersede c t1 = (Inr (), t2)" "trie_reading F t0 t2"
        using supersede_reading[OF n(2)] by blast
      from n(3) show ?thesis
      proof (cases rule: node_holds.cases)
        case node_leaf
        with mutate_leaf[OF changes empty n(1) t2(1), of d] t2(2) build_reading[OF t2(2) less.prems(6) d]
        show ?thesis by auto
      next
        case i: (node_interior cs)
        have d': "d < 31" by (rule segment_interior_depth[OF i(2,3)])
        have rs: "records_ok rs" by (rule segment_okD(1)[OF i(2)])
        have "\<exists>c t'. mutate (d + 1) (cs ! j) (change_slot d j changes) t = (Inr c, t') \<and> trie_reading F t0 t' \<and>
            holds (ot_crypto t0) (F (ot_generation t0)) (d + 1) c (slot d j (merge_changes rs changes))"
          if "j < fanout" "trie_reading F t0 t" for j t
          using less.hyps[OF _ that(2) i(5)[OF that(1)] _ change_slot_ok[OF ok d, of j]] d'
            slot_segment[OF less.prems(6) d, of j] by (simp add: merge_changes_slot[OF rs ok(1)])
        from mutate_children[OF this ok d rs i(4) i(5) t2(2)] obtain cs' t3 where
          cs': "foldM (\<lambda>children group. bindM (mutate (d + 1) (children ! unat (fst group)) (snd group))
              (\<lambda>c. retM (children[unat (fst group) := c]))) cs (runs (\<lambda>c. cg_id c ! d) changes) t2 = (Inr cs', t3)"
          "trie_reading F t0 t3" "length cs' = fanout"
          "\<And>i. i < fanout \<Longrightarrow> holds (ot_crypto t0) (F (ot_generation t0)) (d + 1) (cs' ! i)
              (slot d i (merge_changes rs changes))" by blast
        have nd: "\<not> nd_leaf n" "nd_children n = cs" using i(1) by (simp_all add: make_interior_def)
        from mutate_shrink[OF less.prems(6) d' cs'(3,2,4)]
          mutate_interior[OF changes empty n(1) t2(1) nd(1) d cs'(1)[folded nd(2)]]
        show ?thesis by (simp only:)
      qed
    qed
  qed
qed

end
