(* ===== verification/Trie_Save.thy ===== *)
theory Trie_Save
  imports Trie_Update
begin

text \<open>
  Saving the object trie. \<open>save\<close> writes the unsaved nodes below a child into the node file, children
  first; what it returns holds the same records, every node of it in the file. From it: a
  checkpoint keeps the records, and so does the rewrite of a node file that is mostly superseded
  nodes. Offsets are 64-bit and the largest one marks an unsaved child, so the theorems are about
  node files that stay below it.
\<close>

section \<open>A node file that grows\<close>

definition grows :: "SealedJournal \<Rightarrow> SealedJournal \<Rightarrow> bool" where
  "grows j j' \<longleftrightarrow> journal_ok j' \<and> sj_bytes j \<le> sj_bytes j' \<and> sj_max_frame j' = sj_max_frame j \<and>
     (\<forall>off p. frame_at j off p \<longrightarrow> frame_at j' off p)"

lemma grows_refl: "journal_ok j \<Longrightarrow> grows j j"
  by (simp add: grows_def)

lemma grows_trans: "grows j j' \<Longrightarrow> grows j' j'' \<Longrightarrow> grows j j''"
  by (auto simp: grows_def)

lemma grows_ok: "grows j j' \<Longrightarrow> journal_ok j'"
  by (simp add: grows_def)

lemma append_unsynced_grows:
  assumes "journal_ok j"
  shows "grows j (snd (append_unsynced p j))"
proof (cases "length p \<le> sj_max_frame j")
  case True
  obtain j' where "append_unsynced p j = (Inr (sj_bytes j), j')" "journal_ok j'"
    "sj_bytes j' = sj_bytes j + (frame_header + length p)"
    "sj_max_frame j' = sj_max_frame j" "\<And>off q. frame_at j off q \<Longrightarrow> frame_at j' off q"
    by (rule append_unsynced_stores[OF assms True]) blast
  then show ?thesis by (simp add: grows_def)
next
  case False
  with assms append_unsynced_too_large[of j p] show ?thesis by (auto simp: grows_def journal_ok_def frame_at_def)
qed

lemma bindM_grows:
  assumes "grows j (snd (m j))" "\<And>x j'. grows j j' \<Longrightarrow> grows j' (snd (f x j'))"
  shows "grows j (snd (bindM m f j))"
  using assms grows_trans by (auto simp: bindM_def split: prod.splits sum.splits)

lemma save_node_grows:
  assumes "journal_ok j"
  shows "grows j (snd (save_node n j))"
  unfolding save_node_def
  using assms by (auto intro!: bindM_grows append_unsynced_grows grows_refl intro: grows_ok)

lemma save_grows:
  "journal_ok j \<Longrightarrow> grows j (snd (save C c j))"
  "journal_ok j \<Longrightarrow> grows j (snd (save_children C cs j))"
proof (induction C c and C cs arbitrary: j and j rule: save_save_children.induct)
  case (1 C offset sz count hash node)
  show ?case
  proof (cases node)
    case None
    with 1(2) show ?thesis by (simp add: grows_refl)
  next
    case (Some n)
    obtain depth leaf records children count' hash' where n: "n = Node depth leaf records children count' hash'"
      by (cases n)
    show ?thesis
      using 1(2) save_node_grows 1(1)[OF _ Some n]
      unfolding Some n by (auto intro!: bindM_grows grows_refl intro: grows_ok)
  qed
qed (auto intro!: bindM_grows grows_refl intro: grows_ok)

section \<open>Nodes in the file\<close>

definition in_file :: "Child \<Rightarrow> bool" where
  "in_file c \<longleftrightarrow> child_empty c \<or> ch_offset c \<noteq> unsaved"

lemma offset_ok:
  assumes "n < 2 ^ 64 - 1"
  shows "unat (of_nat n :: u64) = n" "(of_nat n :: u64) \<noteq> unsaved"
proof -
  show u: "unat (of_nat n :: u64) = n" using assms by (intro unat_length_u64) simp
  have "unat unsaved = 2 ^ 64 - 1" by (simp add: unsaved_def unsigned_minus_1_eq_mask mask_eq_exp_minus_1)
  with u assms show "(of_nat n :: u64) \<noteq> unsaved" by (metis less_irrefl)
qed

lemma length_enc_record: "record_ok r \<Longrightarrow> length (enc_record r) \<le> 36 + value_max"
  by (simp add: enc_record_def enc_bytes_def record_ok_def id_ok_def)

lemma length_concat_le: "(\<And>x. x \<in> set xs \<Longrightarrow> length (f x) \<le> k) \<Longrightarrow> length (concat (map f xs)) \<le> length xs * k"
  by (induction xs) (auto intro: add_mono)

lemma enc_leaf_fits:
  assumes "list_all record_ok rs" "length rs \<le> leaf_max"
  shows "length (enc_leaf d rs) \<le> max_frame"
proof -
  have "length (concat (map enc_record rs)) \<le> length rs * (36 + value_max)"
    using assms(1) by (intro length_concat_le length_enc_record) (simp add: list_all_iff)
  also have "\<dots> \<le> leaf_max * (36 + value_max)" using assms(2) by (rule mult_le_mono1)
  finally show ?thesis by (simp add: enc_leaf_def leaf_max_def value_max_def max_frame_def)
qed

lemma enc_interior_fits:
  assumes "list_all child_on_disk cs" "length cs = fanout"
  shows "length (enc_interior d cs) \<le> max_frame"
proof -
  have "length (concat (map enc_child cs)) \<le> length cs * 52"
    using assms(1) by (intro length_concat_le) (auto simp: list_all_iff enc_child_def child_on_disk_def)
  with assms(2) show ?thesis
    by (simp add: enc_interior_def present_bytes_bit fanout_def max_frame_def)
qed

text \<open>Writing a node whose children are in the file.\<close>

lemma save_node_holds:
  assumes j: "journal_ok j" "sj_max_frame j = max_frame" "sj_bytes j < 2 ^ 64 - 1"
    and n: "node_holds C (frame_at j) d n rs" "encode n = Inr bytes" "length bytes \<le> max_frame"
      "decode C bytes False = Inr n"
  obtains c j' where "save_node n j = (Inr c, j')" "holds C (frame_at j') d c rs" "ch_offset c \<noteq> unsaved"
    "ch_node c = None"
proof -
  obtain j' where j': "append_unsynced bytes j = (Inr (sj_bytes j), j')" "frame_at j' (sj_bytes j) bytes"
    "\<And>off q. frame_at j off q \<Longrightarrow> frame_at j' off q"
    by (rule append_unsynced_stores[OF j(1), of bytes]) (use j(2) n(3) in auto)
  let ?off = "of_nat (sj_bytes j) :: u64"
  have "node_holds C (frame_at j') d n rs" by (rule holds_mono(2)[OF j'(3) n(1)])
  moreover have "frame_at j' (unat ?off) bytes" using j'(2) by (simp add: offset_ok[OF j(3)])
  ultimately have "holds C (frame_at j') d
      (Child ?off (of_nat (sj_bytes j' - sj_bytes j)) (nd_count n) (nd_hash n) None) rs"
    using n(4) offset_ok(2)[OF j(3)] by (intro holds_node) auto
  moreover have "save_node n j =
      (Inr (Child ?off (of_nat (sj_bytes j' - sj_bytes j)) (nd_count n) (nd_hash n) None), j')"
    using n(2) j'(1) by (simp add: save_node_def bindM_def)
  ultimately show thesis using that offset_ok(2)[OF j(3)] by simp
qed

lemma release_holds:
  assumes "crypto_ok C" "holds C S d c rs" "in_file c"
  shows "holds C S d (release_node c) rs" "child_on_disk (release_node c)"
proof (atomize (full), cases "rs = []")
  case True
  then have "c = empty_child" using holds_empty_iff(2)[OF assms(2)] by simp
  with True show "holds C S d (release_node c) rs \<and> child_on_disk (release_node c)"
    by (simp add: release_node_def empty_child_def[symmetric] child_on_disk_def)
       (simp add: empty_child_def holds_empty[unfolded empty_child_def])
next
  case False
  obtain off sz n m where c: "c = Child off sz (nd_count n) (nd_hash n) m" "node_holds C S d n rs"
    "off \<noteq> unsaved \<longrightarrow> (\<exists>bytes. S (unat off) bytes \<and> decode C bytes False = Inr n)"
    using holds_nodeE[OF assms(2) False] by metis
  have ne: "\<not> child_empty c" using holds_empty_iff(1)[OF assms(2)] False by simp
  then have off: "off \<noteq> unsaved" using assms(3) c(1) by (simp add: in_file_def)
  have "holds C S d (Child off sz (nd_count n) (nd_hash n) None) rs"
    using c off by (intro holds_node) auto
  moreover have "length (nd_hash n) = 32"
    using holds_summary(2)[OF c(2)] length_trie_digest[OF assms(1)] by simp
  ultimately show "holds C S d (release_node c) rs \<and> child_on_disk (release_node c)"
    using ne off c(1) by (simp add: release_node_def child_on_disk_def child_empty_def)
qed

section \<open>Saving\<close>

definition file_ok :: "SealedJournal \<Rightarrow> bool" where
  "file_ok j \<longleftrightarrow> journal_ok j \<and> sj_max_frame j = max_frame"

lemma grows_file_ok: "grows j j' \<Longrightarrow> file_ok j \<Longrightarrow> file_ok j'"
  by (simp add: grows_def file_ok_def)

lemma grows_holds: "grows j j' \<Longrightarrow> holds C (frame_at j) d c rs \<Longrightarrow> holds C (frame_at j') d c rs"
  by (erule holds_mono(1)[rotated]) (simp add: grows_def)

text \<open>What \<open>save\<close> promises of a child, for a file that ends below the last offset.\<close>

definition saves :: "crypto \<Rightarrow> nat \<Rightarrow> Child \<Rightarrow> Record list \<Rightarrow> bool" where
  "saves C d c rs \<longleftrightarrow> (\<forall>j r j'. file_ok j \<longrightarrow> holds C (frame_at j) d c rs \<longrightarrow> save C c j = (r, j') \<longrightarrow>
     sj_bytes j' < 2 ^ 64 - 1 \<longrightarrow> (\<exists>c'. r = Inr c' \<and> holds C (frame_at j') d c' rs \<and> in_file c'))"

lemma savesD:
  "saves C d c rs \<Longrightarrow> file_ok j \<Longrightarrow> holds C (frame_at j) d c rs \<Longrightarrow> save C c j = (r, j') \<Longrightarrow>
   sj_bytes j' < 2 ^ 64 - 1 \<Longrightarrow> \<exists>c'. r = Inr c' \<and> holds C (frame_at j') d c' rs \<and> in_file c'"
  unfolding saves_def by blast

lemma list_all2_holds_grows:
  "grows j j' \<Longrightarrow> list_all2 (holds C (frame_at j) d) cs rss \<Longrightarrow> list_all2 (holds C (frame_at j') d) cs rss"
  by (erule list_all2_mono) (rule grows_holds)

lemma save_children_holds:
  assumes "crypto_ok C" "list_all2 (saves C d) cs rss" "file_ok j"
    "list_all2 (holds C (frame_at j) d) cs rss" "save_children C cs j = (r, j')" "sj_bytes j' < 2 ^ 64 - 1"
  shows "\<exists>cs'. r = Inr cs' \<and> list_all child_on_disk cs' \<and> list_all2 (holds C (frame_at j') d) cs' rss"
  using assms(2-)
proof (induction cs rss arbitrary: j r j' rule: list_all2_induct)
  case (Cons c cs rs rss)
  obtain r1 j1 where s1: "save C c j = (r1, j1)" by fastforce
  obtain r2 j2 where s2: "save_children C cs j1 = (r2, j2)" by fastforce
  have g1: "grows j j1" using save_grows(1)[of j C c] Cons.prems(1) s1 by (simp add: file_ok_def)
  have g2: "grows j1 j2" using save_grows(2)[of j1 C cs] grows_ok[OF g1] s2 by simp
  have "j' = j1 \<or> j' = j2" using Cons.prems(3) s1 s2 by (auto simp: bindM_def split: sum.splits)
  then have b1: "sj_bytes j1 < 2 ^ 64 - 1" using Cons.prems(4) g2 by (auto simp: grows_def)
  from savesD[OF Cons.hyps(1) Cons.prems(1) _ s1 b1] Cons.prems(2) obtain c' where
    c': "r1 = Inr c'" "holds C (frame_at j1) d c' rs" "in_file c'" by auto
  then have eq: "j' = j2" "r = (case r2 of Inl e \<Rightarrow> Inl e | Inr cs' \<Rightarrow> Inr (release_node c' # cs'))"
    using Cons.prems(3) s1 s2 by (auto simp: bindM_def split: sum.splits)
  have "list_all2 (holds C (frame_at j1) d) cs rss"
    using Cons.prems(2) list_all2_holds_grows[OF g1] by simp
  from Cons.IH[OF grows_file_ok[OF g1 Cons.prems(1)] this s2] Cons.prems(4) eq(1) obtain cs' where
    "r2 = Inr cs'" "list_all child_on_disk cs'" "list_all2 (holds C (frame_at j2) d) cs' rss" by blast
  moreover have "holds C (frame_at j2) d (release_node c') rs" "child_on_disk (release_node c')"
    using release_holds[OF assms(1) grows_holds[OF g2 c'(2)] c'(3)] by auto
  ultimately show ?case using eq by simp
qed simp

lemma save_leaf:
  assumes "node_holds C (frame_at j) d n rs" "nd_leaf n" "file_ok j" "sj_bytes j < 2 ^ 64 - 1"
  obtains c j' where "save_node n j = (Inr c, j')" "holds C (frame_at j') d c rs" "ch_offset c \<noteq> unsaved"
  using assms(1)
proof (cases rule: node_holds.cases)
  case node_leaf
  have ok: "list_all record_ok rs" using segment_okD(1)[OF node_leaf(2)] by (simp add: records_ok_def)
  have "decode C (enc_leaf d rs) False = Inr n"
    using decode_encode_leaf[OF node_leaf(5) segment_okD(1)[OF node_leaf(2)] node_leaf(3,4), of C] node_leaf(1)
    by (simp add: make_leaf_ok[OF ok])
  then show thesis
    using save_node_holds[OF _ _ assms(4,1) _ enc_leaf_fits[OF ok node_leaf(4), of d]] assms(3) node_leaf(1)
      encode_leaf[OF ok] that unfolding file_ok_def by metis
qed (use assms(2) in \<open>simp add: make_interior_def\<close>)

lemma save_interior:
  assumes "segment_ok d rs" "leaf_max < length rs" "list_all child_on_disk cs"
    "list_all2 (holds C (frame_at j) (d + 1)) cs (map (\<lambda>i. slot d i rs) [0..<fanout])"
    "file_ok j" "sj_bytes j < 2 ^ 64 - 1"
  obtains c j' where "save_node (make_interior C d cs) j = (Inr c, j')" "holds C (frame_at j') d c rs"
    "ch_offset c \<noteq> unsaved"
proof -
  have len: "length cs = fanout" using list_all2_lengthD[OF assms(4)] by simp
  have h: "holds C (frame_at j) (d + 1) (cs ! i) (slot d i rs)" if "i < fanout" for i
    using list_all2_nthD[OF assms(4), of i] that len by simp
  have n: "node_holds C (frame_at j) d (make_interior C d cs) rs" by (rule node_interior[OF assms(1,2) len h])
  have d: "d < 32" using segment_interior_depth[OF assms(1,2)] by simp
  have "unat (nd_count (make_interior C d cs)) > leaf_max"
    using holds_summary(2)[OF n] unat_length_u64[OF segment_okD(3)[OF assms(1)]] assms(2) by simp
  then have dec: "decode C (enc_interior d cs) False = Inr (make_interior C d cs)"
    by (rule decode_encode_interior[OF d assms(3) len])
  have enc: "encode (make_interior C d cs) = Inr (enc_interior d cs)"
    using encode_interior[OF assms(3)] by (simp add: make_interior_def)
  show thesis
    using save_node_holds[OF _ _ assms(6) n enc enc_interior_fits[OF assms(3) len] dec] assms(5) that
    unfolding file_ok_def by metis
qed

lemma save_unsaved_interior:
  assumes "crypto_ok C" "\<And>c rs. saves C (d + 1) c rs" "file_ok j" "nd_count (make_interior C d cs) \<noteq> 0"
    and seg: "segment_ok d rs" "leaf_max < length rs" "length cs = fanout"
      "\<And>i. i < fanout \<Longrightarrow> holds C (frame_at j) (d + 1) (cs ! i) (slot d i rs)"
    and s: "save C (Child unsaved sz (nd_count (make_interior C d cs)) h (Some (make_interior C d cs))) j = (r, j')"
      "sj_bytes j' < 2 ^ 64 - 1"
  shows "\<exists>c'. r = Inr c' \<and> holds C (frame_at j') d c' rs \<and> in_file c'"
proof -
  let ?rss = "map (\<lambda>i. slot d i rs) [0..<fanout]"
  have hs: "list_all2 (holds C (frame_at j) (d + 1)) cs ?rss"
    using seg(3,4) by (simp add: list_all2_conv_all_nth)
  have sv: "list_all2 (saves C (d + 1)) cs ?rss" using seg(3) assms(2) by (simp add: list_all2_conv_all_nth)
  obtain r1 j1 where s1: "save_children C cs j = (r1, j1)" by fastforce
  have g: "grows j j1" using save_grows(2)[of j C cs] assms(3) s1 by (simp add: file_ok_def)
  have eq: "bindM (save_children C cs) (\<lambda>saved. save_node (make_interior C d saved)) j = (r, j')"
    using s(1) assms(4) by (simp add: make_interior_def)
  have "grows j1 (snd (save_node n j1))" for n by (rule save_node_grows[OF grows_ok[OF g]])
  then have b1: "sj_bytes j1 < 2 ^ 64 - 1"
    using eq s1 s(2) by (auto simp: bindM_def grows_def split: sum.splits) (metis le_less_trans snd_conv)
  from save_children_holds[OF assms(1) sv assms(3) hs s1 b1] obtain cs' where
    cs': "r1 = Inr cs'" "list_all child_on_disk cs'" "list_all2 (holds C (frame_at j1) (d + 1)) cs' ?rss" by blast
  from save_interior[OF seg(1,2) cs'(2,3) grows_file_ok[OF g assms(3)] b1] show ?thesis
    using eq s1 cs'(1) by (auto simp: bindM_def in_file_def)
qed

lemma save_saves:
  assumes "crypto_ok C" "d \<le> 32"
  shows "saves C d c rs"
  using assms(2)
proof (induction "33 - d" arbitrary: d c rs rule: less_induct)
  case (less d c rs)
  show ?case
    unfolding saves_def
  proof (intro allI impI)
    fix j r j' assume j: "file_ok j" and h: "holds C (frame_at j) d c rs" and s: "save C c j = (r, j')"
      and b: "sj_bytes j' < 2 ^ 64 - 1"
    have "grows j j'" using save_grows(1)[of j C c] j s by (simp add: file_ok_def)
    then have bj: "sj_bytes j < 2 ^ 64 - 1" using b by (simp add: grows_def)
    show "\<exists>c'. r = Inr c' \<and> holds C (frame_at j') d c' rs \<and> in_file c'"
    proof (cases "in_file c")
      case True
      then have "save C c j = (Inr c, j)" by (cases c) (auto simp: in_file_def child_empty_def)
      with s h True show ?thesis by auto
    next
      case False
      then have "rs \<noteq> []" using holds_empty_iff(1)[OF h] by (simp add: in_file_def)
      from holds_nodeE[OF h this] obtain n sz off m where c': "c = Child off sz (nd_count n) (nd_hash n) m"
        and n: "node_holds C (frame_at j) d n rs" and m: "m = Some n \<or> m = None \<and> off \<noteq> unsaved" by metis
      have c: "c = Child unsaved sz (nd_count n) (nd_hash n) (Some n)"
        using False m unfolding in_file_def c' by simp
      have cnt: "nd_count n \<noteq> 0" using False c by (simp add: in_file_def child_empty_def)
      from n show ?thesis
      proof (cases rule: node_holds.cases)
        case node_leaf
        then have leaf: "nd_leaf n" by simp
        then have "save C c j = save_node n j" using c cnt by (cases n) simp
        with save_leaf[OF n leaf j bj] s show ?thesis by (metis Pair_inject in_file_def)
      next
        case i: (node_interior cs)
        have "d < 31" by (rule segment_interior_depth[OF i(2,3)])
        then have "saves C (d + 1) c rs" for c rs using less.hyps[of "d + 1"] by simp
        from save_unsaved_interior[OF assms(1) this j _ i(2-5)] s b cnt c i(1) show ?thesis by blast
      qed
    qed
  qed
qed

section \<open>How much is written\<close>

definition node_bytes :: nat where
  "node_bytes = frame_header + max_frame"

text \<open>Every record is in at most one node of each depth.\<close>

definition save_bound :: "nat \<Rightarrow> nat \<Rightarrow> nat" where
  "save_bound d n = (33 - d) * n * node_bytes"

lemma save_bound_add: "save_bound d (m + n) = save_bound d m + save_bound d n"
  by (simp add: save_bound_def add_mult_distrib add_mult_distrib2)

lemma append_unsynced_bytes:
  assumes "file_ok j"
  shows "sj_bytes (snd (append_unsynced p j)) \<le> sj_bytes j + node_bytes"
proof (cases "length p \<le> sj_max_frame j")
  case True
  with assms show ?thesis by (simp add: append_unsynced_ok file_ok_def node_bytes_def)
next
  case False
  with assms show ?thesis by (simp add: append_unsynced_too_large file_ok_def)
qed

lemma save_node_bytes:
  assumes "file_ok j"
  shows "sj_bytes (snd (save_node n j)) \<le> sj_bytes j + node_bytes"
  using append_unsynced_bytes[OF assms]
  by (auto simp: save_node_def bindM_def split: sum.splits prod.splits) (metis snd_conv)+

lemma save_children_bytes:
  assumes "list_all2 (\<lambda>c rs. \<forall>j. file_ok j \<longrightarrow> sj_bytes (snd (save C c j)) \<le> sj_bytes j + save_bound d (length rs)) cs rss"
    "file_ok j"
  shows "sj_bytes (snd (save_children C cs j)) \<le> sj_bytes j + save_bound d (sum_list (map length rss))"
  using assms
proof (induction cs rss arbitrary: j rule: list_all2_induct)
  case (Cons c cs rs rss)
  obtain r1 j1 where s1: "save C c j = (r1, j1)" by fastforce
  obtain r2 j2 where s2: "save_children C cs j1 = (r2, j2)" by fastforce
  have "file_ok j1" using grows_file_ok[OF _ Cons.prems] save_grows(1)[of j C c] Cons.prems s1 by (simp add: file_ok_def)
  with Cons.IH[of j1] s2 have b2: "sj_bytes j2 \<le> sj_bytes j1 + save_bound d (sum_list (map length rss))" by simp
  have b1: "sj_bytes j1 \<le> sj_bytes j + save_bound d (length rs)" using Cons.hyps(1) Cons.prems s1 by fastforce
  have "snd (save_children C (c # cs) j) = j1 \<or> snd (save_children C (c # cs) j) = j2"
    using s1 s2 by (auto simp: bindM_def split: sum.splits)
  then have "sj_bytes (snd (save_children C (c # cs) j)) \<le> max (sj_bytes j1) (sj_bytes j2)" by auto
  with b1 b2 show ?case by (simp add: save_bound_add del: save_children.simps)
qed simp

lemma save_bytes:
  "holds C S d c rs \<Longrightarrow> d \<le> 32 \<Longrightarrow> file_ok j \<Longrightarrow>
     sj_bytes (snd (save C c j)) \<le> sj_bytes j + save_bound d (length rs)"
  "node_holds C S d n rs \<Longrightarrow> file_ok j \<Longrightarrow>
     sj_bytes (snd (save C (Child unsaved sz (nd_count n) h (Some n)) j)) \<le> sj_bytes j + save_bound d (length rs)"
proof (induction arbitrary: j and j sz h rule: holds_node_holds.inducts)
  case (holds_empty d)
  then show ?case by (simp add: empty_child_def)
next
  case (holds_node d n rs m off sz)
  then show ?case by (cases "off = unsaved") auto
next
  case (node_leaf d rs)
  have "1 * 1 \<le> (33 - d) * length rs" using node_leaf(2,4) by (intro mult_le_mono) (auto simp: Suc_le_eq)
  then have "node_bytes \<le> save_bound d (length rs)" by (simp add: save_bound_def)
  then show ?case by (auto intro!: order_trans[OF save_node_bytes[OF node_leaf(5)]])
next
  case (node_interior d rs cs)
  have d: "d < 31" by (rule segment_interior_depth[OF node_interior(1,2)])
  then have d32: "d < 32" by simp
  let ?rss = "map (\<lambda>i. slot d i rs) [0..<fanout]"
  have len: "sum_list (map length ?rss) = length rs"
    by (metis length_concat concat_slots[OF node_interior(1) d32])
  have "list_all2 (\<lambda>c rs. \<forall>j. file_ok j \<longrightarrow> sj_bytes (snd (save C c j)) \<le> sj_bytes j + save_bound (d + 1) (length rs)) cs ?rss"
    using node_interior(3,5) d by (simp add: list_all2_conv_all_nth)
  from save_children_bytes[OF this node_interior(6)]
  have b1: "sj_bytes (snd (save_children C cs j)) \<le> sj_bytes j + save_bound (d + 1) (length rs)" by (simp only: len)
  have "file_ok (snd (save_children C cs j))"
    using grows_file_ok[OF _ node_interior(6)] save_grows(2)[of j C cs] node_interior(6) by (simp add: file_ok_def)
  from save_node_bytes[OF this] have b2: "sj_bytes (snd (save_node n (snd (save_children C cs j)))) \<le>
      sj_bytes (snd (save_children C cs j)) + node_bytes" for n .
  have "save_bound (d + 1) (length rs) + node_bytes \<le> save_bound d (length rs)"
  proof -
    have "33 - d = Suc (33 - (d + 1))" using d by simp
    then have "save_bound d (length rs) = save_bound (d + 1) (length rs) + length rs * node_bytes"
      unfolding save_bound_def by (simp only: mult_Suc add_mult_distrib add.commute)
    moreover have "1 \<le> length rs" using node_interior(2) by linarith
    then have "1 * node_bytes \<le> length rs * node_bytes" by (rule mult_le_mono1)
    ultimately show ?thesis by simp
  qed
  moreover obtain r1 j1 where s1: "save_children C cs j = (r1, j1)" by fastforce
  ultimately have b: "sj_bytes j1 \<le> sj_bytes j + save_bound d (length rs)"
    "sj_bytes (snd (save_node n j1)) \<le> sj_bytes j + save_bound d (length rs)" for n
    using b1 b2[of n] by simp_all
  have "snd (save C (Child unsaved sz (nd_count (make_interior C d cs)) h (Some (make_interior C d cs))) j) \<in>
      {j, j1} \<union> range (\<lambda>n. snd (save_node n j1))"
    using s1 by (auto simp: make_interior_def bindM_def split: sum.splits)
  with b show ?case by auto
qed

end
