(* ===== verification/Trie_Ledger.thy ===== *)
theory Trie_Ledger
  imports Trie_Save
begin

text \<open>
  The object trie as a store of records. \<open>represents F t rs\<close> says that the trie \<open>t\<close> stands for the
  sorted records \<open>rs\<close>, with the node files as \<open>F\<close> has them. Installing changes, the checkpoints
  they trigger and the rewrite of the node file a checkpoint may do all keep it, with the records
  changed as \<open>merge_changes\<close> says; none of them throws.
\<close>

section \<open>What a trie stands for\<close>

definition represents :: "node_files \<Rightarrow> ObjectTrie \<Rightarrow> Record list \<Rightarrow> bool" where
  "represents F t rs \<longleftrightarrow> trie_ready F t \<and> cache_coherent (ot_crypto t) F (ot_cache t) \<and>
     file_ok (ot_nodes t) \<and> file_ok (ot_journal t) \<and> crypto_ok (ot_crypto t) \<and> (\<forall>g i. length (ot_nonces t g i) = 12) \<and>
     (\<forall>g. ot_generation t < g \<longrightarrow> F g = (\<lambda>_ _. False)) \<and>
     holds (ot_crypto t) (F (ot_generation t)) 0 (ot_root t) rs"

lemma trie_reading_self:
  "trie_reading F t t \<longleftrightarrow> trie_ready F t \<and> cache_coherent (ot_crypto t) F (ot_cache t)"
  by (simp add: trie_reading_def)

lemma representsD:
  assumes "represents F t rs"
  shows "trie_reading F t t" "file_ok (ot_nodes t)" "crypto_ok (ot_crypto t)"
    "holds (ot_crypto t) (F (ot_generation t)) 0 (ot_root t) rs" "F (ot_generation t) = frame_at (ot_nodes t)"
    "segment_ok 0 rs" "file_ok (ot_journal t)"
  using assms holds_segment by (auto simp: represents_def trie_reading_self trie_ready_def)

text \<open>The state after reading, with a root that holds the records \<open>rs'\<close>.\<close>

lemma represents_reading:
  assumes "represents F t rs" "trie_reading F t t'" "holds (ot_crypto t) (F (ot_generation t)) 0 c rs'"
  shows "represents F (t'\<lparr>ot_root := c\<rparr>) rs'"
proof -
  obtain x y where eq: "t' = t\<lparr>ot_cache := x, ot_superseded_bytes := y\<rparr>"
    and co: "cache_coherent (ot_crypto t) F (ot_cache t')"
    using assms(2) unfolding trie_reading_def by blast
  then show ?thesis
    using assms(1,3) unfolding eq by (simp add: represents_def trie_ready_def)
qed

text \<open>Room for a checkpoint: offsets and generations do not overflow.\<close>

definition room :: "ObjectTrie \<Rightarrow> Record list \<Rightarrow> bool" where
  "room t rs \<longleftrightarrow> sj_bytes (ot_nodes t) < 2 ^ 62 \<and> length rs \<le> 2 ^ 32 \<and> ot_generation t \<noteq> - 1"

lemma save_bound_room: "n \<le> 2 ^ 32 \<Longrightarrow> save_bound 0 n < 2 ^ 60"
proof -
  assume "n \<le> 2 ^ 32"
  then have "save_bound 0 n \<le> 33 * 2 ^ 32 * node_bytes" by (simp add: save_bound_def)
  also have "\<dots> < 2 ^ 60" by (simp add: node_bytes_def frame_header_def max_frame_def)
  finally show ?thesis .
qed

section \<open>Changing\<close>

lemma apply_unjournaled_represents:
  assumes "represents F t rs" "changes_ok changes" "segment_ok 0 (merge_changes rs changes)"
  shows "\<exists>t'. apply_unjournaled changes t = (Inr (), t') \<and> represents F t' (merge_changes rs changes) \<and>
    ot_nodes t' = ot_nodes t \<and> ot_generation t' = ot_generation t"
proof -
  have "changes_prefix 0 changes" by (simp add: changes_prefix_def)
  from mutate_holds[OF representsD(1,4)[OF assms(1)] _ assms(2) this assms(3)] obtain c t' where
    m: "mutate 0 (ot_root t) changes t = (Inr c, t')" "trie_reading F t t'"
    "holds (ot_crypto t) (F (ot_generation t)) 0 c (merge_changes rs changes)" by auto
  have "represents F (t'\<lparr>ot_root := c\<rparr>) (merge_changes rs changes)"
    by (rule represents_reading[OF assms(1) m(2,3)])
  with m(1) trie_readingD[OF m(2)] show ?thesis by (simp add: apply_unjournaled_def bindM_def)
qed

section \<open>Checkpoints\<close>

lemma sync_frames [simp]: "frame_at (j\<lparr>sj_durable := n\<rparr>) = frame_at j"
  by (simp add: frame_at_def fun_eq_iff)

lemma drop_node_release:
  assumes "holds C S d c rs" "in_file c"
  shows "drop_node c = release_node c"
proof (cases "rs = []")
  case True
  then have "c = empty_child" using holds_empty_iff(2)[OF assms(1)] by simp
  then show ?thesis by (simp add: drop_node_def release_node_def empty_child_def)
next
  case False
  then have "ch_offset c \<noteq> unsaved" using assms holds_empty_iff(1)[OF assms(1)] by (simp add: in_file_def)
  then show ?thesis by (simp add: drop_node_def release_node_def)
qed

lemma checkpoint_save_represents:
  assumes "represents F t rs" "room t rs"
  shows "\<exists>F' t'. checkpoint_save t = (Inr (), t') \<and> represents F' t' rs \<and> in_file (ot_root t') \<and>
    ot_generation t' = ot_generation t"
proof -
  let ?C = "ot_crypto t"
  note r = representsD[OF assms(1)]
  obtain res j where s: "save ?C (ot_root t) (ot_nodes t) = (res, j)" by fastforce
  have h: "holds ?C (frame_at (ot_nodes t)) 0 (ot_root t) rs" using r(4,5) by simp
  have g: "grows (ot_nodes t) j" using save_grows(1)[of "ot_nodes t" ?C "ot_root t"] r(2) s by (simp add: file_ok_def)
  have "sj_bytes j \<le> sj_bytes (ot_nodes t) + save_bound 0 (length rs)"
    using save_bytes(1)[OF h _ r(2)] s by simp
  then have b: "sj_bytes j < 2 ^ 64 - 1"
    using assms(2) save_bound_room[of "length rs"] by (simp add: room_def)
  from savesD[OF save_saves[OF r(3)] r(2) h s b] obtain c where
    c: "res = Inr c" "holds ?C (frame_at j) 0 c rs" "in_file c" by auto
  have drop: "holds ?C (frame_at j) 0 (drop_node c) rs" "in_file (drop_node c)"
    using release_holds(1)[OF r(3) c(2,3)] c(3)
    by (simp_all add: drop_node_release[OF c(2,3)]) (auto simp: release_node_def in_file_def child_empty_def)
  let ?F = "F(ot_generation t := frame_at j)"
  have mono: "F g off p \<Longrightarrow> ?F g off p" for g off p using g r(5) by (auto simp: grows_def)
  have "cache_coherent ?C F (ot_cache t)" using r(1) by (simp add: trie_reading_self)
  then have co: "cache_coherent ?C ?F (ot_cache t)" by (rule cache_coherent_mono[OF _ mono])
  have j: "file_ok (j\<lparr>sj_durable := length (sj_file j)\<rparr>)"
    using grows_file_ok[OF g r(2)] by (simp add: file_ok_def journal_ok_def)
  obtain live where t': "checkpoint_save t = (Inr (), t\<lparr>ot_nodes := j\<lparr>sj_durable := length (sj_file j)\<rparr>,
      ot_live_bytes := live, ot_superseded_bytes := 0, ot_root := drop_node c\<rparr>)" (is "_ = (_, ?t')")
    using s c(1) by (simp add: checkpoint_save_def zoomM_apply bindM_def journal_sync_def Let_def)
  have "represents ?F ?t' rs"
    using assms(1) drop(1) co j by (auto simp: represents_def trie_ready_def file_ok_def)
  with t' drop(2) show ?thesis by fastforce
qed

lemma publish_root_represents:
  "represents F t rs \<Longrightarrow> \<exists>t'. publish_root t = (Inr (), t') \<and> represents F t' rs \<and>
     ot_root t' = ot_root t \<and> ot_generation t' = ot_generation t"
  by (auto simp: publish_root_def represents_def trie_ready_def)

lemma checkpoint_reset_represents:
  "represents F t rs \<Longrightarrow> \<exists>t'. checkpoint_reset t = (Inr (), t') \<and> represents F t' rs \<and>
     ot_root t' = ot_root t \<and> ot_generation t' = ot_generation t"
  by (auto simp: checkpoint_reset_def represents_def trie_ready_def file_ok_def journal_ok_def journal_reset_def)

text \<open>Loading the root's node gives the node the file has for it.\<close>

lemma load_root_represents:
  assumes "represents F t rs" "in_file (ot_root t)"
  shows "\<exists>t'. load_root t = (Inr (), t') \<and> represents F t' rs \<and> in_file (ot_root t') \<and>
    ot_generation t' = ot_generation t"
proof (cases "rs = []")
  case True
  with assms holds_empty_iff(1)[OF representsD(4)[OF assms(1)]] show ?thesis by (simp add: load_root_def)
next
  case False
  let ?C = "ot_crypto t" and ?S = "F (ot_generation t)"
  note r = representsD[OF assms(1)]
  have ne: "\<not> child_empty (ot_root t)" using holds_empty_iff(1)[OF r(4)] False by simp
  then have off: "ch_offset (ot_root t) \<noteq> unsaved" using assms(2) by (simp add: in_file_def)
  from trie_load_holds[OF r(1,4) False] off obtain n t' where
    n: "trie_load (ot_root t) t = (Inr n, t')" "trie_reading F t t'" "node_holds ?C ?S 0 n rs"
      "stored_node ?C ?S (ch_offset (ot_root t)) n" by blast
  have sm: "ch_count (ot_root t) = nd_count n" "ch_hash (ot_root t) = nd_hash n"
    using holds_summary(1)[OF r(4)] holds_summary(2)[OF n(3)] by (simp_all add: child_summary_def trie_summary_def)
  let ?c = "Child (ch_offset (ot_root t)) (ch_size (ot_root t)) (nd_count n) (nd_hash n) (Some n)"
  have "holds ?C ?S 0 ?c rs" using n(3,4) by (intro holds_node) (auto simp: stored_node_def)
  then have "represents F (t'\<lparr>ot_root := ?c\<rparr>) rs" by (rule represents_reading[OF assms(1) n(2)])
  moreover have "load_root t = (Inr (), t'\<lparr>ot_root := ?c\<rparr>)"
    using n(1) ne trie_readingD(6)[OF n(2)] sm by (cases "ot_root t") (simp add: load_root_def bindM_def)
  ultimately show ?thesis using off trie_readingD(3)[OF n(2)] by (auto simp: in_file_def)
qed

section \<open>Rewriting the node file\<close>

lemma mapM_list_all2:
  assumes "good s" "\<And>i s. i < length xs \<Longrightarrow> good s \<Longrightarrow> \<exists>y s'. f (xs ! i) s = (Inr y, s') \<and> good s' \<and> Q i y"
  shows "\<exists>ys s'. mapM f xs s = (Inr ys, s') \<and> good s' \<and> length ys = length xs \<and> (\<forall>i < length xs. Q i (ys ! i))"
  using assms
proof (induction xs arbitrary: s Q)
  case (Cons x xs)
  obtain y s1 where y: "f x s = (Inr y, s1)" "good s1" "Q 0 y" using Cons.prems(2)[of 0 s] Cons.prems(1) by auto
  have "\<exists>y s'. f (xs ! i) s = (Inr y, s') \<and> good s' \<and> Q (Suc i) y" if "i < length xs" "good s" for i s
    using Cons.prems(2)[of "Suc i" s] that by simp
  from Cons.IH[where Q = "\<lambda>i. Q (Suc i)", OF y(2) this] obtain ys s2 where
    ys: "mapM f xs s1 = (Inr ys, s2)" "good s2" "length ys = length xs" "\<forall>i < length xs. Q (Suc i) (ys ! i)"
    by blast
  have "mapM f (x # xs) s = (Inr (y # ys), s2)" using y(1) ys(1) by (simp add: bindM_def)
  moreover have "\<forall>i < length (x # xs). Q i ((y # ys) ! i)" using y(3) ys(4) by (simp add: All_less_Suc2)
  ultimately show ?case using ys(2,3) by (metis length_Cons)
qed simp

text \<open>The copy is all in memory: it holds the records whatever the file is.\<close>

lemma copy_trie_holds:
  assumes "trie_reading F t0 t" "holds (ot_crypto t0) (F (ot_generation t0)) d c rs" "33 \<le> fuel + d" "d \<le> 32"
  shows "\<exists>c' t'. copy_trie fuel c t = (Inr c', t') \<and> trie_reading F t0 t' \<and> (\<forall>S. holds (ot_crypto t0) S d c' rs)"
  using assms
proof (induction fuel arbitrary: d c rs t)
  case (Suc fuel)
  show ?case
  proof (cases "rs = []")
    case True
    with Suc.prems holds_empty_iff(1)[OF Suc.prems(2)] show ?thesis by (auto intro: holds_empty)
  next
    case False
    have ne: "\<not> child_empty c" using holds_empty_iff(1)[OF Suc.prems(2)] False by simp
    obtain n t1 where n: "trie_load c t = (Inr n, t1)" "trie_reading F t0 t1"
      "node_holds (ot_crypto t0) (F (ot_generation t0)) d n rs"
      by (rule trie_reader.loadE[OF Suc.prems(1,2) False])
    note crypto = trie_readingD(1)[OF n(2)]
    from n(3) show ?thesis
    proof (cases rule: node_holds.cases)
      case node_leaf
      have ok: "list_all record_ok rs" using segment_okD(1)[OF node_leaf(2)] by (simp add: records_ok_def)
      have "holds (ot_crypto t0) S d (child_of n) rs" for S
        unfolding node_leaf(1) by (rule holds_child_of[OF holds_node_holds.node_leaf[OF node_leaf(2-5)]])
      with node_leaf(1) n ne crypto show ?thesis by (simp add: bindM_def make_leaf_ok[OF ok])
    next
      case i: (node_interior cs)
      have d: "d < 31" by (rule segment_interior_depth[OF i(2,3)])
      have "\<exists>c' t'. copy_trie fuel (cs ! j) t = (Inr c', t') \<and> trie_reading F t0 t' \<and>
          (\<forall>S. holds (ot_crypto t0) S (d + 1) c' (slot d j rs))"
        if "j < length cs" "trie_reading F t0 t" for j t
        using Suc.IH[OF that(2) i(5)] that(1) i(4) Suc.prems(3) d by simp
      from mapM_list_all2[where good = "trie_reading F t0" and f = "copy_trie fuel" and
          Q = "\<lambda>j c'. \<forall>S. holds (ot_crypto t0) S (d + 1) c' (slot d j rs)", OF n(2) this] i(4)
      obtain cs' t2 where cs': "mapM (copy_trie fuel) cs t1 = (Inr cs', t2)" "trie_reading F t0 t2"
        "length cs' = fanout" "\<forall>j < fanout. \<forall>S. holds (ot_crypto t0) S (d + 1) (cs' ! j) (slot d j rs)" by auto
      then have "node_holds (ot_crypto t0) S d (make_interior (ot_crypto t0) d cs') rs" for S
        by (intro holds_node_holds.node_interior[OF i(2,3)]) auto
      then have "holds (ot_crypto t0) S d (child_of (make_interior (ot_crypto t0) d cs')) rs" for S
        by (rule holds_child_of)
      moreover have "copy_trie (Suc fuel) c t = (Inr (child_of (make_interior (ot_crypto t0) d cs')), t2)"
        using n(1) ne crypto i(1) cs'(1) by (simp add: bindM_def make_interior_def)
      ultimately show ?thesis using cs'(2) by blast
    qed
  qed
qed simp


lemma fresh_file:
  assumes "crypto_ok C" "\<And>i. length (nonces i) = 12"
  shows "file_ok (SealedJournal_open C nonces key aad max_frame [])"
  using assms by (simp add: file_ok_def journal_ok_def SealedJournal_open_def max_frame_def)

text \<open>A cache has nothing of a generation that has no file yet.\<close>

lemma cache_coherent_fresh:
  assumes "cache_coherent C F cache" "F g = (\<lambda>_ _. False)"
  shows "cache_coherent C (F(g := S)) (cache_drop_generation g' cache)"
proof -
  have inv: "cache_inv cache" using assms(1) by (simp add: cache_coherent_def)
  have "stored_node C ((F(g := S)) g0) off (cd_node cd)"
    if "((g0, off), cd) \<in> set (nc_entries cache)" for g0 off cd
  proof -
    have st: "stored_node C (F g0) off (cd_node cd)" using assms(1) that unfolding cache_coherent_def by blast
    then have "g0 \<noteq> g" using assms(2) by (auto simp: stored_node_def)
    with st show ?thesis by simp
  qed
  with cache_drop_generation_eq[OF inv, of g'] show ?thesis by (simp add: cache_coherent_def)
qed

lemma next_generation:
  assumes "(g :: u64) \<noteq> - 1"
  shows "g < g + 1"
proof -
  have "1 + g \<noteq> 0" using assms by (metis add.commute eq_neg_iff_add_eq_0)
  from unatSuc[OF this] show ?thesis by (simp add: word_less_nat_alt add.commute)
qed

lemma rewrite_copy_holds:
  assumes "represents F t rs" "length rs \<le> 2 ^ 32" "ot_generation t \<noteq> - 1"
  obtains c j x y where
    "rewrite_copy t = (Inr (j, c), t\<lparr>ot_cache := x, ot_superseded_bytes := y,
       ot_other_files := [(ot_generation t + 1, sj_file j)]\<rparr>)"
    "cache_coherent (ot_crypto t) F x" "holds (ot_crypto t) (frame_at j) 0 c rs" "in_file c" "file_ok j"
proof -
  let ?C = "ot_crypto t" and ?next = "ot_generation t + 1"
  let ?fresh = "SealedJournal_open ?C (ot_nonces t ?next) (ot_key t) nodes_aad max_frame []"
  note r = representsD[OF assms(1)]
  have fresh: "file_ok ?fresh" using r(3) assms(1) by (intro fresh_file) (auto simp: represents_def)
  obtain c t1 where c: "copy_trie load_fuel (ot_root t) t = (Inr c, t1)" "trie_reading F t t1" "\<And>S. holds ?C S 0 c rs"
    using copy_trie_holds[OF r(1,4), of load_fuel] by (auto simp: load_fuel_def)
  obtain x y where t1: "t1 = t\<lparr>ot_cache := x, ot_superseded_bytes := y\<rparr>"
    using c(2) unfolding trie_reading_def by blast
  then have co: "cache_coherent ?C F x" using c(2) by (simp add: trie_reading_def)
  obtain res j where s: "save ?C c ?fresh = (res, j)" by fastforce
  have g: "grows ?fresh j" using save_grows(1)[of ?fresh ?C c] fresh s by (simp add: file_ok_def)
  have "sj_bytes j \<le> sj_bytes ?fresh + save_bound 0 (length rs)"
    using save_bytes(1)[OF c(3) _ fresh] s by simp
  then have b: "sj_bytes j < 2 ^ 64 - 1"
    using assms(2) save_bound_room[of "length rs"] by (simp add: SealedJournal_open_def)
  from savesD[OF save_saves[OF r(3)] fresh c(3) s b] obtain c' where
    c': "res = Inr c'" "holds ?C (frame_at j) 0 c' rs" "in_file c'" by auto
  let ?j = "j\<lparr>sj_durable := length (sj_file j)\<rparr>"
  have "file_ok ?j" using grows_file_ok[OF g fresh] by (simp add: file_ok_def journal_ok_def)
  moreover have "rewrite_copy t = (Inr (?j, c'), t1\<lparr>ot_other_files := [(?next, sj_file ?j)]\<rparr>)"
    using s c(1) c'(1) by (simp add: rewrite_copy_def bindM_def journal_sync_def Let_def)
  ultimately show thesis using that[where c = c' and j = ?j and x = x and y = y] co c'(2,3) t1 by simp
qed

lemma rewrite_if_due_represents:
  assumes "represents F t rs" "length rs \<le> 2 ^ 32" "ot_generation t \<noteq> - 1"
  shows "\<exists>F' t'. rewrite_if_due t = (Inr (), t') \<and> represents F' t' rs"
proof (cases "rewrite_due t")
  case False
  with assms(1) show ?thesis by (auto simp: rewrite_if_due_def)
next
  case True
  obtain c j x y where
    w: "rewrite_copy t = (Inr (j, c), t\<lparr>ot_cache := x, ot_superseded_bytes := y,
       ot_other_files := [(ot_generation t + 1, sj_file j)]\<rparr>)" (is "_ = (_, ?t1)")
    and c: "cache_coherent (ot_crypto t) F x" "holds (ot_crypto t) (frame_at j) 0 c rs" "in_file c" "file_ok j"
    by (rule rewrite_copy_holds[OF assms])
  let ?next = "ot_generation t + 1"
  let ?F = "F(?next := frame_at j)"
  have lt: "ot_generation t < ?next" by (rule next_generation[OF assms(3)])
  have none: "F ?next = (\<lambda>_ _. False)" using assms(1) lt by (simp add: represents_def)
  note co = cache_coherent_fresh[OF c(1) none, of "frame_at j" "ot_generation t"]
  obtain t3 where t3: "bindM (rewrite_switch j c) (\<lambda>_. bindM publish_root (\<lambda>_. rewrite_cleanup)) ?t1 = (Inr (), t3)"
    by (simp add: rewrite_switch_def publish_root_def rewrite_cleanup_def)
  have later: "F g = (\<lambda>_ _. False)" if "?next < g" for g
    using that lt assms(1) by (auto simp: represents_def)
  have "represents ?F t3 rs"
    using t3 assms(1) c(2,4) co later
    by (auto simp: rewrite_switch_def publish_root_def rewrite_cleanup_def represents_def trie_ready_def file_ok_def)
  moreover have "in_file (ot_root t3)"
    using t3 c(3) by (auto simp: rewrite_switch_def publish_root_def rewrite_cleanup_def)
  ultimately obtain t4 where "load_root t3 = (Inr (), t4)" "represents ?F t4 rs"
    using load_root_represents by blast
  with True w t3 show ?thesis
    by (auto simp: rewrite_if_due_def bindM_def split: sum.splits prod.splits)
qed

text \<open>A checkpoint keeps the records.\<close>

lemma checkpoint_represents:
  assumes "represents F t rs" "room t rs"
  shows "\<exists>F' t'. checkpoint t = (Inr (), t') \<and> represents F' t' rs"
proof -
  obtain F1 t1 where 1: "checkpoint_save t = (Inr (), t1)" "represents F1 t1 rs" "in_file (ot_root t1)"
    "ot_generation t1 = ot_generation t" using checkpoint_save_represents[OF assms] by blast
  obtain t2 where 2: "publish_root t1 = (Inr (), t2)" "represents F1 t2 rs" "ot_root t2 = ot_root t1"
    "ot_generation t2 = ot_generation t1" using publish_root_represents[OF 1(2)] by blast
  obtain t3 where 3: "checkpoint_reset t2 = (Inr (), t3)" "represents F1 t3 rs" "ot_root t3 = ot_root t2"
    "ot_generation t3 = ot_generation t2" using checkpoint_reset_represents[OF 2(2)] by blast
  obtain t4 where 4: "load_root t3 = (Inr (), t4)" "represents F1 t4 rs" "ot_generation t4 = ot_generation t3"
    using load_root_represents[OF 3(2)] 1(3) 2(3) 3(3) by auto
  have "length rs \<le> 2 ^ 32" "ot_generation t4 \<noteq> - 1" using assms(2) 1(4) 2(4) 3(4) 4(3) by (simp_all add: room_def)
  from rewrite_if_due_represents[OF 4(2) this] 1(1) 2(1) 3(1) 4(1) show ?thesis
    by (simp add: checkpoint_def bindM_def)
qed

lemma checkpoint_if_due_represents:
  assumes "represents F t rs" "room t rs"
  shows "\<exists>F' t'. checkpoint_if_due t = (Inr (), t') \<and> represents F' t' rs"
  using checkpoint_represents[OF assms] assms(1) by (auto simp: checkpoint_if_due_def)

lemma trie_install_represents:
  assumes "represents F t rs" "changes_ok changes" "segment_ok 0 (merge_changes rs changes)"
    "room t (merge_changes rs changes)"
  shows "\<exists>F' t'. trie_install changes t = (Inr (), t') \<and> represents F' t' (merge_changes rs changes)"
proof (cases "changes = []")
  case True
  with assms(1) show ?thesis by (auto simp: trie_install_def)
next
  case False
  obtain t1 where 1: "apply_unjournaled changes t = (Inr (), t1)" "represents F t1 (merge_changes rs changes)"
    "ot_nodes t1 = ot_nodes t" "ot_generation t1 = ot_generation t"
    using apply_unjournaled_represents[OF assms(1-3)] by blast
  have "room t1 (merge_changes rs changes)" using assms(4) 1(3,4) by (simp add: room_def)
  from checkpoint_if_due_represents[OF 1(2) this] 1(1) False show ?thesis
    by (simp add: trie_install_def bindM_def)
qed

text \<open>A ledger replaced as a whole, as the migration of an older ledger does.\<close>

lemma replace_all_represents:
  assumes "represents F t rs" "segment_ok 0 rs'" "room t rs'"
  shows "\<exists>F' t'. replace_all rs' t = (Inr (), t') \<and> represents F' t' rs'"
proof -
  obtain c where c: "build (ot_crypto t) 0 rs' = Inr c" "holds (ot_crypto t) (F (ot_generation t)) 0 c rs'"
    using build_holds[OF assms(2)] by (metis zero_less_numeral)
  let ?t = "t\<lparr>ot_superseded_bytes := ot_live_bytes t, ot_root := c\<rparr>"
  have "represents F ?t rs'" using assms(1) c(2) by (simp add: represents_def trie_ready_def)
  moreover have "room ?t rs'" using assms(3) by (simp add: room_def)
  ultimately obtain F' t' where "checkpoint ?t = (Inr (), t')" "represents F' t' rs'"
    using checkpoint_represents by blast
  with c(1) show ?thesis by (auto simp: replace_all_def bindM_def)
qed

lemma represents_get:
  assumes "represents F t rs"
  shows "\<exists>t'. trie_get i t = (Inr (map_of rs i), t') \<and> represents F t' rs \<and>
    ot_nodes t' = ot_nodes t \<and> ot_generation t' = ot_generation t"
proof -
  note r = representsD[OF assms]
  obtain t' where t': "trie_get i t = (Inr (map_of rs i), t')" "trie_reading F t t'"
    using trie_reader.find_holds[OF r(1,4)] by (auto simp: trie_get_def)
  have "represents F (t'\<lparr>ot_root := ot_root t'\<rparr>) rs"
    using represents_reading[OF assms t'(2), of "ot_root t'" rs] r(4) trie_readingD(6)[OF t'(2)] by simp
  then have "represents F t' rs" by simp
  with t'(1) trie_readingD(2,3)[OF t'(2)] show ?thesis by blast
qed

lemma represents_summary:
  assumes "represents F t rs"
  shows "trie_size t = of_nat (length rs)" "root_hash t = trie_digest (ot_crypto t) 0 rs"
  using holds_summary(1)[OF representsD(4)[OF assms]]
  by (simp_all add: trie_size_def root_hash_def child_summary_def trie_summary_def)

section \<open>The ledger as its clients use it\<close>

text \<open>
  What the stores built on the trie rely on: a lookup returns what the last change to the id made
  it, and a change to some ids is that change of the map. \<open>fits\<close> says which maps the ledger has
  room for. Inside: the loop all of them have, which looks each id of a sorted list up, decides what
  to do with its record, and installs the changes decided on.
\<close>

definition opt_change :: "ObjectId \<Rightarrow> Bytes option option \<Rightarrow> Change list" where
  "opt_change i d = (case d of None \<Rightarrow> [] | Some v \<Rightarrow> [\<lparr>cg_id = i, cg_value = v\<rparr>])"

definition decided :: "(ObjectId \<Rightarrow> Bytes option option) \<Rightarrow> ObjectId list \<Rightarrow> Change list" where
  "decided d ids = concat (map (\<lambda>i. opt_change i (d i)) ids)"

lemma decided_ids: "set (map cg_id (decided d ids)) \<subseteq> set ids"
  by (auto simp: decided_def opt_change_def split: option.splits)

lemma decided_ok:
  assumes "sorted_wrt (<) ids" "\<forall>i \<in> set ids. id_ok i" "\<forall>i \<in> set ids. \<forall>v. d i = Some (Some v) \<longrightarrow> length v \<le> value_max"
  shows "changes_ok (decided d ids)"
  using assms
proof (induction ids)
  case (Cons i ids)
  then have IH: "changes_ok (decided d ids)" by simp
  have "decided d (i # ids) = opt_change i (d i) @ decided d ids" by (simp add: decided_def)
  moreover have "\<forall>c \<in> set (decided d ids). i < cg_id c"
    using decided_ids[of d ids] Cons.prems(1) by auto
  ultimately show ?case
    using IH Cons.prems(2,3)
    by (auto simp: changes_ok_def opt_change_def change_ok_def change_too_large_def split: option.splits)
qed (simp add: decided_def changes_ok_def)

lemma updated_decided:
  assumes "distinct ids"
  shows "updated m (decided d ids) = (\<lambda>i. if i \<in> set ids then (case d i of None \<Rightarrow> m i | Some v \<Rightarrow> v) else m i)"
proof -
  have "changed (decided d ids) i = (if i \<in> set ids then d i else None)" for i
    using assms
  proof (induction ids)
    case (Cons j ids)
    have "decided d (j # ids) = opt_change j (d j) @ decided d ids" by (simp add: decided_def)
    with Cons show ?case
      by (cases "i = j") (auto simp: changed_def opt_change_def map_add_def split: option.splits)
  qed (simp add: decided_def changed_def)
  then show ?thesis by (auto simp: updated_def fun_eq_iff split: option.splits)
qed

locale record_ledger =
  fixes stands :: "'s \<Rightarrow> (ObjectId \<Rightarrow> Bytes option) \<Rightarrow> bool"
    and fits :: "'s \<Rightarrow> (ObjectId \<Rightarrow> Bytes option) \<Rightarrow> bool"
    and get :: "ObjectId \<Rightarrow> ('s, Bytes option) prog"
    and install :: "Change list \<Rightarrow> ('s, unit) prog"
  assumes get_law: "stands s m \<Longrightarrow> \<exists>s'. get i s = (Inr (m i), s') \<and> stands s' m \<and> (\<forall>m'. fits s m' \<longrightarrow> fits s' m')"
    and install_law: "stands s m \<Longrightarrow> changes_ok cs \<Longrightarrow> fits s (updated m cs) \<Longrightarrow>
      \<exists>s'. install cs s = (Inr (), s') \<and> stands s' (updated m cs)"
begin

lemma edit_loop:
  assumes "stands s m"
    and step: "\<And>acc i s'. i \<in> set ids \<Longrightarrow> step acc i s' =
      bindM (get i) (\<lambda>r. bindM (liftM (decide i r)) (\<lambda>c. retM (acc @ opt_change i c))) s'"
    and decide: "\<And>i. i \<in> set ids \<Longrightarrow> decide i (m i) = Inr (d i)"
  shows "\<exists>s'. foldM step acc ids s = (Inr (acc @ decided d ids), s') \<and> stands s' m \<and> (\<forall>m'. fits s m' \<longrightarrow> fits s' m')"
  using assms
proof (induction ids arbitrary: acc s)
  case (Cons i ids)
  obtain s1 where g: "get i s = (Inr (m i), s1)" "stands s1 m" "\<forall>m'. fits s m' \<longrightarrow> fits s1 m'"
    using get_law[OF Cons.prems(1)] by blast
  have "step acc i s = (Inr (acc @ opt_change i (d i)), s1)"
    using Cons.prems(2)[of i acc s] Cons.prems(3)[of i] g(1) by (simp add: bindM_def)
  moreover obtain s2 where "foldM step (acc @ opt_change i (d i)) ids s1 =
      (Inr ((acc @ opt_change i (d i)) @ decided d ids), s2)" "stands s2 m" "\<forall>m'. fits s1 m' \<longrightarrow> fits s2 m'"
    using Cons.IH[OF g(2), of "acc @ opt_change i (d i)"] Cons.prems(2,3) by auto
  ultimately show ?case using g(3) by (simp add: bindM_def decided_def)
qed (simp add: decided_def)

lemma edit:
  assumes "stands s m" "sorted_wrt (<) ids" "\<forall>i \<in> set ids. id_ok i"
    and step: "\<And>acc i s'. i \<in> set ids \<Longrightarrow> step acc i s' =
      bindM (get i) (\<lambda>r. bindM (liftM (decide i r)) (\<lambda>c. retM (acc @ opt_change i c))) s'"
    and decide: "\<And>i. i \<in> set ids \<Longrightarrow> decide i (m i) = Inr (d i)"
    and sz: "\<forall>i \<in> set ids. \<forall>v. d i = Some (Some v) \<longrightarrow> length v \<le> value_max"
    and m': "m' = (\<lambda>i. if i \<in> set ids then (case d i of None \<Rightarrow> m i | Some v \<Rightarrow> v) else m i)" "fits s m'"
  shows "\<exists>s1 s2. foldM step [] ids s = (Inr (decided d ids), s1) \<and> install (decided d ids) s1 = (Inr (), s2) \<and> stands s2 m'"
proof -
  have "\<exists>s1. foldM step [] ids s = (Inr ([] @ decided d ids), s1) \<and> stands s1 m \<and> (\<forall>m'. fits s m' \<longrightarrow> fits s1 m')"
    by (rule edit_loop[OF assms(1) step decide])
  then obtain s1 where s1: "foldM step [] ids s = (Inr (decided d ids), s1)" "stands s1 m" "fits s1 m'"
    using m'(2) by auto
  have "distinct ids" using assms(2) strict_sorted_iff by blast
  then have "updated m (decided d ids) = m'" using updated_decided m'(1) by simp
  with install_law[OF s1(2) decided_ok[OF assms(2,3) sz]] s1 show ?thesis by auto
qed

end

definition ledger_stands :: "ObjectTrie \<Rightarrow> (ObjectId \<Rightarrow> Bytes option) \<Rightarrow> bool" where
  "ledger_stands t m \<longleftrightarrow> (\<exists>F rs. represents F t rs \<and> m = map_of rs)"

definition ledger_fits :: "ObjectTrie \<Rightarrow> (ObjectId \<Rightarrow> Bytes option) \<Rightarrow> bool" where
  "ledger_fits t m \<longleftrightarrow> (\<exists>rs. m = map_of rs \<and> segment_ok 0 rs \<and> room t rs)"

lemma ledger_get:
  assumes "ledger_stands t m"
  shows "\<exists>t'. trie_get i t = (Inr (m i), t') \<and> ledger_stands t' m \<and> (\<forall>m'. ledger_fits t m' \<longrightarrow> ledger_fits t' m')"
proof -
  obtain F rs where r: "represents F t rs" "m = map_of rs" using assms by (auto simp: ledger_stands_def)
  obtain t' where t': "trie_get i t = (Inr (map_of rs i), t')" "represents F t' rs"
    "ot_nodes t' = ot_nodes t" "ot_generation t' = ot_generation t"
    using represents_get[OF r(1)] by blast
  then have "room t' xs \<longleftrightarrow> room t xs" for xs by (simp add: room_def)
  with t' r show ?thesis by (auto simp: ledger_stands_def ledger_fits_def)
qed

lemma ledger_install:
  assumes "ledger_stands t m" "changes_ok cs" "ledger_fits t (updated m cs)"
  shows "\<exists>t'. trie_install cs t = (Inr (), t') \<and> ledger_stands t' (updated m cs)"
proof -
  obtain F rs where r: "represents F t rs" "m = map_of rs" using assms by (auto simp: ledger_stands_def)
  obtain xs where xs: "updated m cs = map_of xs" "segment_ok 0 xs" "room t xs"
    using assms(3) by (auto simp: ledger_fits_def)
  have ok: "records_ok rs" by (rule segment_okD(1)[OF representsD(6)[OF r(1)]])
  have eq: "map_of (merge_changes rs cs) = updated m cs"
    unfolding r(2) by (rule ext) (rule merge_changes_updated[OF ok assms(2)])
  then have "merge_changes rs cs = xs"
    using merge_changes_ok[OF ok assms(2)] segment_okD(1)[OF xs(2)] xs(1) by (intro sorted_map_of_inj) simp_all
  with trie_install_represents[OF r(1) assms(2)] xs eq show ?thesis by (auto simp: ledger_stands_def)
qed

interpretation trie_ledger: record_ledger ledger_stands ledger_fits trie_get trie_install
  by unfold_locales (rule ledger_get ledger_install; assumption)+

section \<open>Properties\<close>

definition ledger_trie :: ObjectTrie where
  "ledger_trie = sample_trie\<lparr>ot_nodes := empty_journal max_frame, ot_journal := empty_journal max_frame\<rparr>"

definition ledger_files :: node_files where
  "ledger_files = (\<lambda>g. if g = 0 then frame_at (empty_journal max_frame) else (\<lambda>_ _. False))"

lemma ledger_trie_represents: "represents ledger_files ledger_trie one_record"
  using empty_journal_holds[of max_frame] one_leaf_holds[of plain_crypto]
  by (simp add: represents_def trie_ready_def ledger_trie_def sample_trie_def ledger_files_def cache_coherent_new
      journal_holds_def file_ok_def plain_crypto_ok max_frame_def)
     (simp add: empty_journal_def SealedJournal_open_def)

text \<open>
  C2: Installing sorted changes does to the whole ledger what it does to a finite map: it throws
  nothing, and afterwards every id has the value the last change gives it, or the one it had; the
  count and hash are those of the changed records, however the trie came to be, and whether or not
  the change made a checkpoint and the checkpoint a new node file.
\<close>

theorem install_updates_ledger:
  assumes "represents F t rs" "changes_ok changes" "segment_ok 0 (merge_changes rs changes)"
    "room t (merge_changes rs changes)"
  shows "\<exists>F' t'. trie_install changes t = (Inr (), t') \<and> represents F' t' (merge_changes rs changes) \<and>
    trie_size t' = of_nat (length (merge_changes rs changes)) \<and>
    root_hash t' = trie_digest (ot_crypto t') 0 (merge_changes rs changes) \<and>
    (\<forall>i. fst (trie_get i t') = Inr (updated (map_of rs) changes i))"
proof -
  obtain F' t' where t': "trie_install changes t = (Inr (), t')" "represents F' t' (merge_changes rs changes)"
    using trie_install_represents[OF assms] by blast
  have "fst (trie_get i t') = Inr (updated (map_of rs) changes i)" for i
    using represents_get[OF t'(2), of i] merge_changes_updated[OF segment_okD(1)[OF representsD(6)[OF assms(1)]] assms(2)]
    by auto
  with t' represents_summary[OF t'(2)] show ?thesis by blast
qed

definition two_changes :: "Change list" where
  "two_changes = [\<lparr>cg_id = replicate 32 3, cg_value = Some [9]\<rparr>, \<lparr>cg_id = replicate 32 7, cg_value = None\<rparr>]"

lemma two_changes_sorted: "replicate 32 (3 :: u8) < replicate 32 7"
  using less_first_difference[of 0 "replicate 32 (3 :: u8)" "replicate 32 7"] by simp

lemma two_changes_merge: "merge_changes one_record two_changes = [(replicate 32 3, [9])]"
  using two_changes_sorted by (auto simp: one_record_def two_changes_def Let_def)

theorem install_updates_ledger_witness:
  "\<exists>t'. trie_install two_changes ledger_trie = (Inr (), t') \<and>
     fst (trie_get (replicate 32 3) t') = Inr (Some [9]) \<and> fst (trie_get (replicate 32 7) t') = Inr None"
proof -
  have ok: "changes_ok two_changes"
    using two_changes_sorted
    by (simp add: changes_ok_def two_changes_def change_ok_def id_ok_def change_too_large_def value_max_def)
  have seg: "segment_ok 0 (merge_changes one_record two_changes)"
    unfolding two_changes_merge
    by (simp add: segment_ok_def records_ok_def record_ok_def id_ok_def value_max_def
      same_prefix_def spread_def leaf_max_def)
  have room: "room ledger_trie (merge_changes one_record two_changes)"
    unfolding two_changes_merge
    by (simp add: room_def ledger_trie_def sample_trie_def empty_journal_def SealedJournal_open_def)
  from install_updates_ledger[OF ledger_trie_represents ok seg room] show ?thesis
    using two_changes_sorted by (auto simp: updated_def changed_def two_changes_def)
qed

end
