(* ===== verification/Retention_State.thy ===== *)
theory Retention_State
  imports Trie_Ledger
begin

text \<open>
  The claims on one object (\<^verbatim>\<open>src/storage/retention.cpp\<close>): an observed-remove set with one add and
  one remove sequence an origin, its bytes in a trie record, and what an add, a release and a prune
  do to it. The claims on an object after any adds and releases depend on which there were, not on
  their order or repetition; replaying them over their result changes nothing. A prune in the log
  breaks the second.
\<close>

section \<open>State\<close>

datatype RetentionClass = Class_data | Class_control

record RetentionDot =
  dot_origin :: NodeId
  dot_sequence :: u64

type_synonym RetentionClock = "(NodeId, u64) omap"

record ObjectState =
  os_adds :: "(NodeId, u64) omap"
  os_removed :: "(NodeId, u64) omap"

type_synonym StateMap = "(ObjectId, ObjectState) omap"

definition ObjectState_0 :: ObjectState where
  "ObjectState_0 = \<lparr>os_adds = [], os_removed = []\<rparr>"

definition state_empty :: "ObjectState \<Rightarrow> bool" where
  "state_empty st \<longleftrightarrow> os_adds st = [] \<and> os_removed st = []"

definition class_code :: "RetentionClass \<Rightarrow> u8" where
  "class_code c = (case c of Class_data \<Rightarrow> 1 | Class_control \<Rightarrow> 2)"

definition valid_class :: "u8 \<Rightarrow> bool" where
  "valid_class v \<longleftrightarrow> v = class_code Class_data \<or> v = class_code Class_control"

section \<open>Bytes\<close>

definition write_clock :: "Writer \<Rightarrow> NodeId \<times> u64 \<Rightarrow> Writer" where
  "write_clock w c = writer_u64 (writer_fixed w (fst c)) (snd c)"

definition write_side :: "Writer \<Rightarrow> (NodeId, u64) omap \<Rightarrow> Writer result" where
  "write_side w side =
     (if length side > 65535
      then Inl (RuntimeError ''too many retention clocks for one object'')
      else Inr (foldl write_clock (writer_u16 w (of_nat (length side))) side))"

definition encode_state :: "ObjectState \<Rightarrow> Bytes result" where
  "encode_state st = bindR (write_side [] (os_adds st)) (\<lambda>w. write_side w (os_removed st))"

text \<open>One turn of the loops that fill a map of clocks, with the error they throw.\<close>

definition read_clock :: "string \<Rightarrow> (NodeId, u64) omap \<Rightarrow> (Reader, (NodeId, u64) omap) prog" where
  "read_clock what side =
     bindM (reader_fixed 16) (\<lambda>origin. bindM reader_u64 (\<lambda>sequence.
       if origin = NodeId0 \<or> sequence = 0 \<or> map_of side origin \<noteq> None
       then raiseM (DecodeError what)
       else retM (map_put origin sequence side)))"

definition read_clock_map :: "string \<Rightarrow> nat \<Rightarrow> (Reader, (NodeId, u64) omap) prog" where
  "read_clock_map what count = foldM (\<lambda>side _. read_clock what side) [] [0..<count]"

definition decode_state :: "Bytes \<Rightarrow> ObjectState result" where
  "decode_state bytes =
     fst (bindM reader_u16 (\<lambda>adds_count.
       bindM (read_clock_map ''bad retention record clock'' (unat adds_count)) (\<lambda>adds.
       bindM reader_u16 (\<lambda>removed_count.
       bindM (read_clock_map ''bad retention record clock'' (unat removed_count)) (\<lambda>removed.
       bindM reader_finish (\<lambda>_. retM \<lparr>os_adds = adds, os_removed = removed\<rparr>))))) (reader bytes))"

definition claimed :: "Bytes \<Rightarrow> bool" where
  "claimed record \<longleftrightarrow> length record \<ge> 2 \<and> (record ! 0 \<noteq> 0 \<or> record ! 1 \<noteq> 0)"

section \<open>Changes to one object\<close>

text \<open>The body of \<^verbatim>\<open>apply_add_locked\<close> for one record; nothing when the add changes nothing.\<close>

definition add_to_state :: "RetentionDot \<Rightarrow> ObjectState \<Rightarrow> ObjectState option" where
  "add_to_state dot st =
     (if (case map_of (os_removed st) (dot_origin dot) of None \<Rightarrow> False | Some r \<Rightarrow> r \<ge> dot_sequence dot)
      then None
      else let current = (case map_of (os_adds st) (dot_origin dot) of None \<Rightarrow> 0 | Some a \<Rightarrow> a) in
        if current \<ge> dot_sequence dot then None
        else Some (st\<lparr>os_adds := map_put (dot_origin dot) (dot_sequence dot) (os_adds st)\<rparr>))"

text \<open>One turn of the loop over the observed clock in \<^verbatim>\<open>apply_release_locked\<close>.\<close>

definition release_clock :: "ObjectState \<times> bool \<Rightarrow> NodeId \<times> u64 \<Rightarrow> ObjectState \<times> bool" where
  "release_clock acc clock =
     (case acc of (st, object_changed) \<Rightarrow> case clock of (origin, sequence) \<Rightarrow>
        if sequence = 0 then (st, object_changed)
        else
          let entries = (case map_of (os_removed st) origin of None \<Rightarrow> map_put origin 0 (os_removed st)
                         | Some _ \<Rightarrow> os_removed st);
              older = (the (map_of entries origin) < sequence);
              st1 = st\<lparr>os_removed := (if older then map_put origin sequence entries else entries)\<rparr>;
              covered = (case map_of (os_adds st1) origin of None \<Rightarrow> False | Some a \<Rightarrow> a \<le> sequence);
              st2 = (if covered then st1\<lparr>os_adds := map_erase origin (os_adds st1)\<rparr> else st1)
          in (st2, object_changed \<or> older \<or> covered))"

definition release_from_state :: "RetentionClock \<Rightarrow> ObjectState \<Rightarrow> ObjectState option" where
  "release_from_state observed st =
     (case foldl release_clock (st, False) observed of (st', object_changed) \<Rightarrow>
        if object_changed then Some st' else None)"

section \<open>Well-formed states\<close>

definition clocks_ok :: "(NodeId, u64) omap \<Rightarrow> bool" where
  "clocks_ok m \<longleftrightarrow> omap_ok m \<and> list_all (\<lambda>c. length (fst c) = 16 \<and> fst c \<noteq> NodeId0 \<and> snd c \<noteq> 0) m"

text \<open>The value of a clock, zero for an origin it does not have.\<close>

definition clock_at :: "(NodeId, u64) omap \<Rightarrow> NodeId \<Rightarrow> u64" where
  "clock_at m origin = (case map_of m origin of None \<Rightarrow> 0 | Some s \<Rightarrow> s)"

definition state_ok :: "ObjectState \<Rightarrow> bool" where
  "state_ok st \<longleftrightarrow> clocks_ok (os_adds st) \<and> clocks_ok (os_removed st) \<and>
     (\<forall>origin. clock_at (os_adds st) origin \<noteq> 0 \<longrightarrow> clock_at (os_removed st) origin < clock_at (os_adds st) origin)"

lemma clocks_okD:
  assumes "clocks_ok m"
  shows "omap_ok m" "c \<in> set m \<Longrightarrow> length (fst c) = 16 \<and> fst c \<noteq> NodeId0 \<and> snd c \<noteq> 0"
  using assms by (auto simp: clocks_ok_def list_all_iff)

lemma clocks_ok_Nil [simp]: "clocks_ok []"
  by (simp add: clocks_ok_def)

lemma clocks_ok_put:
  "clocks_ok m \<Longrightarrow> length origin = 16 \<Longrightarrow> origin \<noteq> NodeId0 \<Longrightarrow> sequence \<noteq> 0 \<Longrightarrow> clocks_ok (map_put origin sequence m)"
  using set_map_put[of origin sequence m] by (auto simp: clocks_ok_def list_all_iff)

lemma clocks_ok_erase: "clocks_ok m \<Longrightarrow> clocks_ok (map_erase origin m)"
  by (auto simp: clocks_ok_def list_all_iff map_erase_def sorted_wrt_map sorted_wrt_filter omap_ok_def)

lemma clock_at_put [simp]:
  "omap_ok m \<Longrightarrow> clock_at (map_put origin sequence m) o' = (if o' = origin then sequence else clock_at m o')"
  by (simp add: clock_at_def)

lemma clock_at_erase [simp]:
  "clock_at (map_erase origin m) o' = (if o' = origin then 0 else clock_at m o')"
  by (simp add: clock_at_def)

lemma clock_at_Nil [simp]: "clock_at [] origin = 0"
  by (simp add: clock_at_def)

lemma map_of_clock:
  assumes "clocks_ok m"
  shows "map_of m origin = (if clock_at m origin = 0 then None else Some (clock_at m origin))"
  using clocks_okD(2)[OF assms, of "(origin, 0)"] by (auto simp: clock_at_def dest!: map_of_SomeD split: option.splits)

lemma clocks_ext:
  assumes "clocks_ok m" "clocks_ok m'" "clock_at m = clock_at m'"
  shows "m = m'"
  using clocks_okD(1) assms by (intro omap_ext) (auto simp: map_of_clock fun_eq_iff)

lemma state_ext:
  assumes "state_ok st" "state_ok st'" "clock_at (os_adds st) = clock_at (os_adds st')"
    "clock_at (os_removed st) = clock_at (os_removed st')"
  shows "st = st'"
  using assms clocks_ext[of "os_adds st" "os_adds st'"] clocks_ext[of "os_removed st" "os_removed st'"]
  by (cases st; cases st') (simp add: state_ok_def)

lemma clocks_origin:
  "clocks_ok m \<Longrightarrow> clock_at m origin \<noteq> 0 \<Longrightarrow> length origin = 16 \<and> origin \<noteq> NodeId0"
  using clocks_okD(2)[of m "(origin, clock_at m origin)"] map_of_SomeD[of m origin]
  by (simp add: map_of_clock)

section \<open>What the changes do to the clocks\<close>

datatype ClaimOp = Claim_add RetentionDot | Claim_release RetentionClock

definition claim_op_ok :: "ClaimOp \<Rightarrow> bool" where
  "claim_op_ok op = (case op of
     Claim_add dot \<Rightarrow> length (dot_origin dot) = 16 \<and> dot_origin dot \<noteq> NodeId0 \<and> dot_sequence dot \<noteq> 0
   | Claim_release observed \<Rightarrow> clocks_ok observed)"

definition apply_claim :: "ClaimOp \<Rightarrow> ObjectState \<Rightarrow> ObjectState" where
  "apply_claim op st =
     (case (case op of Claim_add dot \<Rightarrow> add_to_state dot st | Claim_release observed \<Rightarrow> release_from_state observed st) of
        None \<Rightarrow> st | Some st' \<Rightarrow> st')"

lemma add_clocks:
  assumes "state_ok st" "claim_op_ok (Claim_add dot)"
  shows "clock_at (os_removed (apply_claim (Claim_add dot) st)) = clock_at (os_removed st)"
    "clock_at (os_adds (apply_claim (Claim_add dot) st)) =
       (if clock_at (os_removed st) (dot_origin dot) \<ge> dot_sequence dot then clock_at (os_adds st)
        else (clock_at (os_adds st))(dot_origin dot := max (clock_at (os_adds st) (dot_origin dot)) (dot_sequence dot)))"
    "state_ok (apply_claim (Claim_add dot) st)"
proof -
  let ?o = "dot_origin dot" and ?s = "dot_sequence dot" and ?A = "clock_at (os_adds st)" and ?R = "clock_at (os_removed st)"
  have ok: "clocks_ok (os_adds st)" "clocks_ok (os_removed st)" using assms(1) by (simp_all add: state_ok_def)
  have s: "?s \<noteq> 0" "length ?o = 16" "?o \<noteq> NodeId0" using assms(2) by (simp_all add: claim_op_ok_def)
  have eq: "apply_claim (Claim_add dot) st =
      (if ?R ?o \<ge> ?s \<or> ?A ?o \<ge> ?s then st else st\<lparr>os_adds := map_put ?o ?s (os_adds st)\<rparr>)"
    using s by (auto simp: apply_claim_def add_to_state_def Let_def map_of_clock[OF ok(1)] map_of_clock[OF ok(2)])
  show "clock_at (os_removed (apply_claim (Claim_add dot) st)) = ?R" by (simp add: eq)
  show A: "clock_at (os_adds (apply_claim (Claim_add dot) st)) =
       (if ?R ?o \<ge> ?s then ?A else ?A(?o := max (?A ?o) ?s))"
    using clocks_okD(1)[OF ok(1)] by (auto simp: eq fun_eq_iff max_def)
  show "state_ok (apply_claim (Claim_add dot) st)"
    using assms(1) s clocks_ok_put[OF ok(1)] clocks_okD(1)[OF ok(1)] by (auto simp: eq state_ok_def not_le)
qed

text \<open>One clock of a release; whether it says the record changed is whether it did.\<close>

lemma release_clock_clocks:
  assumes "state_ok st" "length origin = 16" "origin \<noteq> NodeId0" "sequence \<noteq> 0"
    "release_clock (st, b) (origin, sequence) = (st', b')"
  shows "clock_at (os_removed st') = (clock_at (os_removed st))(origin := max (clock_at (os_removed st) origin) sequence)"
    "clock_at (os_adds st') = (\<lambda>o'. if o' = origin \<and> clock_at (os_adds st) o' \<le> sequence then 0 else clock_at (os_adds st) o')"
    "state_ok st'" "b' \<longleftrightarrow> b \<or> st' \<noteq> st"
proof -
  let ?A = "clock_at (os_adds st)" and ?R = "clock_at (os_removed st)"
  have ok: "clocks_ok (os_adds st)" "clocks_ok (os_removed st)" using assms(1) by (simp_all add: state_ok_def)
  note om = clocks_okD(1)[OF ok(1)] clocks_okD(1)[OF ok(2)]
  define older where "older = (?R origin < sequence)"
  define covered where "covered = (?A origin \<noteq> 0 \<and> ?A origin \<le> sequence)"
  define rm where "rm = (if older then map_put origin sequence (os_removed st) else os_removed st)"
  define ad where "ad = (if covered then map_erase origin (os_adds st) else os_adds st)"
  have twice: "map_put origin sequence (map_put origin 0 (os_removed st)) = map_put origin sequence (os_removed st)"
    using om by (intro omap_ext) auto
  let ?E = "case map_of (os_removed st) origin of None \<Rightarrow> map_put origin 0 (os_removed st) | Some _ \<Rightarrow> os_removed st"
  have E: "?E = (if ?R origin = 0 then map_put origin 0 (os_removed st) else os_removed st)"
    by (simp add: map_of_clock[OF ok(2)])
  have low: "the (map_of ?E origin) = ?R origin"
    unfolding E using om by (simp add: map_of_clock[OF ok(2)])
  have rm: "(if ?R origin < sequence then map_put origin sequence ?E else ?E) = rm"
    unfolding E rm_def older_def using twice assms(4) by (simp add: word_gt_0)
  have cov: "(case map_of (os_adds st) origin of None \<Rightarrow> False | Some a \<Rightarrow> a \<le> sequence) = covered"
    by (simp add: map_of_clock[OF ok(1)] covered_def)
  have "release_clock (st, b) (origin, sequence) = (st\<lparr>os_adds := ad, os_removed := rm\<rparr>, b \<or> older \<or> covered)"
    unfolding release_clock_def prod.case Let_def low rm using assms(4) cov
    by (simp add: ad_def older_def)
  with assms(5) have eq: "st' = st\<lparr>os_adds := ad, os_removed := rm\<rparr>" "b' \<longleftrightarrow> b \<or> older \<or> covered" by simp_all
  show R: "clock_at (os_removed st') = ?R(origin := max (?R origin) sequence)"
    using om by (auto simp: eq rm_def older_def max_def fun_eq_iff)
  show A: "clock_at (os_adds st') = (\<lambda>o'. if o' = origin \<and> ?A o' \<le> sequence then 0 else ?A o')"
    by (auto simp: eq ad_def covered_def fun_eq_iff)
  have "clocks_ok rm" "clocks_ok ad"
    using ok assms(2-4) by (simp_all add: rm_def ad_def clocks_ok_put clocks_ok_erase)
  then show "state_ok st'"
    using assms(1) R A by (auto simp: state_ok_def eq max_def split: if_splits)
  have "older \<Longrightarrow> clock_at rm origin \<noteq> ?R origin" using om by (simp add: rm_def older_def)
  then have "older \<longleftrightarrow> rm \<noteq> os_removed st" by (auto simp: rm_def)
  moreover have "covered \<Longrightarrow> clock_at ad origin \<noteq> ?A origin" by (simp add: ad_def covered_def)
  then have "covered \<longleftrightarrow> ad \<noteq> os_adds st" using ad_def by metis
  ultimately show "b' \<longleftrightarrow> b \<or> st' \<noteq> st" unfolding eq by (cases st) auto
qed

lemma release_fold_clocks:
  assumes "state_ok st" "clocks_ok observed" "foldl release_clock (st, b) observed = (st', b')"
  shows "clock_at (os_removed st') = (\<lambda>o'. max (clock_at (os_removed st) o') (clock_at observed o')) \<and>
    clock_at (os_adds st') = (\<lambda>o'. if clock_at (os_adds st) o' \<le> clock_at observed o' then 0 else clock_at (os_adds st) o') \<and>
    state_ok st' \<and> (\<not> b' \<longrightarrow> \<not> b \<and> st' = st)"
  using assms
proof (induction observed arbitrary: st b)
  case (Cons c observed)
  obtain origin sequence where c: "c = (origin, sequence)" by fastforce
  obtain st1 b1 where s1: "release_clock (st, b) c = (st1, b1)" by fastforce
  have o: "length origin = 16" "origin \<noteq> NodeId0" "sequence \<noteq> 0" using Cons.prems(2) c by (auto simp: clocks_ok_def)
  note r = release_clock_clocks[OF Cons.prems(1) o s1[unfolded c]]
  have obs: "clocks_ok observed" using Cons.prems(2) by (simp add: clocks_ok_def omap_ok_Cons)
  have at: "clock_at (c # observed) o' = (if o' = origin then sequence else clock_at observed o')" for o'
    by (simp add: c clock_at_def)
  have none: "clock_at observed origin = 0"
    using Cons.prems(2) map_of_below_omap[of c observed origin] by (simp add: clocks_ok_def c clock_at_def)
  have "foldl release_clock (st1, b1) observed = (st', b')" using Cons.prems(3) s1 by simp
  from Cons.IH[OF r(3) obs this] have IH: "clock_at (os_removed st') = (\<lambda>o'. max (clock_at (os_removed st1) o') (clock_at observed o'))"
    "clock_at (os_adds st') = (\<lambda>o'. if clock_at (os_adds st1) o' \<le> clock_at observed o' then 0 else clock_at (os_adds st1) o')"
    "state_ok st'" "\<not> b' \<longrightarrow> \<not> b1 \<and> st' = st1" by blast+
  have "clock_at (os_removed st') = (\<lambda>o'. max (clock_at (os_removed st) o') (clock_at (c # observed) o'))"
    using none unfolding IH(1) r(1) at by (auto simp: fun_eq_iff)
  moreover have "clock_at (os_adds st') = (\<lambda>o'. if clock_at (os_adds st) o' \<le> clock_at (c # observed) o' then 0 else clock_at (os_adds st) o')"
    using none unfolding IH(2) r(2) at by (auto simp: fun_eq_iff)
  moreover have "\<not> b' \<longrightarrow> \<not> b \<and> st' = st" using IH(4) r(4) by auto
  ultimately show ?case using IH(3) by blast
qed (auto simp: fun_eq_iff)

lemma release_clocks:
  assumes "state_ok st" "claim_op_ok (Claim_release observed)"
  shows "clock_at (os_removed (apply_claim (Claim_release observed) st)) =
      (\<lambda>o'. max (clock_at (os_removed st) o') (clock_at observed o'))"
    "clock_at (os_adds (apply_claim (Claim_release observed) st)) =
      (\<lambda>o'. if clock_at (os_adds st) o' \<le> clock_at observed o' then 0 else clock_at (os_adds st) o')"
    "state_ok (apply_claim (Claim_release observed) st)"
proof -
  obtain st' b' where f: "foldl release_clock (st, False) observed = (st', b')" by fastforce
  have obs: "clocks_ok observed" using assms(2) by (simp add: claim_op_ok_def)
  note r = release_fold_clocks[OF assms(1) obs f]
  then have "apply_claim (Claim_release observed) st = st'"
    using f by (auto simp: apply_claim_def release_from_state_def)
  with r show "clock_at (os_removed (apply_claim (Claim_release observed) st)) =
      (\<lambda>o'. max (clock_at (os_removed st) o') (clock_at observed o'))"
    "clock_at (os_adds (apply_claim (Claim_release observed) st)) =
      (\<lambda>o'. if clock_at (os_adds st) o' \<le> clock_at observed o' then 0 else clock_at (os_adds st) o')"
    "state_ok (apply_claim (Claim_release observed) st)" by simp_all
qed

lemma apply_claim_ok: "state_ok st \<Longrightarrow> claim_op_ok op \<Longrightarrow> state_ok (apply_claim op st)"
  using add_clocks(3) release_clocks(3) by (cases op) blast+

section \<open>Order and repetition do not matter\<close>

lemma max_u64_simps: "max (a :: u64) 0 = a" "max 0 a = a"
  by (simp_all add: max_def)

lemma claims_commute:
  assumes "state_ok st" "claim_op_ok op" "claim_op_ok op'"
  shows "apply_claim op (apply_claim op' st) = apply_claim op' (apply_claim op st)"
proof (rule state_ext)
  note ok = apply_claim_ok[OF assms(1,2)] apply_claim_ok[OF assms(1,3)]
  show "state_ok (apply_claim op (apply_claim op' st))" "state_ok (apply_claim op' (apply_claim op st))"
    using ok assms by (simp_all add: apply_claim_ok)
  show "clock_at (os_removed (apply_claim op (apply_claim op' st))) = clock_at (os_removed (apply_claim op' (apply_claim op st)))"
    using ok assms by (cases op; cases op') (auto simp: add_clocks release_clocks fun_eq_iff max.left_commute max.commute)
  show "clock_at (os_adds (apply_claim op (apply_claim op' st))) = clock_at (os_adds (apply_claim op' (apply_claim op st)))"
    using ok assms by (cases op; cases op') (auto simp: add_clocks release_clocks fun_eq_iff max_def)
qed

lemma claim_idempotent:
  assumes "state_ok st" "claim_op_ok op"
  shows "apply_claim op (apply_claim op st) = apply_claim op st"
proof (rule state_ext)
  note ok = apply_claim_ok[OF assms]
  show "state_ok (apply_claim op (apply_claim op st))" "state_ok (apply_claim op st)"
    using ok assms by (simp_all add: apply_claim_ok)
  show "clock_at (os_removed (apply_claim op (apply_claim op st))) = clock_at (os_removed (apply_claim op st))"
    using ok assms by (cases op) (auto simp: add_clocks release_clocks fun_eq_iff)
  show "clock_at (os_adds (apply_claim op (apply_claim op st))) = clock_at (os_adds (apply_claim op st))"
    using ok assms by (cases op) (auto simp: add_clocks release_clocks fun_eq_iff max_def)
qed

definition apply_claims :: "ClaimOp list \<Rightarrow> ObjectState \<Rightarrow> ObjectState" where
  "apply_claims ops st = foldl (\<lambda>st op. apply_claim op st) st ops"

lemma apply_claims_simps [simp]:
  "apply_claims [] st = st" "apply_claims (op # ops) st = apply_claims ops (apply_claim op st)"
  by (simp_all add: apply_claims_def)

lemma apply_claims_ok: "list_all claim_op_ok ops \<Longrightarrow> state_ok st \<Longrightarrow> state_ok (apply_claims ops st)"
  by (induction ops arbitrary: st) (simp_all add: apply_claim_ok)

lemma apply_claims_pull:
  assumes "list_all claim_op_ok ops" "claim_op_ok op" "state_ok st"
  shows "apply_claims ops (apply_claim op st) = apply_claim op (apply_claims ops st)"
  using assms
proof (induction ops arbitrary: st)
  case (Cons o' ops)
  then have "apply_claims ops (apply_claim o' (apply_claim op st)) = apply_claims ops (apply_claim op (apply_claim o' st))"
    by (simp add: claims_commute)
  also have "\<dots> = apply_claim op (apply_claims ops (apply_claim o' st))"
    using Cons by (intro Cons.IH) (simp_all add: apply_claim_ok)
  finally show ?case by simp
qed simp

text \<open>An operation seen before changes nothing any more.\<close>

lemma apply_claims_absorb:
  assumes "list_all claim_op_ok ops" "op \<in> set ops" "state_ok st"
  shows "apply_claim op (apply_claims ops st) = apply_claims ops st"
  using assms
proof (induction ops arbitrary: st)
  case (Cons o' ops)
  show ?case
  proof (cases "op = o'")
    case True
    have "apply_claim op (apply_claims ops (apply_claim op st)) = apply_claims ops (apply_claim op (apply_claim op st))"
      using Cons.prems True by (intro apply_claims_pull[symmetric]) (simp_all add: apply_claim_ok)
    with True Cons.prems show ?thesis by (simp add: claim_idempotent)
  next
    case False
    with Cons show ?thesis by (simp add: apply_claim_ok)
  qed
qed simp

lemma apply_claims_set:
  assumes "list_all claim_op_ok ops" "list_all claim_op_ok ops'" "set ops = set ops'" "state_ok st"
  shows "apply_claims ops st = apply_claims ops' st"
proof -
  have absorb: "apply_claims ps (apply_claims qs st) = apply_claims qs st"
    if "list_all claim_op_ok qs" "set ps \<subseteq> set qs" for ps qs
    using that
  proof (induction ps)
    case (Cons p ps)
    with apply_claims_absorb[OF that(1), of p st] assms(4) show ?case by auto
  qed simp
  have swap: "apply_claims ps (apply_claims qs st) = apply_claims qs (apply_claims ps st)"
    if "list_all claim_op_ok ps" "list_all claim_op_ok qs" for ps qs
    using that(1)
  proof (induction ps rule: rev_induct)
    case (snoc p ps)
    then show ?case
      using that(2) assms(4) apply_claims_pull[OF that(2), of p "apply_claims ps st"]
      by (simp add: apply_claims_def apply_claims_ok[unfolded apply_claims_def])
  qed simp
  have "apply_claims ops st = apply_claims ops' (apply_claims ops st)"
    using absorb[of ops ops'] assms by simp
  also have "\<dots> = apply_claims ops (apply_claims ops' st)" by (rule swap[OF assms(2,1)])
  also have "\<dots> = apply_claims ops' st" using absorb[of ops' ops] assms by simp
  finally show ?thesis .
qed

section \<open>The claims as a function of what happened\<close>

definition op_add :: "NodeId \<Rightarrow> ClaimOp \<Rightarrow> u64" where
  "op_add origin op = (case op of Claim_add dot \<Rightarrow> if dot_origin dot = origin then dot_sequence dot else 0
     | Claim_release _ \<Rightarrow> 0)"

definition op_cut :: "NodeId \<Rightarrow> ClaimOp \<Rightarrow> u64" where
  "op_cut origin op = (case op of Claim_add _ \<Rightarrow> 0 | Claim_release observed \<Rightarrow> clock_at observed origin)"

definition highest :: "(ClaimOp \<Rightarrow> u64) \<Rightarrow> ClaimOp list \<Rightarrow> u64" where
  "highest f ops = foldl (\<lambda>m op. max m (f op)) 0 ops"

lemma highest_snoc: "highest f (ops @ [op]) = max (highest f ops) (f op)"
  by (simp add: highest_def)

lemma ObjectState_0_ok: "state_ok ObjectState_0"
  by (simp add: state_ok_def ObjectState_0_def)

lemma op_simps [simp]:
  "op_add origin (Claim_add dot) = (if dot_origin dot = origin then dot_sequence dot else 0)"
  "op_add origin (Claim_release observed) = 0"
  "op_cut origin (Claim_add dot) = 0" "op_cut origin (Claim_release observed) = clock_at observed origin"
  by (simp_all add: op_add_def op_cut_def)

lemma apply_claims_snoc: "apply_claims (ops @ [op]) st = apply_claim op (apply_claims ops st)"
  by (simp add: apply_claims_def)

lemma apply_claims_clocks:
  assumes "list_all claim_op_ok ops"
  shows "(\<forall>origin. clock_at (os_removed (apply_claims ops ObjectState_0)) origin = highest (op_cut origin) ops) \<and>
    (\<forall>origin. clock_at (os_adds (apply_claims ops ObjectState_0)) origin =
       (if highest (op_cut origin) ops < highest (op_add origin) ops then highest (op_add origin) ops else 0))"
  using assms
proof (induction ops rule: rev_induct)
  case Nil
  show ?case by (simp add: ObjectState_0_def highest_def)
next
  case (snoc op ops)
  then have ok: "list_all claim_op_ok ops" "claim_op_ok op" by simp_all
  let ?st = "apply_claims ops ObjectState_0"
  have st: "state_ok ?st" by (rule apply_claims_ok[OF ok(1) ObjectState_0_ok])
  from snoc.IH[OF ok(1)] have R: "\<And>origin. clock_at (os_removed ?st) origin = highest (op_cut origin) ops"
    and A: "\<And>origin. clock_at (os_adds ?st) origin =
       (if highest (op_cut origin) ops < highest (op_add origin) ops then highest (op_add origin) ops else 0)" by simp_all
  show ?case
  proof (cases op)
    case (Claim_add dot)
    note c = add_clocks(1,2)[OF st ok(2)[unfolded Claim_add]]
    show ?thesis
      unfolding apply_claims_snoc Claim_add c
      by (simp add: highest_snoc R A max_u64_simps) (auto simp: max_def)
  next
    case (Claim_release observed)
    note c = release_clocks(1,2)[OF st ok(2)[unfolded Claim_release]]
    show ?thesis
      unfolding apply_claims_snoc Claim_release c
      by (simp add: highest_snoc R A max_u64_simps) (auto simp: max_def)
  qed
qed

section \<open>The bytes of a state\<close>

definition enc_clock :: "NodeId \<times> u64 \<Rightarrow> Bytes" where
  "enc_clock c = fst c @ enc_u64 (snd c)"

definition enc_side :: "(NodeId, u64) omap \<Rightarrow> Bytes" where
  "enc_side m = enc_u16 (of_nat (length m)) @ concat (map enc_clock m)"

lemma foldl_write_clock: "foldl write_clock w m = w @ concat (map enc_clock m)"
  by (induction m arbitrary: w) (simp_all add: write_clock_def enc_clock_def writer_simps)

lemma write_side_ok: "length m \<le> 65535 \<Longrightarrow> write_side w m = Inr (w @ enc_side m)"
  by (simp add: write_side_def enc_side_def foldl_write_clock writer_simps)

lemma reads_clock:
  assumes "clocks_ok (acc @ [c])"
  shows "reads (read_clock what acc) (enc_clock c) (acc @ [c])"
proof -
  have c: "length (fst c) = 16" "fst c \<noteq> NodeId0" "snd c \<noteq> 0" and m: "omap_ok acc" "\<forall>e \<in> set acc. fst e < fst c"
    using assms by (auto simp: clocks_ok_def omap_ok_def sorted_wrt_append)
  have n: "map_of acc (fst c) = None" by (rule map_of_above_omap[OF m(2)])
  have "reads (read_clock what acc) (fst c @ enc_u64 (snd c) @ []) (acc @ [(fst c, snd c)])"
    unfolding read_clock_def using c n m
    by (intro reads_bind[OF reads_fixed[OF c(1)]] reads_bind[OF reads_u64] reads_if reads_ret_eq)
       (simp_all add: map_put_last)
  then show ?thesis by (simp add: enc_clock_def)
qed

lemma reads_clock_map:
  assumes "clocks_ok m"
  shows "reads (read_clock_map what (length m)) (concat (map enc_clock m)) m"
proof -
  have "reads (foldM (\<lambda>side _. read_clock what side) [] [0..<length m]) (concat (map enc_clock m)) ([] @ m)"
    by (rule reads_entries[where ok = clocks_ok])
       (use assms in \<open>auto intro: reads_clock simp: clocks_ok_def dest: omap_ok_prefix\<close>)
  then show ?thesis by (simp add: read_clock_map_def)
qed

lemma unat_u16_length: "n \<le> 65535 \<Longrightarrow> unat (of_nat n :: u16) = n"
  by (simp add: unat_of_nat take_bit_nat_eq_self)

lemma decode_encode_state:
  assumes "clocks_ok (os_adds st)" "clocks_ok (os_removed st)" "length (os_adds st) \<le> 65535" "length (os_removed st) \<le> 65535"
  shows "encode_state st = Inr (enc_side (os_adds st) @ enc_side (os_removed st))"
    "decode_state (enc_side (os_adds st) @ enc_side (os_removed st)) = Inr st"
proof -
  show "encode_state st = Inr (enc_side (os_adds st) @ enc_side (os_removed st))"
    using assms(3,4) by (simp add: encode_state_def write_side_ok)
  have "decode_state (enc_u16 (of_nat (length (os_adds st))) @ concat (map enc_clock (os_adds st)) @
      enc_u16 (of_nat (length (os_removed st))) @ concat (map enc_clock (os_removed st)) @ []) = Inr st"
    unfolding decode_state_def
    by (rule reads_all_reader, rule reads_all_bind[OF reads_u16], unfold unat_u16_length[OF assms(3)],
        rule reads_all_bind[OF reads_clock_map[OF assms(1)]], rule reads_all_bind[OF reads_u16],
        unfold unat_u16_length[OF assms(4)], rule reads_all_bind[OF reads_clock_map[OF assms(2)]], rule reads_all_finish)
       simp
  then show "decode_state (enc_side (os_adds st) @ enc_side (os_removed st)) = Inr st" by (simp add: enc_side_def)
qed

lemma claimed_side:
  assumes "length m \<le> 65535"
  shows "claimed (enc_side m @ rest) \<longleftrightarrow> m \<noteq> []"
proof -
  let ?v = "of_nat (length m) :: u16"
  have e: "enc_u16 ?v = [ucast (drop_bit 8 ?v), ucast ?v]" by (simp add: enc_u16_def writer_u16_def)
  have "claimed (enc_side m @ rest) \<longleftrightarrow> (ucast (drop_bit 8 ?v) :: u8) \<noteq> 0 \<or> (ucast ?v :: u8) \<noteq> 0"
    by (simp add: claimed_def enc_side_def e)
  also have "\<dots> \<longleftrightarrow> ?v \<noteq> 0"
  proof -
    have "enc_u16 0 = [0, 0]" by (simp add: enc_u16_def writer_u16_def)
    then have "enc_u16 ?v = [0, 0] \<longleftrightarrow> ?v = 0" using u16c.enc_inj[of ?v 0] by auto
    then show ?thesis unfolding e by auto
  qed
  also have "\<dots> \<longleftrightarrow> unat ?v \<noteq> 0" by (simp only: unat_eq_zero)
  also have "\<dots> \<longleftrightarrow> m \<noteq> []" unfolding unat_u16_length[OF assms] by simp
  finally show ?thesis .
qed

section \<open>Properties\<close>


definition node_a :: NodeId where "node_a = replicate 16 7"


text \<open>
  C30: The record of an object gives back its claims, and its first two bytes say whether there are any.
\<close>

theorem state_record_roundtrip:
  assumes "state_ok st" "length (os_adds st) \<le> 65535" "length (os_removed st) \<le> 65535"
  shows "\<exists>record. encode_state st = Inr record \<and> decode_state record = Inr st \<and>
    (claimed record \<longleftrightarrow> os_adds st \<noteq> [])"
  using decode_encode_state[of st] claimed_side[OF assms(2), of "enc_side (os_removed st)"] assms
  by (auto simp: state_ok_def)

theorem state_record_roundtrip_witness:
  "\<exists>record. encode_state \<lparr>os_adds = [(node_a, 5)], os_removed = [(node_a, 3)]\<rparr> = Inr record \<and> claimed record"
proof -
  have "state_ok \<lparr>os_adds = [(node_a, 5)], os_removed = [(node_a, 3)]\<rparr>"
    by (simp add: state_ok_def clocks_ok_def omap_ok_def node_a_def NodeId0_def clock_at_def)
  from state_record_roundtrip[OF this] show ?thesis by auto
qed

end
