(* ===== verification/Retention.thy ===== *)
theory Retention
  imports Retention_State
begin

text \<open>
  The store of claims (\<^verbatim>\<open>RetentionStore\<close>, \<^verbatim>\<open>src/storage/retention.cpp\<close>): one object trie a class of
  objects, and a write-ahead log of the adds, releases and prunes since the last checkpoint. The
  state is the object with its files; the lock it holds during an operation is not modelled, each
  operation being one step.
\<close>

section \<open>Constants\<close>

definition retention_journal_aad :: Bytes where "retention_journal_aad = string_bytes ''MACHRTJ1''"
definition checkpoint_aad :: Bytes where "checkpoint_aad = string_bytes ''MACHRTS1''"
definition legacy_checkpoint_magic :: Bytes where "legacy_checkpoint_magic = string_bytes ''MRTS0001''"
definition shard_checkpoint_magic :: Bytes where "shard_checkpoint_magic = string_bytes ''MRTS0002''"
definition code_add :: u8 where "code_add = 1"
definition code_release :: u8 where "code_release = 2"
definition code_prune :: u8 where "code_prune = 3"
definition max_legacy_frame :: nat where "max_legacy_frame = 64 * 1024 * 1024"
definition max_journal_frame :: nat where "max_journal_frame = 4 * 1024 * 1024"
definition journal_compact_bytes :: nat where "journal_compact_bytes = 64 * 1024 * 1024"
definition retain_ids_per_frame :: nat where "retain_ids_per_frame = 65536"
definition max_checkpoint_shard_bytes :: nat where "max_checkpoint_shard_bytes = 64 * 1024 * 1024"
definition checkpoint_shards :: nat where "checkpoint_shards = 256"
definition checkpoint_changed :: nat where "checkpoint_changed = 8192"
definition checkpoint_journal_bytes :: nat where "checkpoint_journal_bytes = 4 * 1024 * 1024"
definition scan_page :: nat where "scan_page = 256"

section \<open>The checkpoint files before the tries\<close>

text \<open>
  The files under the store's directory a migration reads: \<^verbatim>\<open>claims.current\<close>, \<^verbatim>\<open>claims.meta\<close> and the
  shards of a generation under \<^verbatim>\<open>checkpoints\<close>; and the mark that says the tries have taken over.
\<close>

record RetentionFiles =
  rf_current :: "string option"
  rf_meta :: "Bytes option"
  rf_shards :: "string \<Rightarrow> string \<Rightarrow> Bytes option"
  rf_ledger :: bool

definition shard_name :: "u8 \<Rightarrow> string" where
  "shard_name shard = hex [shard] @ ''.meta''"

definition valid_generation_name :: "string \<Rightarrow> bool" where
  "valid_generation_name value \<longleftrightarrow> take 4 value = ''gen-'' \<and> CHR ''/'' \<notin> set value \<and>
     CHR 0x5C \<notin> set value \<and> length value \<le> 128"

definition trailing_space :: "char \<Rightarrow> bool" where
  "trailing_space c \<longleftrightarrow> c = CHR 0x0A \<or> c = CHR 0x0D \<or> c = CHR '' '' \<or> c = CHR 0x09"

definition read_small_text :: "string \<Rightarrow> nat \<Rightarrow> string result" where
  "read_small_text text limit =
     (if length text > limit then Inl (RuntimeError ''retention checkpoint manifest is too large'')
      else Inr (rev (dropWhile trailing_space (rev text))))"

text \<open>The adds a remove of the same checkpoint covers are dropped.\<close>

definition drop_covered :: "ObjectState \<Rightarrow> ObjectState" where
  "drop_covered object = object\<lparr>os_adds := filter (\<lambda>c.
     \<not> (case map_of (os_removed object) (fst c) of None \<Rightarrow> False | Some r \<Rightarrow> r \<ge> snd c)) (os_adds object)\<rparr>"

definition read_clocks :: "nat \<Rightarrow> (Reader, ObjectState) prog" where
  "read_clocks limit =
     bindM reader_u32 (\<lambda>adds.
     if unat adds > limit then raiseM (DecodeError ''too many retention checkpoint adds'')
     else bindM (read_clock_map ''bad retention checkpoint add'' (unat adds)) (\<lambda>added.
     bindM reader_u32 (\<lambda>removed.
     if unat removed > limit then raiseM (DecodeError ''too many retention checkpoint removes'')
     else bindM (read_clock_map ''bad retention checkpoint remove'' (unat removed)) (\<lambda>rm.
     retM (drop_covered \<lparr>os_adds = added, os_removed = rm\<rparr>)))))"

definition read_sealed :: "crypto \<Rightarrow> Bytes \<Rightarrow> Bytes \<Rightarrow> string \<Rightarrow> nat \<Rightarrow> Bytes \<Rightarrow> Bytes result" where
  "read_sealed C key magic what maximum encoded =
     bindR (fst (bindM (reader_fixed 8) (\<lambda>found.
       if found \<noteq> magic then raiseM (DecodeError what)
       else bindM (reader_fixed 12) (\<lambda>nonce. bindM (reader_fixed 16) (\<lambda>tag.
            bindM (reader_bytes maximum) (\<lambda>ciphertext. bindM reader_finish (\<lambda>_.
            retM (nonce, tag, ciphertext)))))) (reader encoded)))
       (\<lambda>(nonce, tag, ciphertext). aes_gcm_open C key nonce tag ciphertext checkpoint_aad)"

definition read_object :: "u8 option \<Rightarrow> nat \<Rightarrow> StateMap \<Rightarrow> (Reader, StateMap) prog" where
  "read_object shard limit state =
     bindM (reader_fixed 32) (\<lambda>i.
     if (case shard of None \<Rightarrow> False | Some s \<Rightarrow> i ! 0 \<noteq> s)
     then raiseM (DecodeError ''retention object stored in wrong checkpoint shard'')
     else bindM (read_clocks limit) (\<lambda>object.
     if map_of state i \<noteq> None then raiseM (DecodeError ''duplicate retention checkpoint object'')
     else retM (map_put i object state)))"

definition read_objects :: "u8 option \<Rightarrow> nat \<Rightarrow> nat \<Rightarrow> string \<Rightarrow> StateMap \<Rightarrow> (Reader, StateMap) prog" where
  "read_objects shard most limit what state =
     bindM reader_u32 (\<lambda>count.
     if unat count > most then raiseM (DecodeError what)
     else foldM (\<lambda>state _. read_object shard limit state) state [0..<unat count])"

definition decode_checkpoint_shard :: "crypto \<Rightarrow> Bytes \<Rightarrow> u8 \<Rightarrow> Bytes \<Rightarrow> StateMap \<times> StateMap \<Rightarrow>
    (StateMap \<times> StateMap) result" where
  "decode_checkpoint_shard C key shard encoded states =
     bindR (read_sealed C key shard_checkpoint_magic ''bad retention checkpoint shard magic''
              max_checkpoint_shard_bytes encoded) (\<lambda>plain.
       fst (bindM reader_u8 (\<lambda>version.
         bindM (if version \<noteq> 2 then raiseM (DecodeError ''bad retention checkpoint shard identity'')
                else reader_u8) (\<lambda>found.
         if found \<noteq> shard then raiseM (DecodeError ''bad retention checkpoint shard identity'')
         else bindM (read_objects (Some shard) 1500000 65536
                ''too many retention checkpoint shard objects'' (fst states)) (\<lambda>data.
              bindM (read_objects (Some shard) 1500000 65536
                ''too many retention checkpoint shard objects'' (snd states)) (\<lambda>control.
              bindM reader_finish (\<lambda>_. retM (data, control)))))) (reader plain)))"

definition decode_monolithic_checkpoint :: "crypto \<Rightarrow> Bytes \<Rightarrow> Bytes \<Rightarrow> StateMap \<times> StateMap \<Rightarrow>
    (StateMap \<times> StateMap) result" where
  "decode_monolithic_checkpoint C key encoded states =
     bindR (read_sealed C key legacy_checkpoint_magic ''bad retention checkpoint magic''
              max_legacy_frame encoded) (\<lambda>plain.
       fst (bindM reader_u8 (\<lambda>version.
         if version \<noteq> 1 then raiseM (DecodeError ''unsupported retention checkpoint version'')
         else bindM (read_objects None 4000000 1000000
                ''too many retention checkpoint objects'' (fst states)) (\<lambda>data.
              bindM (read_objects None 4000000 1000000
                ''too many retention checkpoint objects'' (snd states)) (\<lambda>control.
              bindM reader_finish (\<lambda>_. retM (data, control))))) (reader plain)))"

text \<open>A file that is not there is the error \<^verbatim>\<open>std::filesystem::file_size\<close> throws.\<close>

definition read_file :: "string \<Rightarrow> nat \<Rightarrow> Bytes option \<Rightarrow> Bytes result" where
  "read_file name limit file =
     (case file of
        None \<Rightarrow> Inl (RuntimeError (''filesystem error: cannot get file size: '' @ name))
      | Some bytes \<Rightarrow>
          if length bytes > limit then Inl (RuntimeError (''retention checkpoint is too large: '' @ name))
          else Inr bytes)"

definition load_checkpoint_files :: "crypto \<Rightarrow> Bytes \<Rightarrow> RetentionFiles \<Rightarrow> (StateMap \<times> StateMap) result" where
  "load_checkpoint_files C key files =
     (case rf_current files of
        None \<Rightarrow>
          (case rf_meta files of
             None \<Rightarrow> Inr ([], [])
           | Some meta \<Rightarrow>
               bindR (read_file ''claims.meta'' (max_legacy_frame + 64) (Some meta)) (\<lambda>bytes.
                 decode_monolithic_checkpoint C key bytes ([], [])))
      | Some text \<Rightarrow>
          bindR (read_small_text text 256) (\<lambda>generation.
            if \<not> valid_generation_name generation
            then Inl (RuntimeError ''invalid retention checkpoint generation'')
            else foldR (\<lambda>states i.
                   bindR (read_file (shard_name (of_nat i)) (max_checkpoint_shard_bytes + 64)
                            (rf_shards files generation (shard_name (of_nat i)))) (\<lambda>bytes.
                     decode_checkpoint_shard C key (of_nat i) bytes states))
                 ([], []) [0..<checkpoint_shards]))"

definition remove_checkpoint_files :: "RetentionFiles \<Rightarrow> RetentionFiles" where
  "remove_checkpoint_files files =
     files\<lparr>rf_current := None, rf_meta := None, rf_shards := (\<lambda>_ _. None)\<rparr>"

section \<open>The store\<close>

record ClassLedger =
  cl_trie :: ObjectTrie
  cl_release_after :: "ObjectId option"
  cl_prune_after :: "ObjectId option"

record RetentionStore =
  rs_key :: Bytes
  rs_data :: ClassLedger
  rs_control :: ClassLedger
  rs_changed :: nat
  rs_journal :: SealedJournal
  rs_files :: RetentionFiles

definition class_for :: "RetentionClass \<Rightarrow> RetentionStore \<Rightarrow> ClassLedger" where
  "class_for type s = (case type of Class_data \<Rightarrow> rs_data s | Class_control \<Rightarrow> rs_control s)"

definition put_class :: "RetentionClass \<Rightarrow> ClassLedger \<Rightarrow> RetentionStore \<Rightarrow> RetentionStore" where
  "put_class type l s = (case type of Class_data \<Rightarrow> s\<lparr>rs_data := l\<rparr> | Class_control \<Rightarrow> s\<lparr>rs_control := l\<rparr>)"

text \<open>An operation of a class's trie.\<close>

definition on_trie :: "RetentionClass \<Rightarrow> (ObjectTrie, 'a) prog \<Rightarrow> (RetentionStore, 'a) prog" where
  "on_trie type = zoomM (\<lambda>s. cl_trie (class_for type s))
     (\<lambda>t s. put_class type ((class_for type s)\<lparr>cl_trie := t\<rparr>) s)"

definition on_journal :: "(SealedJournal, 'a) prog \<Rightarrow> (RetentionStore, 'a) prog" where
  "on_journal = zoomM rs_journal (\<lambda>j s. s\<lparr>rs_journal := j\<rparr>)"

definition sorted_unique :: "ObjectId list \<Rightarrow> ObjectId list" where
  "sorted_unique ids = remdups_adj (sort ids)"

section \<open>Applying a frame\<close>

definition add_change :: "RetentionDot \<Rightarrow> Change list \<Rightarrow> ObjectId \<Rightarrow> (ObjectTrie, Change list) prog" where
  "add_change dot changes i =
     bindM (trie_get i) (\<lambda>record.
     bindM (liftM (case record of None \<Rightarrow> Inr ObjectState_0 | Some r \<Rightarrow> decode_state r)) (\<lambda>object.
     case add_to_state dot object of
       None \<Rightarrow> retM changes
     | Some object' \<Rightarrow>
         bindM (liftM (encode_state object')) (\<lambda>r. retM (changes @ [\<lparr>cg_id = i, cg_value = Some r\<rparr>]))))"

definition apply_changes :: "RetentionClass \<Rightarrow> Change list \<Rightarrow> (RetentionStore, nat) prog" where
  "apply_changes type changes =
     bindM (modifyM (\<lambda>s. s\<lparr>rs_changed := rs_changed s + length changes\<rparr>)) (\<lambda>_.
     bindM (on_trie type (trie_install changes)) (\<lambda>_. retM (length changes)))"

definition apply_add_locked :: "RetentionClass \<Rightarrow> RetentionDot \<Rightarrow> ObjectId list \<Rightarrow> (RetentionStore, unit) prog" where
  "apply_add_locked type dot ids =
     (if dot_origin dot = NodeId0 \<or> dot_sequence dot = 0
      then raiseM (RuntimeError ''invalid retention mutation dot'')
      else bindM (on_trie type (foldM (add_change dot) [] (sorted_unique ids))) (\<lambda>changes.
           bindM (apply_changes type changes) (\<lambda>_. retM ())))"

definition release_change :: "RetentionClock \<Rightarrow> Change list \<Rightarrow> ObjectId \<Rightarrow> (ObjectTrie, Change list) prog" where
  "release_change observed changes i =
     bindM (trie_get i) (\<lambda>record.
     case record of
       None \<Rightarrow> retM changes
     | Some r \<Rightarrow>
         bindM (liftM (decode_state r)) (\<lambda>object.
         case release_from_state observed object of
           None \<Rightarrow> retM changes
         | Some object' \<Rightarrow>
             bindM (liftM (encode_state object')) (\<lambda>r'. retM (changes @ [\<lparr>cg_id = i, cg_value = Some r'\<rparr>]))))"

definition apply_release_locked :: "RetentionClass \<Rightarrow> RetentionClock \<Rightarrow> ObjectId list \<Rightarrow> (RetentionStore, nat) prog" where
  "apply_release_locked type observed ids =
     bindM (on_trie type (foldM (release_change observed) [] (sorted_unique ids))) (apply_changes type)"

definition prune_change :: "Change list \<Rightarrow> ObjectId \<Rightarrow> (ObjectTrie, Change list) prog" where
  "prune_change changes i =
     bindM (trie_get i) (\<lambda>record.
     case record of
       None \<Rightarrow> retM changes
     | Some r \<Rightarrow> if \<not> claimed r then retM (changes @ [\<lparr>cg_id = i, cg_value = None\<rparr>]) else retM changes)"

definition apply_prune_locked :: "RetentionClass \<Rightarrow> ObjectId list \<Rightarrow> (RetentionStore, nat) prog" where
  "apply_prune_locked type ids =
     bindM (on_trie type (foldM prune_change [] (sorted_unique ids))) (apply_changes type)"

section \<open>Checkpoints\<close>

definition checkpoint_locked :: "(RetentionStore, unit) prog" where
  "checkpoint_locked =
     bindM (on_trie Class_data checkpoint) (\<lambda>_.
     bindM (on_trie Class_control checkpoint) (\<lambda>_.
     modifyM (\<lambda>s. s\<lparr>rs_journal := journal_reset (rs_journal s), rs_changed := 0,
                    rs_files := remove_checkpoint_files (rs_files s)\<rparr>)))"

definition checkpoint_if_due_locked :: "(RetentionStore, unit) prog" where
  "checkpoint_if_due_locked = bindM getM (\<lambda>s.
     if rs_changed s \<ge> checkpoint_changed \<or> sj_bytes (rs_journal s) \<ge> checkpoint_journal_bytes
     then checkpoint_locked else retM ())"

section \<open>Going through the records\<close>

text \<open>
  The local variables of \<^verbatim>\<open>scan_locked\<close>: where it began, where it goes on, whether it wrapped, how
  many it visited, the cursor it leaves, and what the visitor has gathered. \<open>scan_records\<close> is the
  loop over a page; it also says whether to return.
\<close>

record 'a Scan =
  sc_start :: "ObjectId option"
  sc_after :: "ObjectId option"
  sc_wrapped :: bool
  sc_visited :: nat
  sc_cursor :: "ObjectId option"
  sc_acc :: 'a

fun scan_records :: "('a \<Rightarrow> ObjectId \<Rightarrow> Bytes \<Rightarrow> 'a \<times> bool) \<Rightarrow> 'a Scan \<Rightarrow> Record list \<Rightarrow> 'a Scan \<times> bool" where
  "scan_records visit sc [] = (sc, False)"
| "scan_records visit sc (r # rs) =
     (if sc_wrapped sc \<and> (case sc_start sc of None \<Rightarrow> False | Some s \<Rightarrow> \<not> fst r < s) then (sc, True)
      else case visit (sc_acc sc) (fst r) (snd r) of (acc, go) \<Rightarrow>
        let sc' = sc\<lparr>sc_start := (case sc_start sc of None \<Rightarrow> Some (fst r) | Some s \<Rightarrow> Some s),
                     sc_visited := sc_visited sc + 1, sc_cursor := Some (fst r), sc_after := Some (fst r),
                     sc_acc := acc\<rparr>
        in if \<not> go then (sc', True) else scan_records visit sc' rs)"

fun scan_loop :: "nat \<Rightarrow> nat \<Rightarrow> ('a \<Rightarrow> ObjectId \<Rightarrow> Bytes \<Rightarrow> 'a \<times> bool) \<Rightarrow> 'a Scan \<Rightarrow> (ObjectTrie, 'a Scan) prog" where
  "scan_loop 0 limit visit sc = raiseM OutOfFuel"
| "scan_loop (Suc fuel) limit visit sc =
     (if sc_visited sc \<ge> limit then retM sc
      else bindM (trie_next (sc_after sc) (min scan_page (limit - sc_visited sc))) (\<lambda>page.
        if page = [] then
          if sc_wrapped sc \<or> sc_after sc = None then retM sc
          else scan_loop fuel limit visit (sc\<lparr>sc_wrapped := True, sc_after := None\<rparr>)
        else case scan_records visit sc page of (sc', done) \<Rightarrow>
          if done then retM sc' else scan_loop fuel limit visit sc'))"

text \<open>Each turn visits a record or wraps, which it does once.\<close>

definition scan_locked :: "nat \<Rightarrow> ('a \<Rightarrow> ObjectId \<Rightarrow> Bytes \<Rightarrow> 'a \<times> bool) \<Rightarrow> 'a \<Rightarrow> ObjectId option \<Rightarrow>
    (ObjectTrie, 'a \<times> ObjectId option) prog" where
  "scan_locked limit visit acc cursor =
     bindM (scan_loop (limit + 2) limit visit
       \<lparr>sc_start = None, sc_after = cursor, sc_wrapped = False, sc_visited = 0, sc_cursor = cursor, sc_acc = acc\<rparr>)
       (\<lambda>sc. retM (sc_acc sc, sc_cursor sc))"

section \<open>Starting\<close>

definition migrated_records :: "StateMap \<Rightarrow> Record list result" where
  "migrated_records state =
     foldR (\<lambda>records e. bindR (encode_state (snd e)) (\<lambda>r. Inr (records @ [(fst e, r)]))) []
       (filter (\<lambda>e. \<not> state_empty (snd e)) state)"

definition migrate_locked :: "crypto \<Rightarrow> (RetentionStore, unit) prog" where
  "migrate_locked C = bindM getM (\<lambda>s.
     bindM (liftM (load_checkpoint_files C (rs_key s) (rs_files s))) (\<lambda>(data, control).
     bindM (liftM (migrated_records data)) (\<lambda>rs.
     bindM (on_trie Class_data (replace_all rs)) (\<lambda>_.
     bindM (liftM (migrated_records control)) (\<lambda>rs.
     bindM (on_trie Class_control (replace_all rs)) (\<lambda>_.
     modifyM (\<lambda>s. s\<lparr>rs_files := (rs_files s)\<lparr>rf_ledger := True\<rparr>\<rparr>)))))))"

definition read_ids :: "string \<Rightarrow> (Reader, ObjectId list) prog" where
  "read_ids what =
     bindM reader_u32 (\<lambda>count.
     if unat count > 1000000 then raiseM (DecodeError (''too many retention '' @ what @ '' objects''))
     else bindM (repeatM (unat count) (reader_fixed 32)) (\<lambda>ids.
          bindM reader_finish (\<lambda>_. retM ids)))"

datatype RetentionFrame =
    Frame_add RetentionClass RetentionDot "ObjectId list"
  | Frame_release RetentionClass RetentionClock "ObjectId list"
  | Frame_prune RetentionClass "ObjectId list"

definition class_of :: "u8 \<Rightarrow> RetentionClass" where
  "class_of raw = (if raw = class_code Class_data then Class_data else Class_control)"

definition read_retention_frame :: "(Reader, RetentionFrame) prog" where
  "read_retention_frame =
     bindM reader_u8 (\<lambda>op. bindM reader_u8 (\<lambda>raw_class.
     if \<not> valid_class raw_class then raiseM (DecodeError ''bad retention object class'')
     else if op = code_add then
       bindM (reader_fixed 16) (\<lambda>origin. bindM reader_u64 (\<lambda>sequence.
       bindM (read_ids ''add'') (\<lambda>ids.
       retM (Frame_add (class_of raw_class) \<lparr>dot_origin = origin, dot_sequence = sequence\<rparr> ids))))
     else if op = code_release then
       bindM reader_u32 (\<lambda>clocks.
       if unat clocks > 1000000 then raiseM (DecodeError ''too many retention release clocks'')
       else bindM (read_clock_map ''bad retention release clock'' (unat clocks)) (\<lambda>observed.
       bindM (read_ids ''release'') (\<lambda>ids.
       retM (Frame_release (class_of raw_class) observed ids))))
     else if op = code_prune then
       bindM (read_ids ''prune'') (\<lambda>ids. retM (Frame_prune (class_of raw_class) ids))
     else raiseM (DecodeError ''unknown retention journal operation'')))"

definition apply_frame :: "RetentionFrame \<Rightarrow> (RetentionStore, unit) prog" where
  "apply_frame frame = (case frame of
     Frame_add type dot ids \<Rightarrow> apply_add_locked type dot ids
   | Frame_release type observed ids \<Rightarrow> bindM (apply_release_locked type observed ids) (\<lambda>_. retM ())
   | Frame_prune type ids \<Rightarrow> bindM (apply_prune_locked type ids) (\<lambda>_. retM ()))"

definition replay_retention_frame :: "Bytes \<Rightarrow> (RetentionStore, unit) prog" where
  "replay_retention_frame plaintext =
     bindM (liftM (fst (read_retention_frame (reader plaintext)))) apply_frame"

definition load_journal_locked :: "(RetentionStore, unit) prog" where
  "load_journal_locked = (\<lambda>s.
     case SealedJournal_replay replay_retention_frame max_legacy_frame (rs_journal s) s of
       (journal, s') \<Rightarrow> (Inr (), s'\<lparr>rs_journal := journal\<rparr>))"

text \<open>
  The constructor on what its directory holds: the two tries' directories, the log and the files of
  before. The tries' checkpoint and rewrite thresholds are \<^verbatim>\<open>ObjectTrie::Options\<close>' own.
\<close>

record RetentionDisk =
  rd_data :: TrieDisk
  rd_control :: TrieDisk
  rd_log :: Bytes
  rd_files :: RetentionFiles

record RetentionEnv =
  re_crypto :: crypto
  re_footprint :: "Node \<Rightarrow> nat"
  re_node_nonces :: "RetentionClass \<Rightarrow> u64 \<Rightarrow> nat \<Rightarrow> Bytes"
  re_journal_nonces :: "RetentionClass \<Rightarrow> nat \<Rightarrow> Bytes"
  re_log_nonces :: "nat \<Rightarrow> Bytes"

definition trie_options :: "nat \<Rightarrow> TrieOptions" where
  "trie_options cache_bytes =
     \<lparr>op_cache_bytes = cache_bytes, op_checkpoint_bytes = 1024 * 1024, op_rewrite_floor_bytes = 16 * 1024 * 1024\<rparr>"

definition open_ledger :: "RetentionEnv \<Rightarrow> Bytes \<Rightarrow> RetentionClass \<Rightarrow> nat \<Rightarrow> TrieDisk \<Rightarrow> ClassLedger result" where
  "open_ledger env key type cache_bytes disk =
     bindR (ObjectTrie_open (re_crypto env) (re_footprint env) (re_node_nonces env type)
              (re_journal_nonces env type) key (trie_options cache_bytes) disk) (\<lambda>t.
       Inr \<lparr>cl_trie = t, cl_release_after = None, cl_prune_after = None\<rparr>)"

definition RetentionStore_open :: "RetentionEnv \<Rightarrow> Bytes \<Rightarrow> nat \<Rightarrow> RetentionDisk \<Rightarrow> RetentionStore result" where
  "RetentionStore_open env key cache_bytes disk =
     bindR (open_ledger env key Class_data (cache_bytes - cache_bytes div 4) (rd_data disk)) (\<lambda>data.
     bindR (open_ledger env key Class_control (cache_bytes div 4) (rd_control disk)) (\<lambda>control.
     fst (bindM (if rf_ledger (rd_files disk) then retM () else migrate_locked (re_crypto env)) (\<lambda>_.
          bindM load_journal_locked (\<lambda>_. bindM checkpoint_if_due_locked (\<lambda>_. getM)))
       \<lparr>rs_key = key, rs_data = data, rs_control = control, rs_changed = 0,
        rs_journal = SealedJournal_open (re_crypto env) (re_log_nonces env) key retention_journal_aad
                       max_journal_frame (rd_log disk),
        rs_files = rd_files disk\<rparr>)))"

section \<open>Operations\<close>

definition write_ids :: "Writer \<Rightarrow> ObjectId list \<Rightarrow> Writer" where
  "write_ids w ids = foldl writer_fixed (writer_u32 w (of_nat (length ids))) ids"

definition encode_add :: "RetentionClass \<Rightarrow> RetentionDot \<Rightarrow> ObjectId list \<Rightarrow> Bytes" where
  "encode_add type dot ids =
     write_ids (writer_u64 (writer_fixed (writer_u8 (writer_u8 [] code_add) (class_code type))
       (dot_origin dot)) (dot_sequence dot)) ids"

definition retain_part :: "RetentionClass \<Rightarrow> RetentionDot \<Rightarrow> ObjectId list \<Rightarrow> (RetentionStore, unit) prog" where
  "retain_part type dot ids =
     bindM (on_journal (journal_append (encode_add type dot ids))) (\<lambda>_.
     bindM (apply_add_locked type dot ids) (\<lambda>_. checkpoint_if_due_locked))"

definition retain_batch :: "RetentionClass \<Rightarrow> ObjectId list \<Rightarrow> RetentionDot \<Rightarrow> (RetentionStore, unit) prog" where
  "retain_batch type input dot =
     (if input = [] then retM ()
      else if dot_origin dot = NodeId0 \<or> dot_sequence dot = 0
      then raiseM (RuntimeError ''invalid retention mutation dot'')
      else forM (retain_part type dot) (chunks retain_ids_per_frame (sorted_unique input)))"

definition retain :: "RetentionClass \<Rightarrow> ObjectId \<Rightarrow> RetentionDot \<Rightarrow> (RetentionStore, unit) prog" where
  "retain type i dot = retain_batch type [i] dot"

definition retained :: "RetentionClass \<Rightarrow> ObjectId \<Rightarrow> (RetentionStore, bool) prog" where
  "retained type i = bindM (on_trie type (trie_get i)) (\<lambda>record.
     retM (case record of None \<Rightarrow> False | Some r \<Rightarrow> claimed r))"

definition claims :: "RetentionClass \<Rightarrow> ObjectId \<Rightarrow> (RetentionStore, ObjectState) prog" where
  "claims type i = bindM (on_trie type (trie_get i)) (\<lambda>record.
     case record of None \<Rightarrow> retM ObjectState_0 | Some r \<Rightarrow> liftM (decode_state r))"

fun retained_loop :: "nat \<Rightarrow> ObjectId option \<Rightarrow> ObjectId list \<Rightarrow> (ObjectTrie, ObjectId list) prog" where
  "retained_loop 0 after ids = raiseM OutOfFuel"
| "retained_loop (Suc fuel) after ids =
     bindM (trie_next after scan_page) (\<lambda>page.
       let ids' = ids @ map fst (filter (\<lambda>r. claimed (snd r)) page)
       in if length page < scan_page then retM ids'
          else retained_loop fuel (Some (fst (last page))) ids')"

text \<open>A page more than the records fill is enough.\<close>

definition retained_ids :: "RetentionClass \<Rightarrow> (RetentionStore, ObjectId list) prog" where
  "retained_ids type = bindM getM (\<lambda>s.
     on_trie type (retained_loop (unat (trie_size (cl_trie (class_for type s))) div scan_page + 1) None []))"

definition claim_objects :: "RetentionClass \<Rightarrow> (RetentionStore, nat) prog" where
  "claim_objects type = bindM (retained_ids type) (\<lambda>ids. retM (length ids))"

fun first_claimed :: "ObjectId option \<Rightarrow> Record list \<Rightarrow> ObjectId option \<times> ObjectId option" where
  "first_claimed cursor [] = (None, cursor)"
| "first_claimed cursor (r # rs) =
     (if claimed (snd r) then (Some (fst r), Some (fst r)) else first_claimed (Some (fst r)) rs)"

fun next_loop :: "nat \<Rightarrow> ObjectId option \<Rightarrow> (ObjectTrie, ObjectId option \<times> ObjectId option \<times> bool) prog" where
  "next_loop 0 cursor = raiseM OutOfFuel"
| "next_loop (Suc fuel) cursor =
     bindM (trie_next cursor scan_page) (\<lambda>page.
       case first_claimed cursor page of
         (Some i, cursor') \<Rightarrow> retM (Some i, cursor', False)
       | (None, cursor') \<Rightarrow>
           if length page < scan_page then retM (None, None, True) else next_loop fuel cursor')"

text \<open>The next claimed id after a cursor, the new cursor, and whether the pass is complete.\<close>

definition next_retained :: "RetentionClass \<Rightarrow> ObjectId option \<Rightarrow>
    (RetentionStore, ObjectId option \<times> ObjectId option \<times> bool) prog" where
  "next_retained type cursor = bindM getM (\<lambda>s.
     on_trie type (next_loop (unat (trie_size (cl_trie (class_for type s))) div scan_page + 1) cursor))"

definition release_visit :: "(ObjectId \<Rightarrow> bool) \<Rightarrow> nat \<Rightarrow> ObjectId list \<Rightarrow> ObjectId \<Rightarrow> Bytes \<Rightarrow> ObjectId list \<times> bool" where
  "release_visit live budget candidates i record =
     (let candidates' = (if claimed record \<and> \<not> live i then candidates @ [i] else candidates)
      in (candidates', length candidates' < budget))"

definition encode_release :: "RetentionClass \<Rightarrow> RetentionClock \<Rightarrow> ObjectId list \<Rightarrow> Bytes" where
  "encode_release type clock ids =
     write_ids (foldl write_clock (writer_u32 (writer_u8 (writer_u8 [] code_release) (class_code type))
       (of_nat (length clock))) clock) ids"

definition release_unreferenced :: "RetentionClass \<Rightarrow> (ObjectId \<Rightarrow> bool) \<Rightarrow> RetentionClock \<Rightarrow> nat \<Rightarrow> (RetentionStore, nat) prog" where
  "release_unreferenced type live observed budget =
     (if budget = 0 \<or> observed = [] then retM 0
      else let clock = filter (\<lambda>c. fst c \<noteq> NodeId0 \<and> snd c \<noteq> 0) observed in
      if clock = [] then retM 0
      else bindM getM (\<lambda>s.
        let ledger = class_for type s in
        if trie_size (cl_trie ledger) = 0
        then bindM (modifyM (put_class type (ledger\<lparr>cl_release_after := None\<rparr>))) (\<lambda>_. retM 0)
        else bindM (on_trie type (scan_locked (max ((budget * 128) mod 2 ^ 64) 8192) (release_visit live budget) []
                      (cl_release_after ledger))) (\<lambda>(candidates, cursor).
             bindM (modifyM (\<lambda>s. put_class type ((class_for type s)\<lparr>cl_release_after := cursor\<rparr>) s)) (\<lambda>_.
             if candidates = [] then retM 0
             else bindM (on_journal (journal_append (encode_release type clock candidates))) (\<lambda>_.
                  bindM (apply_release_locked type clock candidates) (\<lambda>released.
                  bindM checkpoint_if_due_locked (\<lambda>_. retM released)))))))"

definition compact_if_needed :: "nat \<Rightarrow> (RetentionStore, bool) prog" where
  "compact_if_needed record_threshold = bindM getM (\<lambda>s.
     if sj_frames (rs_journal s) < record_threshold \<and> sj_bytes (rs_journal s) < journal_compact_bytes
     then retM False
     else bindM checkpoint_locked (\<lambda>_. retM True))"

definition prune_visit :: "ObjectId list \<Rightarrow> ObjectId \<Rightarrow> Bytes \<Rightarrow> ObjectId list \<times> bool" where
  "prune_visit unclaimed i record = ((if \<not> claimed record then unclaimed @ [i] else unclaimed), True)"

definition encode_prune :: "RetentionClass \<Rightarrow> ObjectId list \<Rightarrow> Bytes" where
  "encode_prune type ids = write_ids (writer_u8 (writer_u8 [] code_prune) (class_code type)) ids"

text \<open>
  \<^verbatim>\<open>prune_unclaimed\<close> gives up its lock between picking the records and erasing them, so it is two
  steps: other operations may come between.
\<close>

definition prune_pick :: "RetentionClass \<Rightarrow> nat \<Rightarrow> (RetentionStore, ObjectId list) prog" where
  "prune_pick type budget =
     (if budget = 0 then retM []
      else bindM getM (\<lambda>s.
        let ledger = class_for type s in
        if trie_size (cl_trie ledger) = 0
        then bindM (modifyM (put_class type (ledger\<lparr>cl_prune_after := None\<rparr>))) (\<lambda>_. retM [])
        else bindM (on_trie type (scan_locked budget prune_visit [] (cl_prune_after ledger))) (\<lambda>(unclaimed, cursor).
             bindM (modifyM (\<lambda>s. put_class type ((class_for type s)\<lparr>cl_prune_after := cursor\<rparr>) s)) (\<lambda>_.
             retM unclaimed))))"

definition prune_erase :: "RetentionClass \<Rightarrow> (ObjectId \<Rightarrow> bool) \<Rightarrow> ObjectId list \<Rightarrow> (RetentionStore, nat) prog" where
  "prune_erase type there picked =
     (let unclaimed = filter (\<lambda>i. \<not> there i) picked in
      if unclaimed = [] then retM 0
      else bindM (on_journal (journal_append (encode_prune type unclaimed))) (\<lambda>_.
           bindM (apply_prune_locked type unclaimed) (\<lambda>removed.
           bindM (modifyM (\<lambda>s. if trie_size (cl_trie (class_for type s)) = 0
                                then put_class type ((class_for type s)\<lparr>cl_prune_after := None\<rparr>) s else s)) (\<lambda>_.
           bindM checkpoint_if_due_locked (\<lambda>_. retM removed)))))"

definition prune_unclaimed :: "RetentionClass \<Rightarrow> (ObjectId \<Rightarrow> bool) \<Rightarrow> nat \<Rightarrow> (RetentionStore, nat) prog" where
  "prune_unclaimed type there budget = bindM (prune_pick type budget) (prune_erase type there)"


section \<open>The claims a store stands for\<close>

definition enc_state :: "ObjectState \<Rightarrow> Bytes" where
  "enc_state st = enc_side (os_adds st) @ enc_side (os_removed st)"

text \<open>States whose record the trie takes: a record's value is at most 16 KiB.\<close>

definition state_fits :: "ObjectState \<Rightarrow> bool" where
  "state_fits st \<longleftrightarrow> state_ok st \<and> length (enc_state st) \<le> value_max"

definition ledger_claims :: "ObjectTrie \<Rightarrow> (ObjectId \<Rightarrow> ObjectState option) \<Rightarrow> bool" where
  "ledger_claims t M \<longleftrightarrow> ledger_stands t (\<lambda>i. map_option enc_state (M i)) \<and> (\<forall>i st. M i = Some st \<longrightarrow> state_fits st)"

definition claims_fit :: "ObjectTrie \<Rightarrow> (ObjectId \<Rightarrow> ObjectState option) \<Rightarrow> bool" where
  "claims_fit t M \<longleftrightarrow> ledger_fits t (\<lambda>i. map_option enc_state (M i)) \<and> (\<forall>i st. M i = Some st \<longrightarrow> state_fits st)"

definition claims_of :: "(ObjectId \<Rightarrow> ObjectState option) \<Rightarrow> ObjectId \<Rightarrow> ObjectState" where
  "claims_of M i = (case M i of None \<Rightarrow> ObjectState_0 | Some st \<Rightarrow> st)"

lemma length_enc_clock: "length (fst c) = 16 \<Longrightarrow> length (enc_clock c) = 24"
  by (simp add: enc_clock_def)

lemma length_enc_side: "clocks_ok m \<Longrightarrow> length (enc_side m) = 2 + 24 * length m"
proof -
  assume ok: "clocks_ok m"
  have "length (concat (map enc_clock m)) = 24 * length m"
    using clocks_okD(2)[OF ok] by (induction m) (simp_all add: length_enc_clock)
  then show ?thesis by (simp add: enc_side_def)
qed

lemma state_fits_sides:
  assumes "state_fits st"
  shows "clocks_ok (os_adds st)" "clocks_ok (os_removed st)" "length (os_adds st) \<le> 65535" "length (os_removed st) \<le> 65535"
  using assms length_enc_side[of "os_adds st"] length_enc_side[of "os_removed st"]
  by (auto simp: state_fits_def state_ok_def enc_state_def value_max_def)

lemma state_fits_codec:
  assumes "state_fits st"
  shows "encode_state st = Inr (enc_state st)" "decode_state (enc_state st) = Inr st" "claimed (enc_state st) \<longleftrightarrow> os_adds st \<noteq> []"
  using decode_encode_state[OF state_fits_sides[OF assms]] claimed_side[OF state_fits_sides(3)[OF assms]]
  by (simp_all add: enc_state_def)

lemma sorted_unique_ok: "sorted_wrt (<) (sorted_unique ids)" "set (sorted_unique ids) = set ids"
  by (simp_all add: sorted_unique_def strict_remdups_adj)

lemma sorted_unique_sorted: "sorted_wrt (<) ids \<Longrightarrow> sorted_unique ids = ids"
  by (simp add: sorted_unique_def strict_sorted_iff sorted_sort_id remdups_adj_distinct)

text \<open>What each frame makes of one object's record.\<close>

definition after_add :: "RetentionDot \<Rightarrow> ObjectId list \<Rightarrow> (ObjectId \<Rightarrow> ObjectState option) \<Rightarrow> ObjectId \<Rightarrow> ObjectState option" where
  "after_add dot ids M i =
     (if i \<in> set ids then Some (apply_claim (Claim_add dot) (claims_of M i)) else M i)"

definition after_release :: "RetentionClock \<Rightarrow> ObjectId list \<Rightarrow> (ObjectId \<Rightarrow> ObjectState option) \<Rightarrow> ObjectId \<Rightarrow> ObjectState option" where
  "after_release observed ids M i =
     (if i \<in> set ids then map_option (apply_claim (Claim_release observed)) (M i) else M i)"

definition after_prune :: "ObjectId list \<Rightarrow> (ObjectId \<Rightarrow> ObjectState option) \<Rightarrow> ObjectId \<Rightarrow> ObjectState option" where
  "after_prune ids M i =
     (if i \<in> set ids \<and> os_adds (claims_of M i) = [] then None else M i)"

lemma edit_claims:
  assumes M: "ledger_claims t M" and ids: "\<forall>i \<in> set ids. id_ok i"
    and step: "\<And>acc i t'. step acc i t' =
      bindM (trie_get i) (\<lambda>r. bindM (liftM (decide r)) (\<lambda>c. retM (acc @ opt_change i c))) t'"
    and decide: "\<And>i. i \<in> set ids \<Longrightarrow> decide (map_option enc_state (M i)) = Inr (d i)"
    and M': "\<And>i. map_option enc_state (M' i) =
      (if i \<in> set ids then (case d i of None \<Rightarrow> map_option enc_state (M i) | Some v \<Rightarrow> v) else map_option enc_state (M i))"
    and fits: "claims_fit t M'"
  shows "\<exists>t1 t2 changes. foldM step [] (sorted_unique ids) t = (Inr changes, t1) \<and> trie_install changes t1 = (Inr (), t2) \<and>
    ledger_claims t2 M'"
proof -
  let ?ids = "sorted_unique ids"
  note so = sorted_unique_ok[of ids]
  have sz: "\<forall>i \<in> set ?ids. \<forall>v. d i = Some (Some v) \<longrightarrow> length v \<le> value_max"
  proof (intro ballI allI impI)
    fix i v assume "i \<in> set ?ids" "d i = Some (Some v)"
    with M'[of i] so(2) obtain st where "M' i = Some st" "enc_state st = v" by (auto split: if_splits)
    with fits show "length v \<le> value_max" by (auto simp: claims_fit_def state_fits_def)
  qed
  have "\<exists>t1 t2. foldM step [] ?ids t = (Inr (decided d ?ids), t1) \<and> trie_install (decided d ?ids) t1 = (Inr (), t2) \<and>
      ledger_stands t2 (\<lambda>i. map_option enc_state (M' i))"
  proof (rule trie_ledger.edit[where decide = "\<lambda>_. decide", OF _ so(1) _ step _ sz])
    show "ledger_stands t (\<lambda>i. map_option enc_state (M i))" using M by (simp add: ledger_claims_def)
    show "\<And>i. i \<in> set ?ids \<Longrightarrow> decide (map_option enc_state (M i)) = Inr (d i)" using decide so(2) by simp
    show "(\<lambda>i. map_option enc_state (M' i)) = (\<lambda>i. if i \<in> set ?ids
        then (case d i of None \<Rightarrow> map_option enc_state (M i) | Some v \<Rightarrow> v) else map_option enc_state (M i))"
      using M' so(2) by (simp add: fun_eq_iff)
    show "ledger_fits t (\<lambda>i. map_option enc_state (M' i))" using fits by (simp add: claims_fit_def)
  qed (use ids so(2) in simp)
  then show ?thesis using fits by (auto simp: ledger_claims_def claims_fit_def)
qed

end
