(* ===== verification/Unreferenced_Since.thy ===== *)
theory Unreferenced_Since
  imports Trie_Node
begin

text \<open>
  When this node first saw each object it holds unreferenced (\<^verbatim>\<open>src/storage/unreferenced_since.hpp\<close>,
  \<^verbatim>\<open>src/storage/unreferenced_since.cpp\<close>): the table, its file and the operations the sweeps call. The
  file is an optional byte list; that writing it may fail is an argument of \<open>us_save\<close>. Between two
  starts an object matures a whole grace after a sighting of a run that neither a \<open>forget\<close> nor a sweep
  without a sighting has ended (\<open>run_of\<close>); a start that reads a file from before a \<open>forget\<close> brings the ended sighting back.
\<close>

section \<open>The table and its file\<close>

record Sighting =
  si_first :: u64
  si_renewed :: bool

record UnreferencedSince =
  us_file :: "Bytes option"
  us_seen :: "(ObjectId, Sighting) omap"
  us_dirty :: bool

definition persisted_schema :: u32 where "persisted_schema = 1"

definition write_sighting :: "Writer \<Rightarrow> ObjectId \<times> u64 \<Rightarrow> Writer" where
  "write_sighting w s = writer_u64 (writer_fixed w (fst s)) (snd s)"

definition encode_unreferenced_since :: "(ObjectId, u64) omap \<Rightarrow> Bytes" where
  "encode_unreferenced_since sightings =
     foldl write_sighting (writer_u64 (writer_u32 [] persisted_schema) (of_nat (length sightings))) sightings"

definition read_sighting :: "(ObjectId, u64) omap \<Rightarrow> (Reader, (ObjectId, u64) omap) prog" where
  "read_sighting sightings =
     bindM (reader_fixed 32) (\<lambda>i. bindM reader_u64 (\<lambda>first_unix_ms.
       if map_of sightings i \<noteq> None then raiseM (DecodeError ''duplicate unreferenced-since object'')
       else retM (map_put i first_unix_ms sightings)))"

definition decode_unreferenced_since :: "Bytes \<Rightarrow> ((ObjectId, u64) omap) result" where
  "decode_unreferenced_since bytes =
     fst (bindM reader_u32 (\<lambda>schema.
       if schema \<noteq> persisted_schema then raiseM (DecodeError ''unknown unreferenced-since schema'')
       else bindM reader_u64 (\<lambda>count.
            bindM (foldM (\<lambda>sightings _. read_sighting sightings) [] [0..<unat count]) (\<lambda>sightings.
            bindM reader_finish (\<lambda>_. retM sightings)))) (reader bytes))"

section \<open>Operations\<close>

definition UnreferencedSince_open :: "Bytes option \<Rightarrow> UnreferencedSince" where
  "UnreferencedSince_open file =
     \<lparr>us_file = file,
      us_seen = (case file of
          None \<Rightarrow> []
        | Some bytes \<Rightarrow> (case decode_unreferenced_since bytes of
              Inl _ \<Rightarrow> []
            | Inr sightings \<Rightarrow> map (\<lambda>(i, t). (i, \<lparr>si_first = t, si_renewed = True\<rparr>)) sightings)),
      us_dirty = False\<rparr>"

definition matured :: "ObjectId \<Rightarrow> u64 \<Rightarrow> u64 \<Rightarrow> UnreferencedSince \<Rightarrow> bool \<times> UnreferencedSince" where
  "matured i now_unix_ms grace u =
     (let inserted = (map_of (us_seen u) i = None);
          found = (case map_of (us_seen u) i of
              None \<Rightarrow> \<lparr>si_first = now_unix_ms, si_renewed = True\<rparr>
            | Some s \<Rightarrow> s\<lparr>si_renewed := True\<rparr>);
          back = si_first found > now_unix_ms;
          found = (if back then found\<lparr>si_first := now_unix_ms\<rparr> else found)
      in (now_unix_ms - si_first found \<ge> grace,
          u\<lparr>us_seen := map_put i found (us_seen u), us_dirty := us_dirty u \<or> inserted \<or> back\<rparr>))"

definition forget :: "ObjectId \<Rightarrow> UnreferencedSince \<Rightarrow> UnreferencedSince" where
  "forget i u =
     (if map_of (us_seen u) i = None then u
      else u\<lparr>us_seen := map_erase i (us_seen u), us_dirty := True\<rparr>)"

definition pass_complete :: "UnreferencedSince \<Rightarrow> UnreferencedSince" where
  "pass_complete u =
     u\<lparr>us_seen := map (\<lambda>(i, s). (i, s\<lparr>si_renewed := False\<rparr>)) (filter (\<lambda>e. si_renewed (snd e)) (us_seen u)),
       us_dirty := us_dirty u \<or> list_ex (\<lambda>e. \<not> si_renewed (snd e)) (us_seen u)\<rparr>"

text \<open>Saving; \<open>written\<close> is whether the file could be replaced.\<close>

definition us_save :: "bool \<Rightarrow> UnreferencedSince \<Rightarrow> UnreferencedSince" where
  "us_save written u =
     (if \<not> us_dirty u then u
      else let bytes = encode_unreferenced_since (map (\<lambda>(i, s). (i, si_first s)) (us_seen u)) in
        if written then u\<lparr>us_file := Some bytes, us_dirty := False\<rparr> else u\<lparr>us_dirty := True\<rparr>)"

definition us_size :: "UnreferencedSince \<Rightarrow> nat" where
  "us_size u = length (us_seen u)"

section \<open>The file's round trip\<close>

definition sightings_ok :: "(ObjectId, u64) omap \<Rightarrow> bool" where
  "sightings_ok m \<longleftrightarrow> omap_ok m \<and> (\<forall>e \<in> set m. length (fst e) = 32)"

definition enc_sighting :: "ObjectId \<times> u64 \<Rightarrow> Bytes" where
  "enc_sighting s = fst s @ enc_u64 (snd s)"

lemma encode_unreferenced_since_bytes:
  "encode_unreferenced_since m = enc_u32 persisted_schema @ enc_u64 (of_nat (length m)) @ concat (map enc_sighting m)"
proof -
  have "foldl write_sighting w m = w @ concat (map enc_sighting m)" for w
    by (induction m arbitrary: w) (simp_all add: write_sighting_def enc_sighting_def writer_simps)
  then show ?thesis by (simp add: encode_unreferenced_since_def writer_simps)
qed

lemma reads_sighting:
  assumes "sightings_ok (acc @ [e])"
  shows "reads (read_sighting acc) (enc_sighting e) (acc @ [e])"
proof -
  have e: "length (fst e) = 32" and m: "omap_ok acc" "\<forall>e' \<in> set acc. fst e' < fst e"
    using assms by (auto simp: sightings_ok_def omap_ok_snoc)
  have "reads (read_sighting acc) (fst e @ enc_u64 (snd e) @ []) (acc @ [(fst e, snd e)])"
    unfolding read_sighting_def using e m
    by (intro reads_bind[OF reads_fixed[OF e]] reads_bind[OF reads_u64] reads_if reads_ret_eq)
       (simp_all add: map_put_last map_of_above_omap)
  then show ?thesis by (simp add: enc_sighting_def)
qed

lemma decode_encode_unreferenced_since:
  assumes "sightings_ok m" "length m < 2 ^ 64"
  shows "decode_unreferenced_since (encode_unreferenced_since m) = Inr m"
proof -
  have "unat (of_nat (length m) :: u64) = length m" using assms(2) by (simp add: unat_of_nat take_bit_nat_eq_self)
  moreover have "reads (foldM (\<lambda>m _. read_sighting m) [] [0..<length m]) (concat (map enc_sighting m)) ([] @ m)"
    by (rule reads_entries[where ok = sightings_ok])
       (use assms in \<open>auto intro: reads_sighting simp: sightings_ok_def dest: omap_ok_prefix\<close>)
  ultimately have m: "reads (foldM (\<lambda>m _. read_sighting m) [] [0..<unat (of_nat (length m) :: u64)]) (concat (map enc_sighting m)) m"
    by simp
  have "decode_unreferenced_since (enc_u32 persisted_schema @ enc_u64 (of_nat (length m)) @ concat (map enc_sighting m) @ []) = Inr m"
    unfolding decode_unreferenced_since_def
    by (rule reads_all_reader, rule reads_all_bind[OF reads_u32], rule reads_all_if, simp,
        rule reads_all_bind[OF reads_u64], rule reads_all_bind[OF m], rule reads_all_finish) simp
  then show ?thesis by (simp add: encode_unreferenced_since_bytes)
qed

section \<open>A table in use\<close>

definition us_ok :: "UnreferencedSince \<Rightarrow> bool" where
  "us_ok u \<longleftrightarrow> omap_ok (us_seen u) \<and> (\<forall>e \<in> set (us_seen u). length (fst e) = 32)"

lemma omap_ok_map: "(\<And>e. fst (f e) = fst e) \<Longrightarrow> omap_ok (map f m) = omap_ok m"
  by (simp add: omap_ok_def comp_def)

lemma omap_ok_filter: "omap_ok m \<Longrightarrow> omap_ok (filter P m)"
  by (simp add: omap_ok_def sorted_wrt_map sorted_wrt_filter)

lemma map_of_map_value: "map_of (map (\<lambda>(i, s). (i, f s)) m) i = map_option f (map_of m i)"
  by (induction m) auto

lemma map_of_filter_value:
  "omap_ok m \<Longrightarrow> map_of (filter (\<lambda>e. P (snd e)) m) i =
     (case map_of m i of None \<Rightarrow> None | Some s \<Rightarrow> if P s then Some s else None)"
proof (induction m)
  case (Cons e m)
  then show ?case using map_of_below_omap[OF Cons.prems order_refl] by (auto simp: omap_ok_Cons)
qed simp

lemma matured_ok: "us_ok u \<Longrightarrow> length i = 32 \<Longrightarrow> us_ok (snd (matured i now grace u))"
  using set_map_put by (fastforce simp: us_ok_def matured_def Let_def)

lemma forget_ok: "us_ok u \<Longrightarrow> us_ok (forget i u)"
  by (auto simp: us_ok_def forget_def map_erase_def omap_ok_filter)

lemma pass_complete_ok: "us_ok u \<Longrightarrow> us_ok (pass_complete u)"
  by (auto simp: us_ok_def pass_complete_def omap_ok_filter omap_ok_map case_prod_beta)

lemma us_save_ok: "us_ok u \<Longrightarrow> us_ok (us_save written u)"
  by (auto simp: us_ok_def us_save_def Let_def)

datatype SinceOp = Op_matured ObjectId u64 u64 | Op_forget ObjectId | Op_pass | Op_save bool

fun apply_since :: "SinceOp \<Rightarrow> UnreferencedSince \<Rightarrow> UnreferencedSince" where
  "apply_since (Op_matured i now grace) u = snd (matured i now grace u)"
| "apply_since (Op_forget i) u = forget i u"
| "apply_since Op_pass u = pass_complete u"
| "apply_since (Op_save written) u = us_save written u"

fun since_op_ok :: "SinceOp \<Rightarrow> bool" where
  "since_op_ok (Op_matured i now grace) \<longleftrightarrow> length i = 32"
| "since_op_ok _ \<longleftrightarrow> True"

text \<open>
  How long an object has been seen unreferenced without a break, told by the events alone: the times
  of its sightings, newest first, and whether there was one since the last complete sweep. A
  \<open>forget\<close> ends the run, and so does a sweep that completes without a sighting since the sweep before.
\<close>

type_synonym run = "u64 list \<times> bool"

fun run_step :: "ObjectId \<Rightarrow> run \<Rightarrow> SinceOp \<Rightarrow> run" where
  "run_step i (ts, renewed) (Op_matured j now grace) = (if j = i then (now # ts, True) else (ts, renewed))"
| "run_step i (ts, renewed) (Op_forget j) = (if j = i then ([], False) else (ts, renewed))"
| "run_step i (ts, renewed) Op_pass = (if renewed then (ts, False) else ([], False))"
| "run_step i (ts, renewed) (Op_save written) = (ts, renewed)"

definition run_of :: "ObjectId \<Rightarrow> run \<Rightarrow> SinceOp list \<Rightarrow> run" where
  "run_of i r ops = foldl (run_step i) r ops"

definition starting_run :: "UnreferencedSince \<Rightarrow> ObjectId \<Rightarrow> run" where
  "starting_run u i = (case map_of (us_seen u) i of None \<Rightarrow> ([], False) | Some s \<Rightarrow> ([si_first s], si_renewed s))"

text \<open>What the table has of an object is its run: the earliest time of it and the flag.\<close>

definition stands_for_run :: "ObjectId \<Rightarrow> run \<Rightarrow> UnreferencedSince \<Rightarrow> bool" where
  "stands_for_run i r u \<longleftrightarrow> (case map_of (us_seen u) i of
       None \<Rightarrow> r = ([], False)
     | Some s \<Rightarrow> fst r \<noteq> [] \<and> si_first s = Min (set (fst r)) \<and> snd r = si_renewed s)"

lemma apply_since_ok: "us_ok u \<Longrightarrow> since_op_ok op \<Longrightarrow> us_ok (apply_since op u)"
  by (cases op) (simp_all add: matured_ok forget_ok pass_complete_ok us_save_ok)

text \<open>The first sighting after one at \<open>now\<close>: a clock set back restarts it.\<close>

lemma matured_seen:
  assumes "us_ok u"
  shows "map_of (us_seen (snd (matured j now grace u))) i =
    (if i = j then Some \<lparr>si_first = (case map_of (us_seen u) j of None \<Rightarrow> now | Some s \<Rightarrow> min now (si_first s)), si_renewed = True\<rparr>
     else map_of (us_seen u) i)"
proof -
  have "omap_ok (us_seen u)" using assms by (simp add: us_ok_def)
  then show ?thesis
    by (cases "map_of (us_seen u) j") (auto simp: matured_def Let_def min_def not_less)
qed

lemma pass_complete_seen:
  "us_ok u \<Longrightarrow> map_of (us_seen (pass_complete u)) i =
     (case map_of (us_seen u) i of None \<Rightarrow> None | Some s \<Rightarrow> if si_renewed s then Some (s\<lparr>si_renewed := False\<rparr>) else None)"
  by (auto simp: pass_complete_def us_ok_def map_of_map_value map_of_filter_value split: option.split)

lemma apply_since_run:
  assumes "us_ok u" "stands_for_run i r u"
  shows "stands_for_run i (run_step i r op) (apply_since op u)"
proof -
  obtain ts renewed where r: "r = (ts, renewed)" by (cases r)
  show ?thesis
  proof (cases op)
    case (Op_matured j now grace)
    with assms r show ?thesis
      by (auto simp: stands_for_run_def matured_seen Min_insert2 split: option.splits)
  next
    case (Op_forget j)
    with assms r show ?thesis by (auto simp: stands_for_run_def forget_def split: option.splits)
  next
    case Op_pass
    with assms r show ?thesis by (auto simp: stands_for_run_def pass_complete_seen split: option.splits)
  next
    case (Op_save written)
    with assms r show ?thesis by (auto simp: stands_for_run_def us_save_def Let_def)
  qed
qed

lemma run_since:
  assumes "us_ok u" "stands_for_run i r u" "list_all since_op_ok ops"
  shows "us_ok (foldl (\<lambda>u op. apply_since op u) u ops) \<and>
    stands_for_run i (run_of i r ops) (foldl (\<lambda>u op. apply_since op u) u ops)"
  using assms
proof (induction ops arbitrary: u r)
  case (Cons op ops)
  then show ?case using apply_since_ok[of u op] apply_since_run[of u i r op] by (simp add: run_of_def)
qed (simp add: run_of_def)

lemma matured_run:
  assumes "stands_for_run i r u"
  shows "fst (matured i now grace u) \<longleftrightarrow> (\<exists>t \<in> set (now # fst r). unat t + unat grace \<le> unat now)"
proof -
  define t where "t = Min (set (now # fst r))"
  have "t = (case map_of (us_seen u) i of None \<Rightarrow> now | Some s \<Rightarrow> min now (si_first s))"
    using assms by (auto simp: t_def stands_for_run_def split: option.splits)
  then have "fst (matured i now grace u) \<longleftrightarrow> grace \<le> now - t"
    by (cases "map_of (us_seen u) i") (auto simp: matured_def Let_def min_def not_less)
  also have "\<dots> \<longleftrightarrow> unat t + unat grace \<le> unat now"
  proof -
    have "t \<le> now" by (simp add: t_def)
    then show ?thesis by (simp add: word_le_nat_alt unat_sub le_diff_conv2 add.commute)
  qed
  also have "\<dots> \<longleftrightarrow> (\<exists>t \<in> set (now # fst r). unat t + unat grace \<le> unat now)"
  proof
    assume "unat t + unat grace \<le> unat now"
    moreover have "t \<in> set (now # fst r)" unfolding t_def by (rule Min_in) auto
    ultimately show "\<exists>t \<in> set (now # fst r). unat t + unat grace \<le> unat now" by blast
  next
    assume "\<exists>t \<in> set (now # fst r). unat t + unat grace \<le> unat now"
    then obtain x where x: "x \<in> set (now # fst r)" "unat x + unat grace \<le> unat now" by blast
    have "t \<le> x" unfolding t_def using x(1) by (intro Min_le) auto
    with x(2) show "unat t + unat grace \<le> unat now" by (simp add: word_le_nat_alt)
  qed
  finally show ?thesis .
qed

lemma saved_first:
  assumes "us_ok u" "us_dirty u" "length (us_seen u) < 2 ^ 64"
  shows "map_of (us_seen (UnreferencedSince_open (us_file (us_save True u)))) i =
    map_option (\<lambda>s. \<lparr>si_first = si_first s, si_renewed = True\<rparr>) (map_of (us_seen u) i)"
proof -
  let ?m = "map (\<lambda>(i, s). (i, si_first s)) (us_seen u)"
  have "sightings_ok ?m"
    using assms(1) by (auto simp: us_ok_def sightings_ok_def omap_ok_map case_prod_beta)
  then have "decode_unreferenced_since (encode_unreferenced_since ?m) = Inr ?m"
    using assms(3) by (intro decode_encode_unreferenced_since) simp_all
  then show ?thesis
    using assms(2) by (cases "map_of (us_seen u) i")
      (simp_all add: us_save_def Let_def UnreferencedSince_open_def map_of_map_value[where f = "\<lambda>t. \<lparr>si_first = t, si_renewed = True\<rparr>"]
        map_of_map_value[where f = si_first] del: map_map)
qed

section \<open>Properties\<close>

text \<open>
  C8: An object is deleted only once it has stayed unreferenced for the grace. Whatever sequence of
  sightings, forgettings, sweeps and saves a table goes through, it answers that an object has
  matured exactly if one of the sightings of its unbroken run, this one included, was at least the
  grace before, on this node's clock. A \<open>forget\<close> ends the run, and so does a sweep that completes
  without a sighting of the object since the sweep before; a clock set back only lengthens the wait.
\<close>

theorem matures_after_grace:
  assumes "us_ok u" "list_all since_op_ok ops"
  shows "fst (matured i now grace (foldl (\<lambda>u op. apply_since op u) u ops)) \<longleftrightarrow>
    (\<exists>t \<in> set (now # fst (run_of i (starting_run u i) ops)). unat t + unat grace \<le> unat now)"
proof -
  have "stands_for_run i (starting_run u i) u" by (simp add: stands_for_run_def starting_run_def split: option.split)
  from run_since[OF assms(1) this assms(2)] show ?thesis by (intro matured_run) simp
qed

definition some_id :: ObjectId where "some_id = replicate 32 9"

text \<open>Seen in every sweep an object matures; not seen in one of them it does not.\<close>

theorem matures_after_grace_witness:
  "fst (matured some_id 1500 1000 (foldl (\<lambda>u op. apply_since op u) (UnreferencedSince_open None)
     [Op_matured some_id 400 1000, Op_pass, Op_matured some_id 900 1000, Op_pass])) \<and>
   \<not> fst (matured some_id 1500 1000 (foldl (\<lambda>u op. apply_since op u) (UnreferencedSince_open None)
     [Op_matured some_id 400 1000, Op_pass, Op_pass]))"
proof -
  have u: "us_ok (UnreferencedSince_open None)" by (simp add: us_ok_def UnreferencedSince_open_def)
  have r: "starting_run (UnreferencedSince_open None) some_id = ([], False)"
    by (simp add: starting_run_def UnreferencedSince_open_def)
  have ok: "list_all since_op_ok [Op_matured some_id 400 1000, Op_pass, Op_matured some_id 900 1000, Op_pass]"
    "list_all since_op_ok [Op_matured some_id 400 1000, Op_pass, Op_pass]" by (simp_all add: some_id_def)
  show ?thesis
    unfolding matures_after_grace[OF u ok(1)] matures_after_grace[OF u ok(2)] r by (simp add: run_of_def)
qed

text \<open>
  C32: A saved table is what the next start reads: after a save that wrote the file, opening it gives every
  object the first sighting it had, and nothing else.
\<close>

theorem saved_sightings_survive:
  assumes "us_ok u" "us_dirty u" "length (us_seen u) < 2 ^ 64"
  shows "map_of (us_seen (UnreferencedSince_open (us_file (us_save True u)))) i =
    map_option (\<lambda>s. \<lparr>si_first = si_first s, si_renewed = True\<rparr>) (map_of (us_seen u) i)"
  by (rule saved_first[OF assms])

theorem saved_sightings_survive_witness:
  "map_of (us_seen (UnreferencedSince_open (us_file (us_save True (snd (matured some_id 400 1000 (UnreferencedSince_open None))))))) some_id =
     Some \<lparr>si_first = 400, si_renewed = True\<rparr>"
  by (subst saved_sightings_survive)
     (simp_all add: us_ok_def matured_def UnreferencedSince_open_def Let_def some_id_def omap_ok_def)

text \<open>
  What a start makes of a sighting that was forgotten after the last save: the file still has it, so
  an object forgotten and unreferenced again is mature at its first sighting after the start.
\<close>

lemma forgotten_sighting_returns:
  assumes "length i = 32"
  shows "let saved = us_save True (snd (matured i 0 grace (UnreferencedSince_open None)));
             restarted = UnreferencedSince_open (us_file (forget i saved))
         in fst (matured i grace grace restarted)"
proof -
  let ?u = "snd (matured i 0 grace (UnreferencedSince_open None))"
  have "us_ok ?u" using assms by (intro matured_ok) (simp_all add: us_ok_def UnreferencedSince_open_def)
  moreover have "us_dirty ?u" "length (us_seen ?u) < 2 ^ 64" "map_of (us_seen ?u) i = Some \<lparr>si_first = 0, si_renewed = True\<rparr>"
    by (simp_all add: matured_def UnreferencedSince_open_def Let_def)
  ultimately have "map_of (us_seen (UnreferencedSince_open (us_file (us_save True ?u)))) i = Some \<lparr>si_first = 0, si_renewed = True\<rparr>"
    by (simp add: saved_first)
  moreover have "us_file (forget i v) = us_file v" for v by (simp add: forget_def)
  ultimately show ?thesis by (simp add: Let_def matured_def)
qed

end
