(* ===== verification/Trie_Write.thy ===== *)
theory Trie_Write
  imports Trie_Ledger
begin

text \<open>
  Writing to the object trie as its stores do: a change journaled, then installed. Changes given in
  any order are sorted by id with the last to an id winning; a write of small values never exceeds
  the journal's frame limit. \<open>trie_apply\<close> is then an update of the finite map the trie stands for.
\<close>

section \<open>Sorting changes\<close>

definition last_change :: "Change list \<Rightarrow> ObjectId \<Rightarrow> Bytes option option" where
  "last_change cs i =
     (let found = filter (\<lambda>c. cg_id c = i) cs in if found = [] then None else Some (cg_value (last found)))"

lemma last_change_snoc:
  "last_change (cs @ [c]) i = (if cg_id c = i then Some (cg_value c) else last_change cs i)"
  by (simp add: last_change_def)

lemma last_change_None: "last_change cs i = None \<longleftrightarrow> i \<notin> cg_id ` set cs"
  by (auto simp: last_change_def Let_def filter_empty_conv)

lemma changed_snoc:
  "cg_id c \<notin> cg_id ` set cs \<Longrightarrow> changed (cs @ [c]) = (changed cs)(cg_id c \<mapsto> cg_value c)"
  by (induction cs) (auto simp: changed_def fun_eq_iff)

text \<open>The loop that keeps the last of the changes to each id, on changes sorted by id.\<close>

definition pushed :: "Change list \<Rightarrow> Change list \<Rightarrow> bool" where
  "pushed xs ys \<longleftrightarrow> sorted_wrt (<) (map cg_id ys) \<and> set ys \<subseteq> set xs \<and> changed ys = last_change xs \<and>
     (xs = [] \<longleftrightarrow> ys = []) \<and> (xs \<noteq> [] \<longrightarrow> cg_id (last ys) = cg_id (last xs))"

lemma changed_ids: "changed cs i = None \<longleftrightarrow> i \<notin> cg_id ` set cs"
  by (force simp: changed_def map_of_eq_None_iff)

lemma pushed_step:
  assumes "pushed xs ys" "sorted (map cg_id (xs @ [c]))"
  shows "pushed (xs @ [c]) (push_unique ys c)"
proof -
  note p = assms(1)[unfolded pushed_def]
  have le: "\<forall>x \<in> set xs. cg_id x \<le> cg_id c" using assms(2) by (auto simp: sorted_append)
  then have le': "\<forall>y \<in> set ys. cg_id y \<le> cg_id c" using p by blast
  show ?thesis
  proof (cases "ys \<noteq> [] \<and> cg_id (last ys) = cg_id c")
    case True
    then obtain b l where ys: "ys = b @ [l]" by (metis append_butlast_last_id)
    have l: "cg_id l = cg_id c" using True ys by simp
    have b: "sorted_wrt (<) (map cg_id b)" "\<forall>y \<in> set b. cg_id y < cg_id c"
      using p ys l by (auto simp: sorted_wrt_append)
    have "changed (b @ [c]) = (changed b)(cg_id c \<mapsto> cg_value c)" using b(2) by (intro changed_snoc) force
    moreover have "changed ys = (changed b)(cg_id c \<mapsto> cg_value l)"
      unfolding ys using b(2) l changed_snoc[of l b] by force
    ultimately have "changed (b @ [c]) i = last_change (xs @ [c]) i" for i
      using p by (simp add: last_change_snoc fun_eq_iff)
    moreover have "push_unique ys c = b @ [c]" using ys l by (simp add: push_unique_def)
    ultimately show ?thesis using b p ys by (auto simp: pushed_def sorted_wrt_append fun_eq_iff)
  next
    case False
    have lt: "\<forall>y \<in> set ys. cg_id y < cg_id c"
    proof
      fix y assume y: "y \<in> set ys"
      then have ne: "ys \<noteq> []" by auto
      have srt: "sorted_wrt (<) (map cg_id (butlast ys @ [last ys]))" using p ne by simp
      have "y \<in> set (butlast ys @ [last ys])" using y ne by simp
      then have "cg_id y \<le> cg_id (last ys)" using srt by (auto simp: sorted_wrt_append intro: less_imp_le)
      moreover have "cg_id (last ys) < cg_id c" using le' ne False by (metis last_in_set order_le_less)
      ultimately show "cg_id y < cg_id c" by simp
    qed
    then have "changed (ys @ [c]) = (changed ys)(cg_id c \<mapsto> cg_value c)" by (intro changed_snoc) force
    then have "changed (ys @ [c]) i = last_change (xs @ [c]) i" for i using p by (simp add: last_change_snoc)
    moreover have "push_unique ys c = ys @ [c]" using False by (auto simp: push_unique_def)
    ultimately show ?thesis using p lt by (auto simp: pushed_def sorted_wrt_append fun_eq_iff)
  qed
qed

lemma push_unique_pushed: "sorted (map cg_id xs) \<Longrightarrow> pushed xs (foldl push_unique [] xs)"
proof (induction xs rule: rev_induct)
  case Nil
  show ?case by (simp add: pushed_def changed_def last_change_def fun_eq_iff)
next
  case (snoc c xs)
  then have "pushed xs (foldl push_unique [] xs)" by (simp add: sorted_append)
  from pushed_step[OF this snoc.prems] show ?case by simp
qed

lemma sort_changes_pushed:
  shows "sorted_wrt (<) (map cg_id (sort_changes cs))" "set (sort_changes cs) \<subseteq> set cs"
    "changed (sort_changes cs) = last_change cs" "sort_changes cs = [] \<longleftrightarrow> cs = []"
proof -
  have p: "pushed (sort_key cg_id cs) (sort_changes cs)" unfolding sort_changes_def by (rule push_unique_pushed) simp
  have "filter (\<lambda>c. cg_id c = i) (sort_key cg_id cs) = filter (\<lambda>c. cg_id c = i) cs" for i
    by (rule sort_key_stable)
  then have "last_change (sort_key cg_id cs) = last_change cs" by (simp add: last_change_def fun_eq_iff)
  moreover have "sort_key cg_id cs = [] \<longleftrightarrow> cs = []" by (metis length_0_conv length_sort)
  ultimately show "sorted_wrt (<) (map cg_id (sort_changes cs))" "set (sort_changes cs) \<subseteq> set cs"
    "changed (sort_changes cs) = last_change cs" "sort_changes cs = [] \<longleftrightarrow> cs = []"
    using p by (auto simp: pushed_def)
qed

lemma sort_changes_ok: "list_all change_ok cs \<Longrightarrow> changes_ok (sort_changes cs)"
  using sort_changes_pushed(1,2)[of cs] by (auto simp: changes_ok_def list_all_iff)

section \<open>Journaling changes\<close>

text \<open>Changes whose frames are within the journal's limit: values of a few bytes, as counts and marks are.\<close>

definition change_small :: "Change \<Rightarrow> bool" where
  "change_small c \<longleftrightarrow> id_ok (cg_id c) \<and> (\<forall>v. cg_value c = Some v \<longrightarrow> length v \<le> 26)"

definition enc_change :: "Change \<Rightarrow> Bytes" where
  "enc_change c = cg_id c @ (case cg_value c of None \<Rightarrow> enc_u8 0 | Some v \<Rightarrow> enc_u8 1 @ enc_bytes v)"

definition enc_changes :: "Change list \<Rightarrow> Bytes" where
  "enc_changes part = enc_u8 journal_version @ enc_u32 (of_nat (length part)) @ concat (map enc_change part)"

lemma change_small_ok: "change_small c \<Longrightarrow> change_ok c"
  by (auto simp: change_small_def change_ok_def change_too_large_def value_max_def split: option.split)

lemma write_change_ok: "change_ok c \<Longrightarrow> write_change w c = Inr (w @ enc_change c)"
  by (cases "cg_value c")
     (auto simp: write_change_def enc_change_def change_ok_def change_too_large_def value_max_def writer_bytes_append writer_simps)

lemma encode_changes_ok:
  assumes "list_all change_ok part"
  shows "encode_changes part = Inr (enc_changes part)"
proof -
  have "foldR write_change w part = Inr (w @ concat (map enc_change part))" for w
    using assms by (induction part arbitrary: w) (simp_all add: write_change_ok)
  then show ?thesis by (simp add: encode_changes_def enc_changes_def writer_simps)
qed

lemma length_enc_change: "change_small c \<Longrightarrow> length (enc_change c) \<le> 63"
  by (cases "cg_value c") (simp_all add: change_small_def enc_change_def id_ok_def enc_bytes_def)

lemma length_enc_changes:
  assumes "\<forall>c \<in> set part. change_small c" "length part \<le> changes_per_frame"
  shows "length (enc_changes part) \<le> max_frame"
proof -
  have "length (concat (map enc_change part)) \<le> 63 * length part"
    using assms(1)
  proof (induction part)
    case (Cons c part)
    then show ?case using length_enc_change[of c] by simp
  qed simp
  with assms(2) show ?thesis by (simp add: enc_changes_def changes_per_frame_def max_frame_def)
qed

lemma concat_chunks: "0 < n \<Longrightarrow> concat (chunks n xs) = xs \<and> (\<forall>part \<in> set (chunks n xs). length part \<le> n)"
proof (induction "length xs" arbitrary: xs rule: less_induct)
  case less
  show ?case
  proof (cases "xs = []")
    case True
    then show ?thesis by (simp add: chunks.simps)
  next
    case False
    have "concat (chunks n (drop n xs)) = drop n xs \<and> (\<forall>part \<in> set (chunks n (drop n xs)). length part \<le> n)"
      by (rule less.hyps) (use False less.prems in simp_all)
    moreover have "chunks n xs = take n xs # chunks n (drop n xs)"
      using False less.prems by (subst chunks.simps) simp
    ultimately show ?thesis by simp
  qed
qed

lemma chunks_parts: "0 < n \<Longrightarrow> part \<in> set (chunks n xs) \<Longrightarrow> length part \<le> n \<and> set part \<subseteq> set xs"
  using concat_chunks[of n xs] set_concat[of "chunks n xs"] by auto

text \<open>A write appends one frame for each part of the changes, and changes only the journal.\<close>

lemma trie_write_frames:
  assumes "P ps (ot_journal t)" "\<forall>c \<in> set cs. change_small c"
    and append: "\<And>ps j p. P ps j \<Longrightarrow> length p \<le> max_frame \<Longrightarrow> \<exists>j'. journal_append p j = (Inr (), j') \<and> P (ps @ [p]) j'"
  shows "\<exists>j. trie_write cs t = (Inr (), t\<lparr>ot_journal := j\<rparr>) \<and> P (ps @ map enc_changes (chunks changes_per_frame cs)) j"
proof -
  let ?step = "\<lambda>part. bindM (liftM (encode_changes part)) (\<lambda>bytes.
      zoomM ot_journal (\<lambda>j t. t\<lparr>ot_journal := j\<rparr>) (journal_append bytes))"
  have "\<exists>j. forM ?step pss t = (Inr (), t\<lparr>ot_journal := j\<rparr>) \<and> P (ps @ map enc_changes pss) j"
    if "\<forall>part \<in> set pss. (\<forall>c \<in> set part. change_small c) \<and> length part \<le> changes_per_frame" "P ps (ot_journal t)" for pss t ps
    using that
  proof (induction pss arbitrary: t ps)
    case Nil
    then show ?case by (intro exI[of _ "ot_journal t"]) auto
  next
    case (Cons part pss)
    have p: "\<forall>c \<in> set part. change_small c" "length part \<le> changes_per_frame" using Cons.prems(1) by simp_all
    have e: "encode_changes part = Inr (enc_changes part)"
      using p(1) by (intro encode_changes_ok) (auto simp: list_all_iff change_small_ok)
    obtain j where j: "journal_append (enc_changes part) (ot_journal t) = (Inr (), j)" "P (ps @ [enc_changes part]) j"
      using append[OF Cons.prems(2) length_enc_changes[OF p]] by blast
    have step: "?step part t = (Inr (), t\<lparr>ot_journal := j\<rparr>)" using e j(1) by (simp add: bindM_def zoomM_apply)
    have "\<exists>j'. forM ?step pss (t\<lparr>ot_journal := j\<rparr>) = (Inr (), t\<lparr>ot_journal := j\<rparr>\<lparr>ot_journal := j'\<rparr>) \<and>
        P ((ps @ [enc_changes part]) @ map enc_changes pss) j'"
      by (rule Cons.IH) (use Cons.prems j in auto)
    with step show ?case by (auto simp: bindM_def)
  qed
  moreover have "\<forall>part \<in> set (chunks changes_per_frame cs). (\<forall>c \<in> set part. change_small c) \<and> length part \<le> changes_per_frame"
    using chunks_parts[of changes_per_frame] assms(2) by (fastforce simp: changes_per_frame_def)
  ultimately obtain j where j: "forM ?step (chunks changes_per_frame cs) t = (Inr (), t\<lparr>ot_journal := j\<rparr>)"
    "P (ps @ map enc_changes (chunks changes_per_frame cs)) j" using assms(1) by blast
  have "\<not> list_ex change_too_large cs"
    using assms(2) change_small_ok by (auto simp: list_ex_iff change_ok_def)
  then have "trie_write cs t = (Inr (), t\<lparr>ot_journal := j\<rparr>)" using j(1) by (simp add: trie_write_def)
  then show ?thesis using j(2) by blast
qed

lemma trie_write_ok:
  assumes "file_ok (ot_journal t)" "\<forall>c \<in> set cs. change_small c"
  shows "\<exists>j. trie_write cs t = (Inr (), t\<lparr>ot_journal := j\<rparr>) \<and> file_ok j"
proof (rule trie_write_frames[where P = "\<lambda>_. file_ok", OF assms])
  fix j and p :: Bytes assume j: "file_ok j" "length p \<le> max_frame"
  then have ok: "journal_ok j" "length p \<le> sj_max_frame j" by (simp_all add: file_ok_def)
  from append_unsynced_ok[OF ok] length_frame_of[OF journal_okD(1,2)[OF ok(1)]] j
  show "\<exists>j'. journal_append p j = (Inr (), j') \<and> file_ok j'"
    by (simp add: journal_append_eq journal_ok_def file_ok_def)
qed

text \<open>Every frame of a write that returned is durable.\<close>

lemma trie_write_durable:
  assumes "journal_holds (ot_journal t) ps (length ps)" "sj_max_frame (ot_journal t) = max_frame" "\<forall>c \<in> set cs. change_small c"
  shows "\<exists>j. trie_write cs t = (Inr (), t\<lparr>ot_journal := j\<rparr>) \<and> sj_max_frame j = max_frame \<and>
    (let ps' = ps @ map enc_changes (chunks changes_per_frame cs) in journal_holds j ps' (length ps'))"
proof -
  have "journal_holds (ot_journal t) ps (length ps) \<and> sj_max_frame (ot_journal t) = max_frame" using assms(1,2) by simp
  from trie_write_frames[where P = "\<lambda>ps j. journal_holds j ps (length ps) \<and> sj_max_frame j = max_frame", OF this assms(3)]
  show ?thesis using journal_append_holds by (fastforce simp: Let_def)
qed

section \<open>Applying\<close>

definition applied :: "(ObjectId \<Rightarrow> Bytes option) \<Rightarrow> Change list \<Rightarrow> ObjectId \<Rightarrow> Bytes option" where
  "applied m cs i = (case last_change cs i of None \<Rightarrow> m i | Some v \<Rightarrow> v)"

lemma updated_sort_changes: "updated m (sort_changes cs) = applied m cs"
  by (simp add: fun_eq_iff updated_def applied_def sort_changes_pushed(3))

lemma stands_write:
  assumes "ledger_stands t m" "\<forall>c \<in> set cs. change_small c"
  shows "\<exists>j. trie_write cs t = (Inr (), t\<lparr>ot_journal := j\<rparr>) \<and> ledger_stands (t\<lparr>ot_journal := j\<rparr>) m \<and>
    (\<forall>m'. ledger_fits (t\<lparr>ot_journal := j\<rparr>) m' \<longleftrightarrow> ledger_fits t m')"
proof -
  obtain F rs where r: "represents F t rs" "m = map_of rs" using assms by (auto simp: ledger_stands_def)
  obtain j where j: "trie_write cs t = (Inr (), t\<lparr>ot_journal := j\<rparr>)" "file_ok j"
    using trie_write_ok[OF representsD(7)[OF r(1)] assms(2)] by blast
  have "represents F (t\<lparr>ot_journal := j\<rparr>) rs" using r(1) j(2) by (auto simp: represents_def trie_ready_def)
  with r(2) j(1) show ?thesis by (auto simp: ledger_stands_def ledger_fits_def room_def)
qed

text \<open>Journaling sorted changes and installing them.\<close>

lemma stands_write_install:
  assumes "ledger_stands t m" "changes_ok cs" "\<forall>c \<in> set cs. change_small c" "ledger_fits t (updated m cs)"
  shows "\<exists>t1 t2. trie_write cs t = (Inr (), t1) \<and> trie_install cs t1 = (Inr (), t2) \<and> ledger_stands t2 (updated m cs)"
  using stands_write[OF assms(1,3)] ledger_install[OF _ assms(2)] assms(4) by metis

lemma stands_apply:
  assumes "ledger_stands t m" "\<forall>c \<in> set cs. change_small c" "ledger_fits t (applied m cs)"
  shows "\<exists>t'. trie_apply cs t = (Inr (), t') \<and> ledger_stands t' (applied m cs)"
proof (cases "cs = []")
  case True
  then have "applied m cs = m" by (simp add: applied_def last_change_def fun_eq_iff)
  with True assms(1) show ?thesis by (simp add: trie_apply_def)
next
  case False
  have "list_all change_ok cs" using assms(2) change_small_ok by (auto simp: list_all_iff)
  then have ok: "changes_ok (sort_changes cs)" by (rule sort_changes_ok)
  have "\<forall>c \<in> set (sort_changes cs). change_small c" using assms(2) sort_changes_pushed(2) by blast
  from stands_write_install[OF assms(1) ok this] assms(3) obtain t1 t2 where
    "trie_write (sort_changes cs) t = (Inr (), t1)" "trie_install (sort_changes cs) t1 = (Inr (), t2)"
    "ledger_stands t2 (applied m cs)" unfolding updated_sort_changes by blast
  with False show ?thesis by (simp add: trie_apply_def bindM_def)
qed

lemma stands_replace_all:
  assumes "ledger_stands t m" "segment_ok 0 rs" "room t rs"
  shows "\<exists>t'. replace_all rs t = (Inr (), t') \<and> ledger_stands t' (map_of rs)"
proof -
  obtain F rs0 where "represents F t rs0" using assms(1) by (auto simp: ledger_stands_def)
  from replace_all_represents[OF this assms(2,3)] show ?thesis by (auto simp: ledger_stands_def)
qed

text \<open>An empty ledger in memory, for concrete runs.\<close>

definition empty_ledger :: ObjectTrie where
  "empty_ledger = ledger_trie\<lparr>ot_root := empty_child\<rparr>"

lemma empty_ledger_stands: "ledger_stands empty_ledger (\<lambda>_. None)"
proof -
  have "represents ledger_files empty_ledger []"
    using ledger_trie_represents holds_empty unfolding represents_def
    by (auto simp: empty_ledger_def trie_ready_def intro: holds_empty)
  then show ?thesis unfolding ledger_stands_def by (intro exI[of _ ledger_files] exI[of _ "[]"]) simp
qed

lemma empty_ledger_fits: "segment_ok 0 rs \<Longrightarrow> length rs \<le> 2 ^ 32 \<Longrightarrow> ledger_fits empty_ledger (map_of rs)"
  unfolding ledger_fits_def room_def
  by (auto simp: empty_ledger_def ledger_trie_def sample_trie_def empty_journal_def SealedJournal_open_def)

section \<open>Paging\<close>

lemma represents_next:
  assumes "represents F t rs" "\<And>a. after = Some a \<Longrightarrow> length a = 32"
  shows "\<exists>t'. trie_next after limit t = (Inr (take limit (wanted after (after \<noteq> None) rs)), t') \<and> represents F t' rs \<and>
    ot_nodes t' = ot_nodes t \<and> ot_generation t' = ot_generation t"
proof -
  note r = representsD[OF assms(1)]
  have "\<exists>t'. collect load_fuel (ot_root t) after (after \<noteq> None) limit [] trie_load t =
      (Inr (page_of after (after \<noteq> None) limit [] rs), t') \<and> trie_reading F t t'"
    by (rule trie_reader.collect_holds[OF r(1,4)]) (use assms(2) in \<open>auto simp: load_fuel_def\<close>)
  then obtain t' where t': "trie_next after limit t = (Inr (take limit (wanted after (after \<noteq> None) rs)), t')"
    "trie_reading F t t'" by (auto simp: trie_next_def page_of_def)
  have "represents F (t'\<lparr>ot_root := ot_root t'\<rparr>) rs"
    using represents_reading[OF assms(1) t'(2), of "ot_root t'" rs] r(4) trie_readingD(6)[OF t'(2)] by simp
  then have "represents F t' rs" by simp
  with t'(1) trie_readingD(2,3)[OF t'(2)] show ?thesis by blast
qed

lemma represents_size:
  assumes "represents F t rs"
  shows "unat (trie_size t) = length rs"
proof -
  have "ch_count (ot_root t) = of_nat (length rs)"
    using holds_summary(1)[OF representsD(4)[OF assms]] by (simp add: child_summary_def trie_summary_def)
  moreover have "length rs < 2 ^ 64" using segment_okD(3)[OF representsD(6)[OF assms]] .
  ultimately show ?thesis by (simp add: trie_size_def unat_of_nat take_bit_nat_eq_self)
qed

text \<open>
  The bound on the values matters: a full part whose values have 28 bytes or more does not fit a
  frame, and writing it fails though every value is within \<^verbatim>\<open>value_max\<close>.
\<close>

lemma large_frame_refused:
  assumes "\<forall>c \<in> set cs. change_ok c \<and> (\<exists>v. cg_value c = Some v \<and> 28 \<le> length v)" "length cs = changes_per_frame"
    "journal_holds (ot_journal t) ps d" "sj_max_frame (ot_journal t) = max_frame"
  shows "fst (trie_write cs t) = Inl (RuntimeError ''journal frame too large'')"
proof -
  have "65 * length cs \<le> length (concat (map enc_change cs))"
    using assms(1)
  proof (induction cs)
    case (Cons c cs)
    then have "65 \<le> length (enc_change c)"
      by (auto simp: enc_change_def change_ok_def id_ok_def enc_bytes_def)
    with Cons show ?case by simp
  qed simp
  then have "max_frame < length (enc_changes cs)"
    using assms(2) by (simp add: enc_changes_def changes_per_frame_def max_frame_def)
  with journal_append_rejects(1)[OF assms(3)] assms(4)
  have "fst (journal_append (enc_changes cs) (ot_journal t)) = Inl (RuntimeError ''journal frame too large'')" by simp
  moreover have "encode_changes cs = Inr (enc_changes cs)"
    using assms(1) by (intro encode_changes_ok) (auto simp: list_all_iff)
  moreover have "chunks changes_per_frame cs = [cs]"
    using assms(2) chunks.simps[of changes_per_frame cs] chunks.simps[of changes_per_frame "[]"] by (auto simp: changes_per_frame_def)
  moreover have "\<not> list_ex change_too_large cs" using assms(1) by (auto simp: list_ex_iff change_ok_def)
  ultimately show ?thesis
    by (simp add: trie_write_def bindM_def zoomM_apply split: prod.splits sum.splits)
qed

end
