(* ===== verification/Reference_Counts.thy ===== *)
theory Reference_Counts
  imports Trie_Write "HOL-Library.Multiset"
begin

text \<open>
  What the namespace refers to, counted per object (\<^verbatim>\<open>src/ledger/reference_counts.hpp\<close>,
  \<^verbatim>\<open>src/ledger/reference_counts.cpp\<close>): two tries whose records are counts, and a state file that says
  which namespace root they are at. The specification is a multiset of ids for each trie: a reset
  makes it the items given, a change adds the items in and takes the items out, and is refused
  whole when something to take out is not there.
\<close>

section \<open>State\<close>

record Totals =
  to_entries :: u64
  to_extent_count :: u64

definition Totals_0 :: Totals where
  "Totals_0 = \<lparr>to_entries = 0, to_extent_count = 0\<rparr>"

record ReferenceCounts =
  rc_extents :: ObjectTrie
  rc_nodes :: ObjectTrie
  rc_root :: "ObjectId option"
  rc_totals :: Totals
  rc_state :: "Bytes option"

definition on_extents :: "(ObjectTrie, 'a) prog \<Rightarrow> (ReferenceCounts, 'a) prog" where
  "on_extents m = zoomM rc_extents (\<lambda>t r. r\<lparr>rc_extents := t\<rparr>) m"

definition on_nodes :: "(ObjectTrie, 'a) prog \<Rightarrow> (ReferenceCounts, 'a) prog" where
  "on_nodes m = zoomM rc_nodes (\<lambda>t r. r\<lparr>rc_nodes := t\<rparr>) m"

definition counts_magic :: Bytes where
  "counts_magic = string_bytes ''MREF0001''"

definition options_for :: "nat \<Rightarrow> TrieOptions" where
  "options_for cache_bytes =
     \<lparr>op_cache_bytes = cache_bytes, op_checkpoint_bytes = 1024 * 1024, op_rewrite_floor_bytes = 16 * 1024 * 1024\<rparr>"

section \<open>Counts\<close>

definition encode_count :: "u64 \<Rightarrow> Bytes" where
  "encode_count n = writer_u64 [] n"

definition decode_count :: "Bytes \<Rightarrow> u64 result" where
  "decode_count bytes = fst (bindM reader_u64 (\<lambda>n. bindM reader_finish (\<lambda>_. retM n)) (reader bytes))"

text \<open>One record per run of equal ids in the sorted list.\<close>

definition counted :: "ObjectId list \<Rightarrow> Record list" where
  "counted ids = map (\<lambda>(i, run). (i, encode_count (of_nat (length run)))) (runs (\<lambda>i. i) (sort ids))"

definition bump :: "int \<Rightarrow> (ObjectId, int) omap \<Rightarrow> ObjectId \<Rightarrow> (ObjectId, int) omap" where
  "bump by delta i = map_put i ((case map_of delta i of None \<Rightarrow> 0 | Some n \<Rightarrow> n) + by) delta"

definition delta_for :: "ObjectId list \<Rightarrow> ObjectId list \<Rightarrow> (ObjectId, int) omap" where
  "delta_for incoming outgoing = foldl (bump (- 1)) (foldl (bump 1) [] incoming) outgoing"

text \<open>
  The loop over the changed ids; none when a count would go below zero. Counts are signed 64-bit
  numbers, and a sum outside their range is undefined.
\<close>

fun changes_loop :: "Change list \<Rightarrow> (ObjectId \<times> int) list \<Rightarrow> (ObjectTrie, Change list option) prog" where
  "changes_loop changes [] = retM (Some changes)"
| "changes_loop changes ((i, by) # more_delta) =
     (if by = 0 then changes_loop changes more_delta
      else bindM (trie_get i) (\<lambda>value.
           bindM (case value of None \<Rightarrow> retM 0 | Some v \<Rightarrow> liftM (decode_count v)) (\<lambda>n.
           let now = sint n in
           if now + by \<ge> 2 ^ 63 \<or> now + by < - (2 ^ 63) then raiseM UndefinedBehaviour
           else if now + by < 0 then retM None
           else changes_loop (changes @ [\<lparr>cg_id = i, cg_value =
                  (if now + by = 0 then None else Some (encode_count (word_of_int (now + by))))\<rparr>]) more_delta)))"

definition changes_for :: "ObjectId list \<Rightarrow> ObjectId list \<Rightarrow> (ObjectTrie, Change list option) prog" where
  "changes_for incoming outgoing = changes_loop [] (delta_for incoming outgoing)"

section \<open>The state file\<close>

definition encode_counts_state :: "bool \<Rightarrow> ObjectId option \<Rightarrow> Totals \<Rightarrow> Bytes" where
  "encode_counts_state clean root totals =
     (let w = writer_fixed [] counts_magic;
          w = writer_u8 w (if clean then 1 else 0);
          w = writer_u8 w (if root \<noteq> None then 1 else 0);
          w = writer_fixed w (case root of Some i \<Rightarrow> i | None \<Rightarrow> replicate 32 0);
          w = writer_u64 w (to_entries totals)
      in writer_u64 w (to_extent_count totals))"

text \<open>What opening makes of the state file: a root and totals, or nothing when it says dirty or cannot be read.\<close>

definition decode_counts_state :: "Bytes \<Rightarrow> (ObjectId option \<times> Totals) option" where
  "decode_counts_state bytes =
     (case fst (bindM (reader_fixed 8) (\<lambda>magic.
        if magic \<noteq> counts_magic then retM None
        else bindM reader_u8 (\<lambda>clean. bindM reader_u8 (\<lambda>has_root. bindM (reader_fixed 32) (\<lambda>root.
             bindM reader_u64 (\<lambda>entries. bindM reader_u64 (\<lambda>extent_count. bindM reader_finish (\<lambda>_.
             retM (if clean \<noteq> 1 then None
                   else Some (if has_root = 1 then Some root else None,
                          \<lparr>to_entries = entries, to_extent_count = extent_count\<rparr>))))))))) (reader bytes)) of
        Inl _ \<Rightarrow> None
      | Inr found \<Rightarrow> found)"

definition counts_members :: "ObjectTrie \<Rightarrow> ObjectTrie \<Rightarrow> Bytes option \<Rightarrow> ReferenceCounts" where
  "counts_members extents nodes state_file =
     (let found = (case state_file of None \<Rightarrow> None | Some bytes \<Rightarrow> decode_counts_state bytes) in
      \<lparr>rc_extents = extents, rc_nodes = nodes,
       rc_root = (case found of None \<Rightarrow> None | Some (root, _) \<Rightarrow> root),
       rc_totals = (case found of None \<Rightarrow> Totals_0 | Some (_, totals) \<Rightarrow> totals),
       rc_state = state_file\<rparr>)"

text \<open>What the directory holds, and the nonces of the two tries' files.\<close>

record CountsDisk =
  cd_extents :: TrieDisk
  cd_nodes :: TrieDisk
  cd_state :: "Bytes option"

record CountsEnv =
  ce_crypto :: crypto
  ce_footprint :: "Node \<Rightarrow> nat"
  ce_node_nonces :: "bool \<Rightarrow> u64 \<Rightarrow> nat \<Rightarrow> Bytes"
  ce_journal_nonces :: "bool \<Rightarrow> nat \<Rightarrow> Bytes"

definition open_counts :: "CountsEnv \<Rightarrow> bool \<Rightarrow> Bytes \<Rightarrow> nat \<Rightarrow> TrieDisk \<Rightarrow> ObjectTrie result" where
  "open_counts env extents key cache_bytes disk =
     ObjectTrie_open (ce_crypto env) (ce_footprint env) (ce_node_nonces env extents) (ce_journal_nonces env extents)
       key (options_for cache_bytes) disk"

definition ReferenceCounts_open :: "CountsEnv \<Rightarrow> Bytes \<Rightarrow> nat \<Rightarrow> CountsDisk \<Rightarrow> ReferenceCounts result" where
  "ReferenceCounts_open env key cache_bytes disk =
     bindR (open_counts env True key (cache_bytes - cache_bytes div 4) (cd_extents disk)) (\<lambda>extents.
     bindR (open_counts env False key (cache_bytes div 4) (cd_nodes disk)) (\<lambda>nodes.
     Inr (counts_members extents nodes (cd_state disk))))"

definition write_state :: "bool \<Rightarrow> (ReferenceCounts, unit) prog" where
  "write_state clean = modifyM (\<lambda>r. r\<lparr>rc_state := Some (encode_counts_state clean (rc_root r) (rc_totals r))\<rparr>)"

section \<open>Operations\<close>

definition reset_counts :: "ObjectId option \<Rightarrow> ObjectId list \<Rightarrow> ObjectId list \<Rightarrow> Totals \<Rightarrow> (ReferenceCounts, unit) prog" where
  "reset_counts root extents nodes totals =
     bindM (write_state False) (\<lambda>_.
     bindM (on_extents (replace_all (counted extents))) (\<lambda>_.
     bindM (on_nodes (replace_all (counted nodes))) (\<lambda>_.
     bindM (modifyM (\<lambda>r. r\<lparr>rc_root := root, rc_totals := totals\<rparr>)) (\<lambda>_.
     write_state True))))"

definition change_counts :: "ObjectId \<Rightarrow> ObjectId list \<Rightarrow> ObjectId list \<Rightarrow> ObjectId list \<Rightarrow> ObjectId list \<Rightarrow> Totals \<Rightarrow>
    (ReferenceCounts, bool) prog" where
  "change_counts root extents_in extents_out nodes_in nodes_out totals =
     bindM (on_extents (changes_for extents_in extents_out)) (\<lambda>extent_changes.
     bindM (on_nodes (changes_for nodes_in nodes_out)) (\<lambda>node_changes.
     case (extent_changes, node_changes) of
       (Some ec, Some nc) \<Rightarrow>
         bindM (write_state False) (\<lambda>_.
         bindM (on_extents (trie_apply ec)) (\<lambda>_.
         bindM (on_nodes (trie_apply nc)) (\<lambda>_.
         bindM (modifyM (\<lambda>r. r\<lparr>rc_root := Some root, rc_totals := totals\<rparr>)) (\<lambda>_.
         bindM (write_state True) (\<lambda>_. retM True)))))
     | _ \<Rightarrow> retM False))"

definition counts_views :: "ReferenceCounts \<Rightarrow> Snapshot \<times> Snapshot" where
  "counts_views r = (trie_snapshot (rc_extents r), trie_snapshot (rc_nodes r))"

section \<open>The multiset a trie of counts stands for\<close>

definition counts_map :: "ObjectId multiset \<Rightarrow> ObjectId \<Rightarrow> Bytes option" where
  "counts_map M i = (if i \<in># M then Some (encode_count (of_nat (count M i))) else None)"

definition counts_stand :: "ObjectTrie \<Rightarrow> ObjectId multiset \<Rightarrow> bool" where
  "counts_stand t M \<longleftrightarrow> ledger_stands t (counts_map M) \<and> (\<forall>i. count M i < 2 ^ 63)"

definition counts_fit :: "ObjectTrie \<Rightarrow> ObjectId multiset \<Rightarrow> bool" where
  "counts_fit t M \<longleftrightarrow> ledger_fits t (counts_map M)"

lemma runs_keys_sorted:
  fixes key :: "'a \<Rightarrow> 'k::linorder"
  assumes "sorted (map key xs)"
  shows "sorted_wrt (<) (map fst (runs key xs))"
  using assms
proof (induction xs rule: length_induct)
  case (1 xs)
  show ?case
  proof (cases xs)
    case (Cons x ys)
    let ?zs = "filter (\<lambda>y. key y \<noteq> key x) ys"
    have s: "sorted (map key ?zs)" using 1(2) Cons by (simp add: sorted_filter)
    have "length ?zs < length xs" using Cons by (simp add: le_imp_less_Suc)
    with 1(1) s have "sorted_wrt (<) (map fst (runs key ?zs))" by blast
    moreover have "runs key xs = (key x, filter (\<lambda>y. key y = key x) xs) # runs key ?zs"
      using runs_sorted_Cons[of key x ys] 1(2) Cons by simp
    moreover have "\<forall>k \<in> fst ` set (runs key ?zs). key x < k"
      using runs_sorted[OF s] 1(2) Cons by (auto simp: order_less_le)
    ultimately show ?thesis by simp
  qed simp
qed

lemma map_of_map_snd: "map_of (map (\<lambda>(k, x). (k, f x)) xs) k = map_option f (map_of xs k)"
  by (induction xs) auto

lemma length_filter_count: "length (filter (\<lambda>x. x = i) xs) = count (mset xs) i"
  by (induction xs) auto

lemma counted_records:
  assumes "\<forall>i \<in> set ids. id_ok i"
  shows "records_ok (counted ids)" "map_of (counted ids) = counts_map (mset ids)"
proof -
  have srt: "sorted (map (\<lambda>i. i) (sort ids))" by simp
  have keys: "map fst (counted ids) = map fst (runs (\<lambda>i. i) (sort ids))" by (simp add: counted_def case_prod_beta)
  have "sorted_wrt (<) (map fst (counted ids))" unfolding keys by (rule runs_keys_sorted[OF srt])
  moreover have "fst ` set (runs (\<lambda>i. i) (sort ids)) = set ids" using runs_sorted[OF srt] by simp
  then have "\<forall>r \<in> set (counted ids). record_ok r"
    using assms by (force simp: counted_def record_ok_def value_max_def encode_count_def writer_simps)
  ultimately show "records_ok (counted ids)" by (simp add: records_ok_def list_all_iff)
  have "map_of (counted ids) i = counts_map (mset ids) i" for i
  proof -
    have "length (filter (\<lambda>x. x = i) (sort ids)) = count (mset ids) i"
      using length_filter_count[of i "sort ids"] by simp
    moreover have "filter (\<lambda>x. x = i) (sort ids) = [] \<longleftrightarrow> i \<notin># mset ids" by (auto simp: filter_empty_conv)
    ultimately show ?thesis
      unfolding counted_def map_of_map_snd map_of_runs[OF srt] by (simp add: counts_map_def Let_def)
  qed
  then show "map_of (counted ids) = counts_map (mset ids)" by (rule ext)
qed

lemma replace_counts:
  assumes "counts_stand t M" "\<forall>i \<in> set ids. id_ok i" "counts_fit t (mset ids)" "\<forall>i. count (mset ids) i < 2 ^ 63"
  shows "\<exists>t'. replace_all (counted ids) t = (Inr (), t') \<and> counts_stand t' (mset ids)"
proof -
  obtain rs where rs: "counts_map (mset ids) = map_of rs" "segment_ok 0 rs" "room t rs"
    using assms(3) by (auto simp: counts_fit_def ledger_fits_def)
  have "counted ids = rs"
    using counted_records[OF assms(2)] rs(1) segment_okD(1)[OF rs(2)] by (intro sorted_map_of_inj) simp_all
  moreover have "ledger_stands t (counts_map M)" using assms(1) by (simp add: counts_stand_def)
  ultimately show ?thesis using stands_replace_all[OF _ rs(2,3)] rs(1) assms(4) by (auto simp: counts_stand_def)
qed

section \<open>Changing counts\<close>

definition delta_at :: "(ObjectId, int) omap \<Rightarrow> ObjectId \<Rightarrow> int" where
  "delta_at delta i = (case map_of delta i of None \<Rightarrow> 0 | Some n \<Rightarrow> n)"

lemma bump_fold:
  assumes "omap_ok delta"
  shows "omap_ok (foldl (bump by) delta ids) \<and>
    delta_at (foldl (bump by) delta ids) i = delta_at delta i + by * int (count (mset ids) i) \<and>
    dom (map_of (foldl (bump by) delta ids)) = dom (map_of delta) \<union> set ids"
  using assms
proof (induction ids arbitrary: delta)
  case (Cons j ids)
  have ok: "omap_ok (bump by delta j)" using Cons.prems by (simp add: bump_def)
  have "delta_at (bump by delta j) i = delta_at delta i + (if i = j then by else 0)"
    using Cons.prems by (auto simp: bump_def delta_at_def)
  moreover have "dom (map_of (bump by delta j)) = insert j (dom (map_of delta))"
    using Cons.prems by (auto simp: bump_def)
  ultimately show ?case using Cons.IH[OF ok] by (auto simp: algebra_simps)
qed simp

lemma delta_for_ok:
  shows "omap_ok (delta_for incoming outgoing)"
    "delta_at (delta_for incoming outgoing) i = int (count (mset incoming) i) - int (count (mset outgoing) i)"
    "fst ` set (delta_for incoming outgoing) = set incoming \<union> set outgoing"
proof -
  have 1: "omap_ok (foldl (bump 1) [] incoming)" using bump_fold[of "[]" 1 incoming] by simp
  show "omap_ok (delta_for incoming outgoing)" using bump_fold[OF 1] by (simp add: delta_for_def)
  show "delta_at (delta_for incoming outgoing) i = int (count (mset incoming) i) - int (count (mset outgoing) i)"
    using bump_fold[OF 1, of "- 1" outgoing i] bump_fold[of "[]" 1 incoming i]
    by (simp add: delta_for_def) (simp add: delta_at_def)
  show "fst ` set (delta_for incoming outgoing) = set incoming \<union> set outgoing"
    using bump_fold[OF 1, of "- 1" outgoing] bump_fold[of "[]" 1 incoming]
    by (simp add: delta_for_def flip: dom_map_of_conv_image_fst)
qed

lemma delta_entry: "omap_ok delta \<Longrightarrow> (i, by) \<in> set delta \<Longrightarrow> delta_at delta i = by"
  unfolding delta_at_def omap_ok_def
  by (simp add: map_of_is_SomeI strict_sorted_iff)

lemma decode_encode_count [simp]: "decode_count (encode_count n) = Inr n"
proof -
  have "reads_all (bindM reader_u64 (\<lambda>n. bindM reader_finish (\<lambda>_. retM n))) (enc_u64 n @ []) n"
    by (rule reads_all_bind[OF reads_u64], rule reads_all_finish) simp
  from reads_all_reader[OF this] show ?thesis by (simp add: decode_count_def encode_count_def writer_simps)
qed

lemma sint_of_count: "n < 2 ^ 63 \<Longrightarrow> sint (of_nat n :: u64) = int n"
  by (simp add: signed_of_nat signed_take_bit_int_eq_self)

definition delta_value :: "ObjectId multiset \<Rightarrow> ObjectId \<Rightarrow> int \<Rightarrow> Bytes option" where
  "delta_value M i by = (let n = int (count M i) + by in if n = 0 then None else Some (encode_count (word_of_int n)))"

definition delta_changes :: "ObjectId multiset \<Rightarrow> (ObjectId, int) omap \<Rightarrow> Change list" where
  "delta_changes M delta = map (\<lambda>(i, by). \<lparr>cg_id = i, cg_value = delta_value M i by\<rparr>) (filter (\<lambda>(i, by). by \<noteq> 0) delta)"

definition in_range :: "ObjectId multiset \<Rightarrow> ObjectId \<times> int \<Rightarrow> bool" where
  "in_range M entry = (case entry of (i, by) \<Rightarrow> int (count M i) + by < 2 ^ 63 \<and> - (2 ^ 63) \<le> int (count M i) + by)"

lemma counts_get:
  assumes "counts_stand t M"
  shows "\<exists>t'. trie_get i t = (Inr (counts_map M i), t') \<and> counts_stand t' M \<and> (\<forall>M'. counts_fit t M' \<longrightarrow> counts_fit t' M')"
  using ledger_get[of t "counts_map M" i] assms unfolding counts_stand_def counts_fit_def by blast

lemma changes_loop_ok:
  assumes "counts_stand t M" "list_all (in_range M) delta"
  shows "\<exists>t'. changes_loop cs delta t =
      (Inr (if list_ex (\<lambda>(i, by). int (count M i) + by < 0) delta then None else Some (cs @ delta_changes M delta)), t') \<and>
    counts_stand t' M \<and> (\<forall>M'. counts_fit t M' \<longrightarrow> counts_fit t' M')"
  using assms
proof (induction delta arbitrary: cs t)
  case Nil
  then show ?case by (simp add: delta_changes_def)
next
  case (Cons e delta)
  obtain i d where e: "e = (i, d)" by fastforce
  show ?case
  proof (cases "d = 0")
    case True
    have "list_all (in_range M) delta" using Cons.prems(2) by simp
    from Cons.IH[OF Cons.prems(1) this, of cs] show ?thesis
      using True e by (auto simp: delta_changes_def)
  next
    case False
    obtain t1 where t1: "trie_get i t = (Inr (counts_map M i), t1)" "counts_stand t1 M"
      "\<forall>M'. counts_fit t M' \<longrightarrow> counts_fit t1 M'" using counts_get[OF Cons.prems(1)] by blast
    let ?n = "int (count M i) + d"
    have r: "\<not> (?n \<ge> 2 ^ 63 \<or> ?n < - (2 ^ 63))" using Cons.prems(2) e by (simp add: in_range_def)
    have lt: "count M i < 2 ^ 63" using Cons.prems(1) by (simp add: counts_stand_def)
    have got: "(case counts_map M i of None \<Rightarrow> retM 0 | Some v \<Rightarrow> liftM (decode_count v)) t1 = (Inr (of_nat (count M i)), t1)"
      by (simp add: counts_map_def not_in_iff)
    have step: "changes_loop cs (e # delta) t = (if ?n < 0 then (Inr None, t1)
        else changes_loop (cs @ [\<lparr>cg_id = i, cg_value = delta_value M i d\<rparr>]) delta t1)"
      using False t1(1) got r sint_of_count[OF lt] unfolding e by (simp add: bindM_def delta_value_def Let_def)
    show ?thesis
    proof (cases "?n < 0")
      case True
      with step t1 e show ?thesis by simp
    next
      case nonneg: False
      have "list_all (in_range M) delta" using Cons.prems(2) by simp
      from Cons.IH[OF t1(2) this, of "cs @ [\<lparr>cg_id = i, cg_value = delta_value M i d\<rparr>]"]
      show ?thesis using step nonneg False t1(3) e by (auto simp: delta_changes_def)
    qed
  qed
qed

lemma distinct_last_change: "distinct (map cg_id cs) \<Longrightarrow> last_change cs = changed cs"
proof (induction cs rule: rev_induct)
  case (snoc c cs)
  then have "changed (cs @ [c]) = (changed cs)(cg_id c \<mapsto> cg_value c)" by (intro changed_snoc) simp
  with snoc show ?case by (simp add: fun_eq_iff last_change_snoc)
qed (simp add: last_change_def changed_def fun_eq_iff)

lemma changed_delta_changes:
  assumes "distinct (map fst delta)"
  shows "changed (delta_changes M delta) i = (if delta_at delta i = 0 then None else Some (delta_value M i (delta_at delta i)))"
  using assms
proof (induction delta)
  case (Cons e delta)
  obtain j d where e: "e = (j, d)" by fastforce
  have "j = i \<Longrightarrow> delta_at delta i = 0" using Cons.prems e by (auto simp: delta_at_def split: option.split dest: map_of_SomeD intro: rev_image_eqI)
  then show ?case using Cons e by (auto simp: delta_at_def delta_changes_def changed_def)
qed (simp add: delta_at_def delta_changes_def changed_def)

lemma delta_changes_small:
  assumes "\<forall>e \<in> set delta. id_ok (fst e)" "c \<in> set (delta_changes M delta)"
  shows "change_small c"
  using assms by (auto simp: delta_changes_def change_small_def delta_value_def Let_def encode_count_def writer_simps split: if_splits)

lemma applied_delta:
  assumes "mset outgoing \<subseteq># M + mset incoming"
  shows "applied (counts_map M) (delta_changes M (delta_for incoming outgoing)) = counts_map (M + mset incoming - mset outgoing)"
    (is "applied _ (delta_changes M ?d) = _")
proof
  fix i
  have d: "distinct (map fst ?d)" using delta_for_ok(1) by (simp add: omap_ok_def strict_sorted_iff)
  have "distinct (map cg_id (delta_changes M ?d))"
    using distinct_map_filter[OF d] by (simp add: delta_changes_def case_prod_beta comp_def)
  note lc = distinct_last_change[OF this]
  have le: "count (mset outgoing) i \<le> count M i + count (mset incoming) i"
    using mset_subset_eq_count[OF assms, of i] by simp
  then have n: "int (count M i) + delta_at ?d i = int (count (M + mset incoming - mset outgoing) i)"
    by (simp add: delta_for_ok(2))
  show "applied (counts_map M) (delta_changes M ?d) i = counts_map (M + mset incoming - mset outgoing) i"
    using n unfolding applied_def lc changed_delta_changes[OF d]
    by (auto simp: delta_value_def counts_map_def Let_def simp flip: count_greater_zero_iff)
qed

text \<open>The changes for ids going in and out: computed when the counts cover what goes out, refused otherwise.\<close>

definition counts_bounded :: "ObjectId multiset \<Rightarrow> ObjectId list \<Rightarrow> ObjectId list \<Rightarrow> bool" where
  "counts_bounded M incoming outgoing \<longleftrightarrow> (\<forall>i \<in> set incoming \<union> set outgoing. id_ok i) \<and>
     (\<forall>i. count (M + mset incoming) i < 2 ^ 63) \<and> length outgoing \<le> 2 ^ 63"

lemma changes_for_ok:
  assumes "counts_stand t M" "counts_bounded M incoming outgoing"
  shows "\<exists>t'. changes_for incoming outgoing t =
      (Inr (if mset outgoing \<subseteq># M + mset incoming then Some (delta_changes M (delta_for incoming outgoing)) else None), t') \<and>
    counts_stand t' M \<and> (\<forall>M'. counts_fit t M' \<longrightarrow> counts_fit t' M')"
proof -
  let ?d = "delta_for incoming outgoing"
  have e: "d = int (count (mset incoming) i) - int (count (mset outgoing) i)" if "(i, d) \<in> set ?d" for i d
    using delta_entry[OF delta_for_ok(1) that] delta_for_ok(2)[of incoming outgoing i] by simp
  have keys: "i \<in> set outgoing \<Longrightarrow> \<exists>d. (i, d) \<in> set ?d" for i
    using delta_for_ok(3)[of incoming outgoing] by force
  have "in_range M x" if "x \<in> set ?d" for x
  proof -
    obtain i d where x: "x = (i, d)" by fastforce
    have "count (mset outgoing) i \<le> 2 ^ 63"
      using assms(2) count_le_size[of "mset outgoing" i] by (simp add: counts_bounded_def)
    moreover have "count M i + count (mset incoming) i < 2 ^ 63" using assms(2) by (simp add: counts_bounded_def)
    ultimately show ?thesis using e[of i d] that x by (simp add: in_range_def)
  qed
  then have range: "list_all (in_range M) ?d" by (simp add: list_all_iff)
  have "list_ex (\<lambda>(i, by). int (count M i) + by < 0) ?d \<longleftrightarrow> \<not> mset outgoing \<subseteq># M + mset incoming"
  proof
    assume "list_ex (\<lambda>(i, by). int (count M i) + by < 0) ?d"
    then obtain i d where i: "(i, d) \<in> set ?d" "int (count M i) + d < 0" by (auto simp: list_ex_iff)
    then have "count (M + mset incoming) i < count (mset outgoing) i" using e[OF i(1)] by simp
    then show "\<not> mset outgoing \<subseteq># M + mset incoming" using mset_subset_eq_count leD by metis
  next
    assume "\<not> mset outgoing \<subseteq># M + mset incoming"
    then obtain i where i: "count (M + mset incoming) i < count (mset outgoing) i" by (auto simp: subseteq_mset_def not_le)
    then have "i \<in># mset outgoing" by (metis gr_implies_not0 not_in_iff)
    then obtain d where d: "(i, d) \<in> set ?d" using keys[of i] by auto
    then have "int (count M i) + d < 0" using e[OF d] i by simp
    with d show "list_ex (\<lambda>(i, by). int (count M i) + by < 0) ?d" by (auto simp: list_ex_iff)
  qed
  with changes_loop_ok[OF assms(1) range, of "[]"] show ?thesis
    unfolding changes_for_def by (auto simp: if_distrib)
qed

lemma apply_delta:
  assumes "counts_stand t M" "counts_bounded M incoming outgoing" "mset outgoing \<subseteq># M + mset incoming"
    "counts_fit t (M + mset incoming - mset outgoing)"
  shows "\<exists>t'. trie_apply (delta_changes M (delta_for incoming outgoing)) t = (Inr (), t') \<and>
    counts_stand t' (M + mset incoming - mset outgoing)"
proof -
  have ids: "\<forall>e \<in> set (delta_for incoming outgoing). id_ok (fst e)"
    using assms(2) delta_for_ok(3)[of incoming outgoing] by (auto simp: counts_bounded_def)
  have "count (M + mset incoming - mset outgoing) i < 2 ^ 63" for i
  proof -
    have "count (M + mset incoming) i < 2 ^ 63" using assms(2) by (simp add: counts_bounded_def)
    then show ?thesis by simp
  qed
  with stands_apply[of t "counts_map M" "delta_changes M (delta_for incoming outgoing)"] applied_delta[OF assms(3)]
    assms(1,4) delta_changes_small[OF ids]
  show ?thesis by (auto simp: counts_stand_def counts_fit_def)
qed

section \<open>Correctness\<close>

definition counts_are :: "ReferenceCounts \<Rightarrow> ObjectId multiset \<Rightarrow> ObjectId multiset \<Rightarrow> bool" where
  "counts_are r E N \<longleftrightarrow> counts_stand (rc_extents r) E \<and> counts_stand (rc_nodes r) N"

definition counts_room :: "ReferenceCounts \<Rightarrow> ObjectId multiset \<Rightarrow> ObjectId multiset \<Rightarrow> bool" where
  "counts_room r E N \<longleftrightarrow> counts_fit (rc_extents r) E \<and> counts_fit (rc_nodes r) N"

lemma decode_encode_counts_state:
  assumes "\<forall>i. root = Some i \<longrightarrow> length i = 32"
  shows "decode_counts_state (encode_counts_state clean root totals) = (if clean then Some (root, totals) else None)"
proof -
  let ?id = "case root of Some i \<Rightarrow> i | None \<Rightarrow> replicate 32 0"
  have id: "length ?id = 32" using assms by (simp split: option.split)
  have m: "length counts_magic = 8" by (simp add: counts_magic_def)
  show ?thesis
    unfolding decode_counts_state_def encode_counts_state_def Let_def writer_simps append_Nil append_assoc
    by (subst reads_all_reader[where x = "if clean then Some (root, totals) else None"],
        rule reads_all_bind[OF reads_fixed[OF m]], rule reads_all_if, simp,
        (rule reads_all_bind[OF reads_u8])+, rule reads_all_bind[OF reads_fixed[OF id]],
        rule reads_all_bind[OF reads_u64], rule reads_all_bind[OF reads_u64, where cs = "[]", simplified append_Nil2],
        rule reads_all_finish) (auto split: option.split)
qed

text \<open>Counts of nothing, and room for a few more.\<close>

definition no_counts :: ReferenceCounts where
  "no_counts = counts_members empty_ledger empty_ledger None"

lemma no_counts_are: "counts_are no_counts {#} {#}"
proof -
  have "counts_map {#} = (\<lambda>_. None)" by (simp add: counts_map_def fun_eq_iff)
  then show ?thesis using empty_ledger_stands by (simp add: counts_are_def counts_stand_def no_counts_def counts_members_def)
qed

lemma few_counts_fit:
  assumes "\<forall>i \<in> set ids. id_ok i" "length (counted ids) \<le> leaf_max"
  shows "counts_fit empty_ledger (mset ids)"
proof -
  have "spread (counted ids)" using assms(2) length_filter_le order_trans unfolding spread_def by blast
  moreover have "same_prefix 0 (counted ids)" by (simp add: same_prefix_def)
  ultimately have "segment_ok 0 (counted ids)"
    using counted_records[OF assms(1)] assms(2) by (simp add: segment_ok_def leaf_max_def)
  from empty_ledger_fits[OF this] assms(2) show ?thesis
    using counted_records[OF assms(1)] by (simp add: counts_fit_def leaf_max_def)
qed

lemma few_counts_bounded:
  assumes "\<forall>i \<in> set xs \<union> set ys. id_ok i" "length xs < 2 ^ 63" "length ys \<le> 2 ^ 63"
  shows "counts_bounded {#} xs ys"
  using assms count_le_size[of "mset xs"] le_less_trans by (fastforce simp: counts_bounded_def)

lemma few_counts_room:
  assumes "\<forall>i \<in> set xs \<union> set ys. id_ok i" "length (counted xs) \<le> leaf_max" "length (counted ys) \<le> leaf_max"
  shows "counts_room no_counts (mset xs) (mset ys)"
  using few_counts_fit assms by (simp add: counts_room_def no_counts_def counts_members_def)

text \<open>
  C14: A reset makes the counts those of the items given: whatever was counted before, it throws nothing, each
  object is counted as often as it was listed, and the state file says so at the given root, with the
  totals, to the next start.
\<close>

theorem reset_counts_correct:
  assumes "counts_are r E N" "counts_bounded {#} extents []" "counts_bounded {#} nodes []"
    "counts_room r (mset extents) (mset nodes)" "\<forall>i. root = Some i \<longrightarrow> id_ok i"
  shows "\<exists>r'. reset_counts root extents nodes totals r = (Inr (), r') \<and> counts_are r' (mset extents) (mset nodes) \<and>
    rc_root r' = root \<and> rc_totals r' = totals \<and>
    counts_members (rc_extents r') (rc_nodes r') (rc_state r') = r'"
proof -
  obtain e where e: "replace_all (counted extents) (rc_extents r) = (Inr (), e)" "counts_stand e (mset extents)"
    using replace_counts[of "rc_extents r" E extents] assms by (auto simp: counts_are_def counts_room_def counts_bounded_def)
  obtain n where n: "replace_all (counted nodes) (rc_nodes r) = (Inr (), n)" "counts_stand n (mset nodes)"
    using replace_counts[of "rc_nodes r" N nodes] assms by (auto simp: counts_are_def counts_room_def counts_bounded_def)
  have "\<forall>i. root = Some i \<longrightarrow> length i = 32" using assms(5) by (simp add: id_ok_def)
  with e n show ?thesis
    by (simp add: reset_counts_def bindM_def write_state_def on_extents_def on_nodes_def zoomM_apply counts_are_def
        counts_members_def decode_encode_counts_state)
qed

theorem reset_counts_correct_witness:
  "\<exists>r'. reset_counts None [replicate 32 7, replicate 32 3, replicate 32 7] [] Totals_0 no_counts = (Inr (), r') \<and>
    counts_are r' {#replicate 32 7, replicate 32 3, replicate 32 7#} {#}"
proof -
  have "counts_room no_counts (mset [replicate 32 7, replicate 32 3, replicate 32 7]) (mset [])"
    by (rule few_counts_room) (simp_all add: id_ok_def counted_def leaf_max_def runs_sorted_Cons)
  from reset_counts_correct[OF no_counts_are _ _ this, of None Totals_0] show ?thesis
    by (auto simp: few_counts_bounded id_ok_def)
qed

text \<open>
  C6: A change moves the counts by what goes in and out, or not at all: when everything to take out is
  counted it answers true, the counts are the old with the items in added and the items out taken, at
  the new root; when something to take out is not counted, in either trie, it answers false and every
  count, the root, the totals and the state file are as they were.
\<close>

theorem change_counts_correct:
  assumes "counts_are r E N" "counts_bounded E extents_in extents_out" "counts_bounded N nodes_in nodes_out"
    "counts_room r (E + mset extents_in - mset extents_out) (N + mset nodes_in - mset nodes_out)" "id_ok root"
  shows "\<exists>ok r'. change_counts root extents_in extents_out nodes_in nodes_out totals r = (Inr ok, r') \<and>
    (ok \<longleftrightarrow> mset extents_out \<subseteq># E + mset extents_in \<and> mset nodes_out \<subseteq># N + mset nodes_in) \<and>
    (if ok then counts_are r' (E + mset extents_in - mset extents_out) (N + mset nodes_in - mset nodes_out) \<and>
        rc_root r' = Some root \<and> rc_totals r' = totals \<and> counts_members (rc_extents r') (rc_nodes r') (rc_state r') = r'
     else counts_are r' E N \<and> rc_root r' = rc_root r \<and> rc_totals r' = rc_totals r \<and> rc_state r' = rc_state r)"
proof -
  let ?oe = "mset extents_out \<subseteq># E + mset extents_in" and ?on = "mset nodes_out \<subseteq># N + mset nodes_in"
  let ?ec = "delta_changes E (delta_for extents_in extents_out)" and ?nc = "delta_changes N (delta_for nodes_in nodes_out)"
  obtain e where e: "changes_for extents_in extents_out (rc_extents r) = (Inr (if ?oe then Some ?ec else None), e)"
    "counts_stand e E" "\<forall>M'. counts_fit (rc_extents r) M' \<longrightarrow> counts_fit e M'"
    using changes_for_ok[OF _ assms(2)] assms(1) by (auto simp: counts_are_def)
  obtain n where n: "changes_for nodes_in nodes_out (rc_nodes r) = (Inr (if ?on then Some ?nc else None), n)"
    "counts_stand n N" "\<forall>M'. counts_fit (rc_nodes r) M' \<longrightarrow> counts_fit n M'"
    using changes_for_ok[OF _ assms(3)] assms(1) by (auto simp: counts_are_def)
  show ?thesis
  proof (cases "?oe \<and> ?on")
    case True
    obtain e' where e': "trie_apply ?ec e = (Inr (), e')" "counts_stand e' (E + mset extents_in - mset extents_out)"
      using apply_delta[OF e(2) assms(2)] True e(3) assms(4) by (auto simp: counts_room_def)
    obtain n' where n': "trie_apply ?nc n = (Inr (), n')" "counts_stand n' (N + mset nodes_in - mset nodes_out)"
      using apply_delta[OF n(2) assms(3)] True n(3) assms(4) by (auto simp: counts_room_def)
    show ?thesis
      using True e(1) n(1) e' n' assms(5)
      by (intro exI[of _ True])
        (simp add: change_counts_def bindM_def write_state_def on_extents_def on_nodes_def zoomM_apply counts_are_def
          counts_members_def decode_encode_counts_state id_ok_def)
  next
    case False
    then show ?thesis
      using e(1,2) n(1,2)
      by (auto simp: change_counts_def bindM_def on_extents_def on_nodes_def zoomM_apply counts_are_def)
  qed
qed

theorem change_counts_correct_witness:
  "fst (change_counts (replicate 32 1) [replicate 32 7, replicate 32 7] [replicate 32 7] [] [] Totals_0 no_counts) = Inr True \<and>
   fst (change_counts (replicate 32 1) [] [] [replicate 32 7] [replicate 32 3] Totals_0 no_counts) = Inr False"
proof -
  have 1: "counts_room no_counts (mset [replicate 32 7]) (mset [])"
    by (rule few_counts_room) (simp_all add: id_ok_def counted_def leaf_max_def)
  have 2: "counts_room no_counts (mset []) (mset [replicate 32 7])"
    by (rule few_counts_room) (simp_all add: id_ok_def counted_def leaf_max_def)
  show ?thesis
    using change_counts_correct[OF no_counts_are, of "[replicate 32 7, replicate 32 7]" "[replicate 32 7]" "[]" "[]" "replicate 32 1" Totals_0]
      change_counts_correct[OF no_counts_are, of "[]" "[]" "[replicate 32 7]" "[replicate 32 3]" "replicate 32 1" Totals_0] 1 2
    by (auto simp: few_counts_bounded id_ok_def)
qed

end
