(* ===== verification/Held_Ledger.thy ===== *)
theory Held_Ledger
  imports Trie_Write
begin

text \<open>
  Which objects one store holds (\<^verbatim>\<open>src/ledger/held_ledger.hpp\<close>, \<^verbatim>\<open>src/ledger/held_ledger.cpp\<close>): a trie
  whose records are the held ids, a queue of changes that are not in it yet, a marker that says the
  trie is complete, and where the store's check of its disk resumes. The store changes its index and
  queues the change in one step; flushes and the parts of a seed come between. The theory shows that
  whatever the interleaving, a ledger that says it is seeded answers from the store's own set.
\<close>

section \<open>State\<close>

text \<open>
  The members, and what the directory holds beside the trie: whether the marker file is there and the
  text of \<^verbatim>\<open>verify-next\<close>.
\<close>

record HeldLedger =
  hl_trie :: ObjectTrie
  hl_seeded :: bool
  hl_verify_next :: u16
  hl_removals :: u64
  hl_queued :: "Change list"
  hl_seeded_file :: bool
  hl_verify_file :: "string option"

definition on_held :: "(ObjectTrie, 'a) prog \<Rightarrow> (HeldLedger, 'a) prog" where
  "on_held m = zoomM hl_trie (\<lambda>t l. l\<lparr>hl_trie := t\<rparr>) m"

definition held_value :: Bytes where
  "held_value = [0, 0, 0, 0, 0, 0, 0, 1]"

section \<open>Opening\<close>

text \<open>
  What \<^verbatim>\<open>in >> next\<close> reads into an unsigned number of 32 bits: blanks are skipped, a sign is allowed and
  negates in the word, no digits or a magnitude out of range is a failure.
\<close>

definition is_blank :: "char \<Rightarrow> bool" where
  "is_blank c \<longleftrightarrow> c \<in> {CHR '' '', CHR 0x09, CHR 0x0a, CHR 0x0b, CHR 0x0c, CHR 0x0d}"

definition digits_value :: "string \<Rightarrow> nat" where
  "digits_value cs = foldl (\<lambda>n c. 10 * n + (of_char c - 48)) 0 cs"

definition read_unsigned :: "string \<Rightarrow> u32 option" where
  "read_unsigned text =
     (let rest = dropWhile is_blank text;
          negative = (case rest of c # _ \<Rightarrow> c = CHR ''-'' | [] \<Rightarrow> False);
          signed = (case rest of c # _ \<Rightarrow> c = CHR ''-'' \<or> c = CHR ''+'' | [] \<Rightarrow> False);
          digits = takeWhile digit_char (if signed then tl rest else rest);
          n = digits_value digits
      in if digits = [] \<or> n \<ge> 2 ^ 32 then None
         else Some (if negative then - of_nat n else of_nat n))"

definition held_members :: "ObjectTrie \<Rightarrow> bool \<Rightarrow> string option \<Rightarrow> HeldLedger" where
  "held_members t seeded_file verify_file =
     \<lparr>hl_trie = t, hl_seeded = seeded_file,
      hl_verify_next = (case verify_file of None \<Rightarrow> 0 | Some text \<Rightarrow>
        (case read_unsigned text of None \<Rightarrow> 0 | Some n \<Rightarrow> if n \<le> 0xffff then ucast n else 0)),
      hl_removals = 0, hl_queued = [], hl_seeded_file = seeded_file, hl_verify_file = verify_file\<rparr>"

definition HeldLedger_open :: "crypto \<Rightarrow> (Node \<Rightarrow> nat) \<Rightarrow> (u64 \<Rightarrow> nat \<Rightarrow> Bytes) \<Rightarrow> (nat \<Rightarrow> Bytes) \<Rightarrow> Bytes \<Rightarrow> TrieOptions \<Rightarrow>
    TrieDisk \<Rightarrow> bool \<Rightarrow> string option \<Rightarrow> HeldLedger result" where
  "HeldLedger_open C footprint node_nonces journal_nonces key options disk seeded_file verify_file =
     bindR (ObjectTrie_open C footprint node_nonces journal_nonces key options disk) (\<lambda>t.
     Inr (held_members t seeded_file verify_file))"

definition set_verify_next :: "u16 \<Rightarrow> HeldLedger \<Rightarrow> HeldLedger" where
  "set_verify_next next l =
     (if next = hl_verify_next l then l
      else l\<lparr>hl_verify_file := Some (decimal (unat next) @ [CHR 0x0a]), hl_verify_next := next\<rparr>)"

section \<open>Reading\<close>

definition held :: "ObjectId \<Rightarrow> (HeldLedger, bool option) prog" where
  "held i = bindM getM (\<lambda>l.
     if \<not> hl_seeded l then retM None
     else bindM (on_held (trie_get i)) (\<lambda>value. retM (Some (value \<noteq> None))))"

definition id_has_prefix :: "u8 \<Rightarrow> u8 \<Rightarrow> ObjectId \<Rightarrow> bool" where
  "id_has_prefix first second i \<longleftrightarrow> i ! 0 = first \<and> i ! 1 = second"

text \<open>The last id of the prefix before.\<close>

definition before_prefix :: "u16 \<Rightarrow> ObjectId option" where
  "before_prefix p =
     (if p = 0 then None
      else Some ((replicate 32 0xff)[0 := ucast (drop_bit 8 (p - 1)), 1 := ucast (p - 1)]))"

definition prefix_page :: nat where "prefix_page = 256"

text \<open>Each turn but the last passes a page of records.\<close>

fun prefix_loop :: "nat \<Rightarrow> (ObjectId \<Rightarrow> bool) \<Rightarrow> ObjectId option \<Rightarrow> ObjectId list \<Rightarrow> (ObjectTrie, ObjectId list) prog" where
  "prefix_loop 0 within after out = raiseM OutOfFuel"
| "prefix_loop (Suc fuel) within after out =
     bindM (trie_next after prefix_page) (\<lambda>page.
     let ids = map fst page; out' = out @ takeWhile within ids in
     if \<not> list_all within ids then retM out'
     else if length page < prefix_page then retM out'
     else prefix_loop fuel within (Some (last ids)) out')"

definition held_with_prefix :: "u16 \<Rightarrow> (HeldLedger, ObjectId list) prog" where
  "held_with_prefix p = bindM getM (\<lambda>l.
     on_held (prefix_loop (unat (trie_size (hl_trie l)) div prefix_page + 1)
       (id_has_prefix (ucast (drop_bit 8 p)) (ucast p)) (before_prefix p) []))"

section \<open>Changing\<close>

definition record_held :: "ObjectId \<Rightarrow> bool \<Rightarrow> HeldLedger \<Rightarrow> HeldLedger" where
  "record_held i h l = l\<lparr>hl_queued := hl_queued l @ [\<lparr>cg_id = i, cg_value = (if h then Some held_value else None)\<rparr>]\<rparr>"

definition drop_queued :: "HeldLedger \<Rightarrow> HeldLedger" where
  "drop_queued l = l\<lparr>hl_queued := []\<rparr>"

definition write_journal :: "Change list \<Rightarrow> (HeldLedger, unit) prog" where
  "write_journal changes = on_held (trie_write changes)"

definition install_queued :: "(HeldLedger, unit) prog" where
  "install_queued = bindM getM (\<lambda>l.
     bindM (modifyM (\<lambda>l. l\<lparr>hl_queued := []\<rparr>)) (\<lambda>_.
     if hl_queued l = [] then retM ()
     else let unique = sort_changes (hl_queued l);
              removed = of_nat (length (filter (\<lambda>c. cg_value c = None) unique)) in
          bindM (write_journal unique) (\<lambda>_.
          bindM (on_held (trie_install unique)) (\<lambda>_.
          modifyM (\<lambda>l. l\<lparr>hl_removals := hl_removals l + removed\<rparr>)))))"

text \<open>
  A flush is one step: the flush lock keeps every other flush out, and a change queued after the swap is
  left for the next one as if it came after the flush.
\<close>

definition flush_held :: "(HeldLedger, unit) prog" where
  "flush_held = bindM getM (\<lambda>l. if \<not> hl_seeded l then retM () else install_queued)"

text \<open>
  A seed is three steps with writes and flushes between them: the snapshot, which drops what was
  queued before it; the build of the trie; and, under the flush lock, what was queued meanwhile and
  the marker.
\<close>

definition seed_build :: "ObjectId list \<Rightarrow> (HeldLedger, unit) prog" where
  "seed_build present =
     bindM (on_held (replace_all (map (\<lambda>i. (i, held_value)) present))) (\<lambda>_.
     modifyM (\<lambda>l. l\<lparr>hl_removals := hl_removals l + 1\<rparr>))"

definition seed_finish :: "(HeldLedger, unit) prog" where
  "seed_finish = bindM install_queued (\<lambda>_. modifyM (\<lambda>l. l\<lparr>hl_seeded_file := True, hl_seeded := True\<rparr>))"

definition seed_held :: "(HeldLedger \<Rightarrow> ObjectId list \<times> HeldLedger) \<Rightarrow> (HeldLedger, unit) prog" where
  "seed_held snapshot = bindM getM (\<lambda>l.
     case snapshot l of (present, l') \<Rightarrow>
     bindM (modifyM (\<lambda>_. l')) (\<lambda>_. bindM (seed_build present) (\<lambda>_. seed_finish)))"

definition held_view :: "HeldLedger \<Rightarrow> Snapshot \<times> u64" where
  "held_view l = (trie_snapshot (hl_trie l), hl_removals l)"

definition held_stats :: "HeldLedger \<Rightarrow> TrieStats" where
  "held_stats l = trie_stats (hl_trie l)"

definition held_size :: "HeldLedger \<Rightarrow> u64" where
  "held_size l = trie_size (hl_trie l)"

section \<open>The store and its ledger\<close>

text \<open>The record of a set of held objects, and changes as the store queues them.\<close>

definition held_map :: "ObjectId set \<Rightarrow> ObjectId \<Rightarrow> Bytes option" where
  "held_map S i = (if i \<in> S then Some held_value else None)"

definition held_change :: "Change \<Rightarrow> bool" where
  "held_change c \<longleftrightarrow> id_ok (cg_id c) \<and> (cg_value c = None \<or> cg_value c = Some held_value)"

datatype SeedPhase = Seed_none | Seed_snapshot "ObjectId list" | Seed_built

text \<open>
  The store's own set, its ledger, and how far a seed has come. A change of the set is queued in the
  same step; every step that writes the trie finds room for the store's ids.
\<close>

record HeldWorld =
  hw_store :: "ObjectId set"
  hw_ledger :: HeldLedger
  hw_phase :: SeedPhase

inductive held_step :: "HeldWorld \<Rightarrow> HeldWorld \<Rightarrow> bool" where
  step_record: "id_ok i \<Longrightarrow>
    held_step \<lparr>hw_store = S, hw_ledger = l, hw_phase = p\<rparr>
      \<lparr>hw_store = (if h then insert i S else S - {i}), hw_ledger = record_held i h l, hw_phase = p\<rparr>"
| step_held: "held i l = (r, l') \<Longrightarrow>
    held_step \<lparr>hw_store = S, hw_ledger = l, hw_phase = p\<rparr> \<lparr>hw_store = S, hw_ledger = l', hw_phase = p\<rparr>"
| step_flush: "flush_held l = (r, l') \<Longrightarrow> ledger_fits (hl_trie l) (held_map S) \<Longrightarrow>
    held_step \<lparr>hw_store = S, hw_ledger = l, hw_phase = p\<rparr> \<lparr>hw_store = S, hw_ledger = l', hw_phase = p\<rparr>"
| step_snapshot: "\<not> hl_seeded l \<Longrightarrow>
    held_step \<lparr>hw_store = S, hw_ledger = l, hw_phase = Seed_none\<rparr>
      \<lparr>hw_store = S, hw_ledger = drop_queued l, hw_phase = Seed_snapshot (sorted_list_of_set S)\<rparr>"
| step_build: "seed_build present l = (r, l') \<Longrightarrow> ledger_fits (hl_trie l) (held_map (set present)) \<Longrightarrow>
    held_step \<lparr>hw_store = S, hw_ledger = l, hw_phase = Seed_snapshot present\<rparr>
      \<lparr>hw_store = S, hw_ledger = l', hw_phase = Seed_built\<rparr>"
| step_finish: "seed_finish l = (r, l') \<Longrightarrow> ledger_fits (hl_trie l) (held_map S) \<Longrightarrow>
    held_step \<lparr>hw_store = S, hw_ledger = l, hw_phase = Seed_built\<rparr>
      \<lparr>hw_store = S, hw_ledger = l', hw_phase = Seed_none\<rparr>"

definition ledger_behind :: "HeldLedger \<Rightarrow> ObjectId set \<Rightarrow> bool" where
  "ledger_behind l S \<longleftrightarrow> (\<exists>m. ledger_stands (hl_trie l) m \<and> applied m (hl_queued l) = held_map S)"

fun phase_inv :: "SeedPhase \<Rightarrow> HeldLedger \<Rightarrow> ObjectId set \<Rightarrow> bool" where
  "phase_inv Seed_none l S \<longleftrightarrow> (hl_seeded l \<longrightarrow> ledger_behind l S)"
| "phase_inv (Seed_snapshot present) l S \<longleftrightarrow> \<not> hl_seeded l \<and> sorted_wrt (<) present \<and> (\<forall>i \<in> set present. id_ok i) \<and>
     applied (held_map (set present)) (hl_queued l) = held_map S"
| "phase_inv Seed_built l S \<longleftrightarrow> \<not> hl_seeded l \<and> ledger_behind l S"

definition held_inv :: "HeldWorld \<Rightarrow> bool" where
  "held_inv w \<longleftrightarrow> finite (hw_store w) \<and> (\<forall>i \<in> hw_store w. id_ok i) \<and>
     (\<forall>c \<in> set (hl_queued (hw_ledger w)). held_change c) \<and> (\<exists>m. ledger_stands (hl_trie (hw_ledger w)) m) \<and>
     phase_inv (hw_phase w) (hw_ledger w) (hw_store w)"

lemma applied_Nil [simp]: "applied m [] = m"
  by (simp add: applied_def last_change_def fun_eq_iff)

lemma applied_snoc: "applied m (cs @ [c]) = (\<lambda>i. if i = cg_id c then cg_value c else applied m cs i)"
  by (auto simp: applied_def last_change_snoc fun_eq_iff)

lemma applied_record:
  assumes "applied m (hl_queued l) = held_map S"
  shows "applied m (hl_queued (record_held i h l)) = held_map (if h then insert i S else S - {i})"
  using assms by (auto simp: record_held_def applied_snoc held_map_def fun_eq_iff)

lemma held_change_small: "held_change c \<Longrightarrow> change_small c"
  by (auto simp: held_change_def change_small_def held_value_def)

text \<open>Looking up changes only the cache.\<close>

lemma held_reads:
  assumes "ledger_stands (hl_trie l) m"
  shows "\<exists>t. held i l = (Inr (if hl_seeded l then Some (m i \<noteq> None) else None), l\<lparr>hl_trie := t\<rparr>) \<and> ledger_stands t m"
proof -
  obtain t where t: "trie_get i (hl_trie l) = (Inr (m i), t)" "ledger_stands t m" using ledger_get[OF assms] by blast
  show ?thesis
  proof (cases "hl_seeded l")
    case True
    with t show ?thesis by (auto simp: held_def on_held_def zoomM_apply bindM_def)
  next
    case False
    with assms show ?thesis by (intro exI[of _ "hl_trie l"]) (simp add: held_def)
  qed
qed

text \<open>Installing the queue makes the trie what the queue says, and empties the queue.\<close>

lemma install_queued_ok:
  assumes "ledger_stands (hl_trie l) m" "\<forall>c \<in> set (hl_queued l). held_change c" "ledger_fits (hl_trie l) (applied m (hl_queued l))"
  shows "\<exists>t n. install_queued l = (Inr (), l\<lparr>hl_queued := [], hl_trie := t, hl_removals := n\<rparr>) \<and>
    ledger_stands t (applied m (hl_queued l))"
proof (cases "hl_queued l = []")
  case True
  with assms(1) show ?thesis
    by (intro exI[of _ "hl_trie l"] exI[of _ "hl_removals l"]) (simp add: install_queued_def bindM_def)
next
  case False
  let ?u = "sort_changes (hl_queued l)"
  have small: "\<forall>c \<in> set (hl_queued l). change_small c" using assms(2) held_change_small by blast
  then have "\<forall>c \<in> set ?u. change_small c" using sort_changes_pushed(2) by blast
  moreover have "changes_ok ?u" using small change_small_ok by (intro sort_changes_ok) (simp add: list_all_iff)
  ultimately obtain t1 t2 where "trie_write ?u (hl_trie l) = (Inr (), t1)" "trie_install ?u t1 = (Inr (), t2)"
    "ledger_stands t2 (applied m (hl_queued l))"
    using stands_write_install[OF assms(1), of ?u] assms(3) unfolding updated_sort_changes by blast
  with False show ?thesis
    by (auto simp: install_queued_def bindM_def Let_def write_journal_def on_held_def zoomM_apply)
qed

lemma install_behind:
  assumes "ledger_behind l S" "\<forall>c \<in> set (hl_queued l). held_change c" "ledger_fits (hl_trie l) (held_map S)"
  shows "\<exists>t n. install_queued l = (Inr (), l\<lparr>hl_queued := [], hl_trie := t, hl_removals := n\<rparr>) \<and> ledger_stands t (held_map S)"
proof -
  obtain m where m: "ledger_stands (hl_trie l) m" "applied m (hl_queued l) = held_map S"
    using assms(1) by (auto simp: ledger_behind_def)
  from install_queued_ok[OF m(1) assms(2)] m(2) assms(3) show ?thesis by simp
qed

lemma seed_build_ok:
  assumes "ledger_stands (hl_trie l) m" "sorted_wrt (<) present" "\<forall>i \<in> set present. id_ok i"
    "ledger_fits (hl_trie l) (held_map (set present))"
  shows "\<exists>t n. seed_build present l = (Inr (), l\<lparr>hl_trie := t, hl_removals := n\<rparr>) \<and> ledger_stands t (held_map (set present))"
proof -
  let ?rs = "map (\<lambda>i. (i, held_value)) present"
  have m: "map_of ?rs = held_map (set present)" by (induction present) (auto simp: held_map_def fun_eq_iff)
  obtain rs where rs: "held_map (set present) = map_of rs" "segment_ok 0 rs" "room (hl_trie l) rs"
    using assms(4) by (auto simp: ledger_fits_def)
  have "records_ok ?rs"
    using assms(2,3) by (auto simp: records_ok_def list_all_iff record_ok_def comp_def held_value_def value_max_def)
  then have "?rs = rs" using m rs(1) segment_okD(1)[OF rs(2)] by (intro sorted_map_of_inj) simp_all
  with stands_replace_all[OF assms(1) rs(2,3)] m obtain t where
    "replace_all ?rs (hl_trie l) = (Inr (), t)" "ledger_stands t (held_map (set present))" by auto
  then show ?thesis
    by (intro exI[of _ t] exI[of _ "hl_removals l + 1"]) (simp add: seed_build_def bindM_def on_held_def zoomM_apply)
qed

lemma flush_ok:
  assumes "hl_seeded l \<longrightarrow> ledger_behind l S" "\<exists>m. ledger_stands (hl_trie l) m" "\<forall>c \<in> set (hl_queued l). held_change c"
    "ledger_fits (hl_trie l) (held_map S)"
  shows "if hl_seeded l then \<exists>t n. flush_held l = (Inr (), l\<lparr>hl_queued := [], hl_trie := t, hl_removals := n\<rparr>) \<and> ledger_stands t (held_map S)
    else flush_held l = (Inr (), l)"
  using assms install_behind[of l S] by (simp add: flush_held_def bindM_def)

lemma ledger_behind_current: "ledger_stands t (held_map S) \<Longrightarrow> ledger_behind (l\<lparr>hl_queued := [], hl_trie := t, hl_removals := n\<rparr>) S"
  by (auto simp: ledger_behind_def)

lemma held_step_inv: "held_step w w' \<Longrightarrow> held_inv w \<Longrightarrow> held_inv w'"
proof (induction rule: held_step.induct)
  case (step_record i S l p h)
  then show ?case
    using applied_record[of _ l S i h]
    by (cases p) (auto simp: held_inv_def ledger_behind_def held_change_def record_held_def)
next
  case (step_held i l r l' S p)
  obtain m where m: "ledger_stands (hl_trie l) m" using step_held(2) by (auto simp: held_inv_def)
  obtain t where t: "l' = l\<lparr>hl_trie := t\<rparr>" "ledger_stands t m" using held_reads[OF m, of i] step_held(1) by auto
  have "ledger_behind l' S" if b: "ledger_behind l S"
  proof -
    obtain m' where m': "ledger_stands (hl_trie l) m'" "applied m' (hl_queued l) = held_map S"
      using b by (auto simp: ledger_behind_def)
    obtain t' where "l' = l\<lparr>hl_trie := t'\<rparr>" "ledger_stands t' m'" using held_reads[OF m'(1), of i] step_held(1) by auto
    with m'(2) show ?thesis by (auto simp: ledger_behind_def)
  qed
  with t step_held(2) show ?case by (cases p) (auto simp: held_inv_def)
next
  case (step_flush l r l' S p)
  have pre: "hl_seeded l \<longrightarrow> ledger_behind l S" using step_flush(3) by (cases p) (auto simp: held_inv_def)
  show ?case
  proof (cases "hl_seeded l")
    case True
    then obtain t n where "l' = l\<lparr>hl_queued := [], hl_trie := t, hl_removals := n\<rparr>" "ledger_stands t (held_map S)"
      using flush_ok[OF pre] step_flush by (auto simp: held_inv_def)
    with True step_flush(3) show ?thesis using ledger_behind_current by (cases p) (auto simp: held_inv_def)
  next
    case False
    with flush_ok[OF pre] step_flush have "l' = l" by (auto simp: held_inv_def)
    with step_flush(3) show ?thesis by simp
  qed
next
  case (step_snapshot l S)
  then show ?case by (auto simp: held_inv_def drop_queued_def)
next
  case (step_build present l r l' S)
  obtain m where "ledger_stands (hl_trie l) m" using step_build(3) by (auto simp: held_inv_def)
  with seed_build_ok[OF this, of present] step_build obtain t n where
    "l' = l\<lparr>hl_trie := t, hl_removals := n\<rparr>" "ledger_stands t (held_map (set present))"
    by (auto simp: held_inv_def)
  with step_build(3) show ?case by (auto simp: held_inv_def ledger_behind_def)
next
  case (step_finish l r l' S)
  with install_behind[of l S] obtain t n where
    "l' = l\<lparr>hl_queued := [], hl_trie := t, hl_removals := n\<rparr>\<lparr>hl_seeded_file := True, hl_seeded := True\<rparr>" "ledger_stands t (held_map S)"
    by (auto simp: held_inv_def seed_finish_def bindM_def)
  with step_finish(3) show ?case by (auto simp: held_inv_def ledger_behind_def)
qed

lemma held_steps_inv: "held_step\<^sup>*\<^sup>* w w' \<Longrightarrow> held_inv w \<Longrightarrow> held_inv w'"
  by (induction rule: rtranclp_induct) (auto intro: held_step_inv)

text \<open>A store that starts: its ledger is in order and nothing is queued; a seeded one is complete.\<close>

definition held_start :: "HeldWorld \<Rightarrow> bool" where
  "held_start w \<longleftrightarrow> finite (hw_store w) \<and> (\<forall>i \<in> hw_store w. id_ok i) \<and> hl_queued (hw_ledger w) = [] \<and> hw_phase w = Seed_none \<and>
     (\<exists>m. ledger_stands (hl_trie (hw_ledger w)) m \<and> (hl_seeded (hw_ledger w) \<longrightarrow> m = held_map (hw_store w)))"

lemma held_start_inv: "held_start w \<Longrightarrow> held_inv w"
  by (cases w) (auto simp: held_start_def held_inv_def ledger_behind_def)

text \<open>
  C5: Once the ledger says it is seeded it is the store's whole answer. Through any interleaving of the store's
  changes, lookups, flushes and the three parts of a seed, no operation throws, and when the ledger
  is seeded a flush empties the queue and every lookup after it says exactly whether the store holds
  the object; before it is seeded every lookup says it does not know.
\<close>

theorem seeded_ledger_is_store:
  assumes "held_start w0" "held_step\<^sup>*\<^sup>* w0 w" "ledger_fits (hl_trie (hw_ledger w)) (held_map (hw_store w))"
  shows "\<exists>l. flush_held (hw_ledger w) = (Inr (), l) \<and> (hl_seeded l \<longleftrightarrow> hl_seeded (hw_ledger w)) \<and>
    (hl_seeded l \<longrightarrow> hl_queued l = []) \<and>
    fst (held i l) = Inr (if hl_seeded l then Some (i \<in> hw_store w) else None)"
proof -
  have inv: "held_inv w" using held_steps_inv[OF assms(2) held_start_inv[OF assms(1)]] .
  let ?l = "hw_ledger w" and ?S = "hw_store w"
  have pre: "hl_seeded ?l \<longrightarrow> ledger_behind ?l ?S" using inv by (cases "hw_phase w") (auto simp: held_inv_def)
  obtain m where m: "ledger_stands (hl_trie ?l) m" using inv by (auto simp: held_inv_def)
  note f = flush_ok[OF pre _ _ assms(3)]
  show ?thesis
  proof (cases "hl_seeded ?l")
    case True
    then obtain t n where l: "flush_held ?l = (Inr (), ?l\<lparr>hl_queued := [], hl_trie := t, hl_removals := n\<rparr>)"
      "ledger_stands t (held_map ?S)" using f inv by (auto simp: held_inv_def)
    let ?l' = "?l\<lparr>hl_queued := [], hl_trie := t, hl_removals := n\<rparr>"
    have "ledger_stands (hl_trie ?l') (held_map ?S)" using l(2) by simp
    from held_reads[OF this, of i] True l(1) show ?thesis by (auto simp: held_map_def)
  next
    case False
    with f inv have "flush_held ?l = (Inr (), ?l)" by (auto simp: held_inv_def)
    with held_reads[OF m, of i] False show ?thesis by auto
  qed
qed

lemma held_map_dom: "dom (held_map S) = S"
  by (auto simp: held_map_def dom_def)

lemma held_map_empty: "held_map {} = (\<lambda>_. None)"
  by (simp add: held_map_def fun_eq_iff)

text \<open>A seeded ledger of an empty store that then takes in an object.\<close>

definition seeded_empty :: HeldWorld where
  "seeded_empty = \<lparr>hw_store = {}, hw_ledger = held_members empty_ledger True None, hw_phase = Seed_none\<rparr>"

theorem seeded_ledger_is_store_witness:
  "\<exists>l. flush_held (record_held (replicate 32 7) True (held_members empty_ledger True None)) = (Inr (), l) \<and>
     fst (held (replicate 32 7) l) = Inr (Some True) \<and> fst (held (replicate 32 3) l) = Inr (Some False)"
proof -
  let ?w = "\<lparr>hw_store = {replicate 32 7}, hw_ledger = record_held (replicate 32 7) True (held_members empty_ledger True None),
    hw_phase = Seed_none\<rparr>"
  have start: "held_start seeded_empty"
    using empty_ledger_stands held_map_empty by (auto simp: held_start_def seeded_empty_def held_members_def)
  have step: "held_step\<^sup>*\<^sup>* seeded_empty ?w"
    using step_record[of "replicate 32 7" "{}" "held_members empty_ledger True None" Seed_none True]
    by (simp add: seeded_empty_def id_ok_def r_into_rtranclp)
  have seg: "segment_ok 0 [(replicate 32 7, held_value)]"
    by (simp add: segment_ok_def records_ok_def record_ok_def id_ok_def value_max_def held_value_def same_prefix_def spread_def leaf_max_def)
  have "held_map {replicate 32 7} = map_of [(replicate 32 7, held_value)]" by (auto simp: held_map_def fun_eq_iff)
  then have room: "ledger_fits (hl_trie (hw_ledger ?w)) (held_map (hw_store ?w))"
    using empty_ledger_fits[OF seg] by (simp add: record_held_def held_members_def)
  show ?thesis
    using seeded_ledger_is_store[OF start step room, of "replicate 32 7"] seeded_ledger_is_store[OF start step room, of "replicate 32 3"]
    by (auto simp: record_held_def held_members_def)
qed

section \<open>Ids of a directory\<close>

definition prefix_value :: "ObjectId \<Rightarrow> nat" where
  "prefix_value i = 256 * unat (i ! 0) + unat (i ! 1)"

lemma id_bytes: "id_ok i \<Longrightarrow> \<exists>a b r. i = a # b # r \<and> length r = 30"
  by (cases i; cases "tl i") (auto simp: id_ok_def)

lemma unat_u8_less: "unat (w :: u8) < 256"
  using unsigned_less[of w, where ?'a = nat] by simp

lemma not_above_ones: "length r \<le> n \<Longrightarrow> \<not> replicate n (0xff :: u8) < r"
proof (induction r arbitrary: n)
  case (Cons a r)
  then obtain m where "n = Suc m" "length r \<le> m" by (cases n) auto
  moreover have "a \<le> 0xff" using unat_u8_less[of a] by (simp add: word_le_nat_alt)
  ultimately show ?case using Cons.IH[of m] by (auto simp: not_less)
qed simp

lemma above_before_prefix:
  assumes "id_ok i" "p \<noteq> 0"
  shows "the (before_prefix p) < i \<longleftrightarrow> unat p \<le> prefix_value i"
proof -
  obtain a b r where i: "i = a # b # r" "length r = 30" using id_bytes[OF assms(1)] by blast
  let ?x = "ucast (drop_bit 8 (p - 1)) :: u8" and ?y = "ucast (p - 1) :: u8"
  have before: "the (before_prefix p) = ?x # ?y # replicate 30 0xff"
    using assms(2) by (simp add: before_prefix_def numeral_eq_Suc)
  have p: "unat (p - 1) = unat p - 1" "0 < unat p" using assms(2) by (simp_all add: unat_minus_one unat_gt_0)
  have "unat ?y = unat (p - 1) mod 256" by (simp add: unsigned_ucast_eq take_bit_eq_mod)
  moreover have "unat ?x = unat (p - 1) div 256 mod 256" by (simp add: unsigned_ucast_eq take_bit_eq_mod drop_bit_eq_div unat_div)
  moreover have "unat (p - 1) < 65536" using unsigned_less[of "p - 1", where ?'a = nat] by simp
  ultimately have v: "256 * unat ?x + unat ?y = unat p - 1" using p by simp
  have "the (before_prefix p) < i \<longleftrightarrow> ?x < a \<or> ?x = a \<and> ?y < b"
    unfolding before i(1) using not_above_ones[of r 30] i(2) by auto
  also have "\<dots> \<longleftrightarrow> 256 * unat ?x + unat ?y < 256 * unat a + unat b"
    using unat_u8_less[of a] unat_u8_less[of b] unat_u8_less[of ?x] unat_u8_less[of ?y]
    by (auto simp: word_less_nat_alt word_unat_eq_iff)
  also have "\<dots> \<longleftrightarrow> unat p \<le> prefix_value i" using v p(2) by (auto simp: prefix_value_def i(1))
  finally show ?thesis .
qed

lemma prefix_value_mono:
  assumes "id_ok i" "id_ok j" "i \<le> j"
  shows "prefix_value i \<le> prefix_value j"
proof -
  obtain a b r a' b' r' where "i = a # b # r" "j = a' # b' # r'" using id_bytes assms(1,2) by metis
  then show ?thesis
    using assms(3) unat_u8_less[of b] unat_u8_less[of b']
    by (auto simp: prefix_value_def word_less_nat_alt)
qed

lemma two_digits: "(b :: nat) < 256 \<Longrightarrow> y < 256 \<Longrightarrow> 256 * a + b = 256 * x + y \<longleftrightarrow> a = x \<and> b = y"
proof
  assume b: "b < 256" "y < 256" and eq: "256 * a + b = 256 * x + y"
  have "(256 * a + b) div 256 = a" "(256 * x + y) div 256 = x" using b by simp_all
  with eq show "a = x \<and> b = y" by simp
qed simp

lemma id_has_prefix_value:
  "id_has_prefix (ucast (drop_bit 8 p)) (ucast p) i \<longleftrightarrow> prefix_value i = unat (p :: u16)"
proof -
  let ?x = "ucast (drop_bit 8 p) :: u8" and ?y = "ucast p :: u8"
  have "unat ?y = unat p mod 256" by (simp add: unsigned_ucast_eq take_bit_eq_mod)
  moreover have "unat ?x = unat p div 256 mod 256"
    by (simp add: unsigned_ucast_eq take_bit_eq_mod drop_bit_eq_div unat_div)
  moreover have "unat p < 65536" using unsigned_less[of p, where ?'a = nat] by simp
  ultimately have "unat p = 256 * unat ?x + unat ?y" by simp
  then show ?thesis
    using two_digits[OF unat_u8_less[of "i ! 1"] unat_u8_less[of ?y], of "unat (i ! 0)" "unat ?x"]
    by (simp add: id_has_prefix_def prefix_value_def word_unat_eq_iff)
qed

lemmas id_has_prefix_eq = id_has_prefix_value[THEN ext]

lemma sorted_split:
  assumes "sorted_wrt R xs" "\<And>x y. R x y \<Longrightarrow> P x \<Longrightarrow> P y"
  shows "xs = filter (\<lambda>x. \<not> P x) xs @ filter P xs"
  using assms(1)
proof (induction xs)
  case (Cons x xs)
  then show ?case using assms(2)[of x] by (cases "P x") (auto simp: filter_empty_conv filter_id_conv)
qed simp

lemma takeWhile_lowest:
  fixes v :: "'a \<Rightarrow> nat"
  assumes "sorted_wrt (\<lambda>x y. v x \<le> v y) xs" "\<forall>x \<in> set xs. n \<le> v x"
  shows "takeWhile (\<lambda>x. v x = n) xs = filter (\<lambda>x. v x = n) xs"
  using assms
proof (induction xs)
  case (Cons x xs)
  show ?case
  proof (cases "v x = n")
    case False
    with Cons.prems have "n < v x" "\<forall>y \<in> set xs. v x \<le> v y" by auto
    then have "filter (\<lambda>y. v y = n) xs = []" by (auto simp: filter_empty_conv)
    with False show ?thesis by simp
  qed (use Cons in simp)
qed simp

lemma prefix_loop_ok:
  assumes "represents F t (xs @ ys)" "wanted after (after \<noteq> None) (xs @ ys) = ys"
    "\<And>a. after = Some a \<Longrightarrow> length a = 32" "length ys div prefix_page < fuel"
  shows "\<exists>t'. prefix_loop fuel within after out t = (Inr (out @ takeWhile within (map fst ys)), t') \<and> represents F t' (xs @ ys)"
  using assms
proof (induction fuel arbitrary: t xs ys after out)
  case (Suc fuel)
  let ?page = "take prefix_page ys"
  obtain t1 where t1: "trie_next after prefix_page t = (Inr ?page, t1)" "represents F t1 (xs @ ys)"
    using represents_next[OF Suc.prems(1,3)] Suc.prems(2) by metis
  have split: "map fst ys = map fst ?page @ map fst (drop prefix_page ys)" by (metis append_take_drop_id map_append)
  show ?case
  proof (cases "list_all within (map fst ?page)")
    case False
    then obtain i where "i \<in> set (map fst ?page)" "\<not> within i" unfolding list_all_iff by blast
    then have "takeWhile within (map fst ys) = takeWhile within (map fst ?page)"
      unfolding split by (rule takeWhile_append1)
    with False t1 show ?thesis by (simp add: bindM_def Let_def)
  next
    case True
    then have in_page: "\<And>i. i \<in> set (map fst ?page) \<Longrightarrow> within i" unfolding list_all_iff by blast
    have all: "takeWhile within (map fst ys) = map fst ?page @ takeWhile within (map fst (drop prefix_page ys))"
      unfolding split by (rule takeWhile_append2[OF in_page])
    have page: "takeWhile within (map fst ?page) = map fst ?page" unfolding takeWhile_eq_all_conv using in_page by blast
    show ?thesis
    proof (cases "length ?page < prefix_page")
      case short: True
      then have "length ys < prefix_page" by (simp add: min_def split: if_splits)
      with True all page t1 show ?thesis by (simp add: bindM_def Let_def)
    next
      case full: False
      then have ne: "?page \<noteq> []" by (auto simp: prefix_page_def)
      have ids: "length (fst (last ?page)) = 32"
        using records_ok_id[OF segment_okD(1)[OF representsD(6)[OF t1(2)]], of "last ?page"] in_set_takeD[OF last_in_set[OF ne]]
        by simp
      have w: "wanted (Some (fst (last ?page))) True (xs @ ys) = drop prefix_page ys"
        using wanted_after_last[of "xs @ ?page" "drop prefix_page ys"] segment_okD(1)[OF representsD(6)[OF t1(2)]] ne by simp
      have "\<exists>t'. prefix_loop fuel within (Some (fst (last ?page))) (out @ map fst ?page) t1 =
          (Inr ((out @ map fst ?page) @ takeWhile within (map fst (drop prefix_page ys))), t') \<and>
          represents F t' ((xs @ ?page) @ drop prefix_page ys)"
      proof (rule Suc.IH)
        show "length (drop prefix_page ys) div prefix_page < fuel"
          using Suc.prems(4) full by (auto simp: prefix_page_def)
      qed (use t1(2) w ids in simp_all)
      with True full all t1(1) ne show ?thesis by (auto simp: bindM_def Let_def last_map page)
    qed
  qed
qed simp

lemma wanted_before_prefix:
  assumes "records_ok rs"
  shows "wanted (before_prefix p) (before_prefix p \<noteq> None) rs = filter (\<lambda>r. unat p \<le> prefix_value (fst r)) rs"
proof (cases "p = 0")
  case True
  then show ?thesis by (simp add: before_prefix_def wanted_def)
next
  case False
  then obtain a where a: "before_prefix p = Some a" by (simp add: before_prefix_def)
  have "\<forall>r \<in> set rs. id_ok (fst r)" using assms by (simp add: records_ok_def list_all_iff record_ok_def)
  then have "\<forall>r \<in> set rs. a < fst r \<longleftrightarrow> unat p \<le> prefix_value (fst r)" using above_before_prefix[OF _ False] a by simp
  then show ?thesis unfolding a by (simp add: wanted_def cong: filter_cong)
qed

text \<open>
  C33: Asking for one directory gives exactly its ids: the held ids whose first two bytes are the prefix, in order,
  whatever page boundaries fall among them.
\<close>

theorem held_with_prefix_exact:
  assumes "ledger_stands (hl_trie l) (held_map S)"
  shows "fst (held_with_prefix p l) = Inr (sorted_list_of_set {i \<in> S. i ! 0 = ucast (drop_bit 8 p) \<and> i ! 1 = ucast p})"
proof -
  obtain F rs where r: "represents F (hl_trie l) rs" "held_map S = map_of rs" using assms by (auto simp: ledger_stands_def)
  have ok: "records_ok rs" by (rule segment_okD(1)[OF representsD(6)[OF r(1)]])
  let ?P = "\<lambda>r :: Record. unat p \<le> prefix_value (fst r)" and ?Q = "\<lambda>i. prefix_value i = unat p"
  have ids: "\<forall>r \<in> set rs. id_ok (fst r)" using ok by (simp add: records_ok_def list_all_iff record_ok_def)
  have srt: "sorted_wrt (\<lambda>r r'. fst r < fst r') rs" by (rule records_ok_sorted[OF ok])
  have mono: "sorted_wrt (\<lambda>r r'. prefix_value (fst r) \<le> prefix_value (fst r')) rs"
    using srt by (rule sorted_wrt_mono_rel[rotated]) (use ids prefix_value_mono in auto)
  let ?ys = "filter ?P rs"
  have split: "rs = filter (\<lambda>r. \<not> ?P r) rs @ ?ys" by (rule sorted_split[OF mono]) simp
  have w: "wanted (before_prefix p) (before_prefix p \<noteq> None) rs = ?ys" by (rule wanted_before_prefix[OF ok])
  have "length ?ys div prefix_page < unat (trie_size (hl_trie l)) div prefix_page + 1"
    unfolding represents_size[OF r(1)] by (simp add: div_le_mono le_imp_less_Suc)
  moreover have "length a = 32" if "before_prefix p = Some a" for a using that by (auto simp: before_prefix_def split: if_splits)
  ultimately have "\<exists>t'. prefix_loop (unat (trie_size (hl_trie l)) div prefix_page + 1) ?Q (before_prefix p) [] (hl_trie l) =
      (Inr ([] @ takeWhile ?Q (map fst ?ys)), t') \<and> represents F t' (filter (\<lambda>r. \<not> ?P r) rs @ ?ys)"
    using r(1) w split by (intro prefix_loop_ok) simp_all
  then have out: "fst (held_with_prefix p l) = Inr (takeWhile ?Q (map fst ?ys))"
    unfolding held_with_prefix_def id_has_prefix_eq
    by (auto simp: bindM_def on_held_def zoomM_apply simp del: prefix_loop.simps)
  have "takeWhile (\<lambda>r. prefix_value (fst r) = unat p) ?ys = filter (\<lambda>r. prefix_value (fst r) = unat p) ?ys"
    using mono by (intro takeWhile_lowest sorted_wrt_filter) auto
  then have ids_out: "takeWhile ?Q (map fst ?ys) = filter ?Q (map fst rs)"
    by (simp add: takeWhile_map filter_map comp_def) (rule arg_cong[where f = "map fst"], rule filter_cong, auto)
  have "sorted_wrt (<) (filter ?Q (map fst rs))" using ok by (intro sorted_wrt_filter) (simp add: records_ok_def)
  then have "filter ?Q (map fst rs) = sorted_list_of_set (set (filter ?Q (map fst rs)))"
    by (metis strict_sorted_iff sorted_list_of_set.idem_if_sorted_distinct)
  moreover have "fst ` set rs = S"
    using r(2) by (metis (no_types) dom_map_of_conv_image_fst held_map_dom)
  ultimately show ?thesis unfolding out ids_out
    by (auto simp: id_has_prefix_value[symmetric] id_has_prefix_def intro!: arg_cong[where f = sorted_list_of_set])
qed

text \<open>A ledger of three ids, two of them in the directory asked for.\<close>

definition listed_ids :: "ObjectId list" where
  "listed_ids = [replicate 32 7, 7 # 7 # replicate 30 9, replicate 32 8]"

theorem held_with_prefix_exact_witness:
  "\<exists>t. trie_install (map (\<lambda>i. \<lparr>cg_id = i, cg_value = Some held_value\<rparr>) listed_ids) empty_ledger = (Inr (), t) \<and>
     fst (held_with_prefix 0x0707 (held_members t True None)) = Inr [replicate 32 7, 7 # 7 # replicate 30 9]"
proof -
  let ?cs = "map (\<lambda>i. \<lparr>cg_id = i, cg_value = Some held_value\<rparr>) listed_ids"
  let ?rs = "map (\<lambda>i. (i, held_value)) listed_ids"
  have srt: "sorted_wrt (<) listed_ids" "sorted_wrt (<) [replicate 32 7, 7 # 7 # replicate 30 (9 :: u8)]" by code_simp+
  have ok: "changes_ok ?cs"
    using srt(1) by (simp add: changes_ok_def listed_ids_def change_ok_def id_ok_def change_too_large_def held_value_def value_max_def)
  have seg: "segment_ok 0 ?rs"
    using srt(1) by (simp add: segment_ok_def records_ok_def record_ok_def id_ok_def value_max_def held_value_def same_prefix_def
        spread_def leaf_max_def listed_ids_def)
  have m: "updated (\<lambda>_. None) ?cs = map_of ?rs" "held_map (set listed_ids) = map_of ?rs"
    by (auto simp: updated_def changed_def held_map_def listed_ids_def fun_eq_iff)
  obtain t where t: "trie_install ?cs empty_ledger = (Inr (), t)" "ledger_stands t (held_map (set listed_ids))"
    using ledger_install[OF empty_ledger_stands ok] empty_ledger_fits[OF seg] m by (auto simp: listed_ids_def)
  have "fst (held_with_prefix 0x0707 (held_members t True None)) =
      Inr (sorted_list_of_set {i \<in> set listed_ids. i ! 0 = ucast (drop_bit 8 (0x0707 :: u16)) \<and> i ! 1 = ucast (0x0707 :: u16)})"
    by (rule held_with_prefix_exact) (use t(2) in \<open>simp add: held_members_def\<close>)
  moreover have "{i \<in> set listed_ids. i ! 0 = ucast (drop_bit 8 (0x0707 :: u16)) \<and> i ! 1 = ucast (0x0707 :: u16)} =
      set [replicate 32 7, 7 # 7 # replicate 30 9]"
    by (auto simp: listed_ids_def)
  moreover have "sorted_list_of_set (set [replicate 32 7, 7 # 7 # replicate 30 (9 :: u8)]) = [replicate 32 7, 7 # 7 # replicate 30 9]"
    using srt(2) strict_sorted_iff by (intro sorted_list_of_set.idem_if_sorted_distinct) blast+
  ultimately show ?thesis using t(1) by auto
qed

section \<open>Where the check resumes\<close>

lemma digits_value_decimal: "digits_value (decimal n) = n"
proof (induction n rule: decimal.induct)
  case (1 n)
  then show ?case by (subst decimal.simps) (auto simp: digits_value_def)
qed

lemma read_decimal:
  assumes "n < 2 ^ 32"
  shows "read_unsigned (decimal n @ [CHR 0x0a]) = Some (of_nat n)"
proof -
  obtain c cs where d: "decimal n = c # cs" using decimal_nonempty by (cases "decimal n") auto
  have digits: "\<forall>c \<in> set (decimal n). digit_char c" using decimal_digits by blast
  then have c: "\<not> is_blank c" "c \<noteq> CHR ''-''" "c \<noteq> CHR ''+''" using d by (auto simp: is_blank_def digit_char_def)
  have "takeWhile digit_char (decimal n @ [CHR 0x0a]) = decimal n"
    using takeWhile_append2[of "decimal n" digit_char] digits by (simp add: digit_char_def)
  moreover have "dropWhile is_blank (decimal n @ [CHR 0x0a]) = decimal n @ [CHR 0x0a]" using c(1) d by simp
  ultimately show ?thesis
    using c d assms digits_value_decimal[of n] decimal_nonempty[of n] by (simp add: read_unsigned_def Let_def)
qed

text \<open>The directory set is the one a restarted store resumes at.\<close>

lemma verify_next_survives:
  assumes "hl_verify_next l \<noteq> n"
  shows "hl_verify_next (held_members t s (hl_verify_file (set_verify_next n l))) = n"
proof -
  have n: "unat n < 65536" using unsigned_less[of n, where ?'a = nat] by simp
  then have "read_unsigned (decimal (unat n) @ [CHR 0x0a]) = Some (ucast n)" using read_decimal[of "unat n"] by simp
  moreover have "(ucast n :: u32) \<le> 0xffff" using n by (simp add: word_le_nat_alt unsigned_ucast_eq take_bit_nat_eq_self)
  moreover have "ucast (ucast n :: u32) = n"
    by (rule ucast_up_ucast_id) (simp add: is_up)
  ultimately show ?thesis using assms by (simp add: held_members_def set_verify_next_def)
qed

end
