(* ===== verification/Id_Lookup.thy ===== *)
theory Id_Lookup
  imports Types
begin

text \<open>
  Sorted ranges of ids, as the standard algorithms read and merge them, and the set of ids asked one
  at a time (\<^verbatim>\<open>src/contract/id_lookup.hpp\<close>). The algorithms are written as the library runs them; on a
  sorted range a search is membership, and a union or difference that of the sets.
\<close>

section \<open>Searching\<close>

text \<open>The position a search narrows down to, from \<open>len\<close> elements that start at \<open>first\<close>.\<close>

function bound_from :: "('a \<Rightarrow> bool) \<Rightarrow> 'a list \<Rightarrow> nat \<Rightarrow> nat \<Rightarrow> nat" where
  "bound_from before xs first len =
     (if len = 0 then first
      else let half = len div 2 in
        if before (xs ! (first + half)) then bound_from before xs (first + half + 1) (len - half - 1)
        else bound_from before xs first half)"
  by pat_completeness auto
termination by (relation "measure (\<lambda>(_, _, _, len). len)") auto

declare bound_from.simps [simp del]

definition lower_bound :: "'a::linorder \<Rightarrow> 'a list \<Rightarrow> nat" where
  "lower_bound x xs = bound_from (\<lambda>y. y < x) xs 0 (length xs)"

definition upper_bound :: "'a::linorder \<Rightarrow> 'a list \<Rightarrow> nat" where
  "upper_bound x xs = bound_from (\<lambda>y. \<not> x < y) xs 0 (length xs)"

definition binary_search :: "'a::linorder \<Rightarrow> 'a list \<Rightarrow> bool" where
  "binary_search x xs = (let i = lower_bound x xs in i < length xs \<and> \<not> x < xs ! i)"

section \<open>Merging\<close>

fun set_union :: "'a::linorder list \<Rightarrow> 'a list \<Rightarrow> 'a list" where
  "set_union [] ys = ys"
| "set_union xs [] = xs"
| "set_union (x # xs) (y # ys) =
     (if x < y then x # set_union xs (y # ys)
      else if y < x then y # set_union (x # xs) ys
      else x # set_union xs ys)"

fun set_difference :: "'a::linorder list \<Rightarrow> 'a list \<Rightarrow> 'a list" where
  "set_difference [] ys = []"
| "set_difference xs [] = xs"
| "set_difference (x # xs) (y # ys) =
     (if x < y then x # set_difference xs (y # ys)
      else if y < x then set_difference (x # xs) ys
      else set_difference xs ys)"

definition sort_unique :: "'a::linorder list \<Rightarrow> 'a list" where
  "sort_unique ids = remdups_adj (sort ids)"

section \<open>Lookups\<close>

datatype IdLookup = Sorted_ids "ObjectId list" | Id_test "ObjectId \<Rightarrow> bool"

fun lookup_contains :: "IdLookup \<Rightarrow> ObjectId \<Rightarrow> bool" where
  "lookup_contains (Sorted_ids ids) i = binary_search i ids"
| "lookup_contains (Id_test test) i = test i"

fun lookup_sorted :: "IdLookup \<Rightarrow> ObjectId list" where
  "lookup_sorted (Sorted_ids ids) = ids"
| "lookup_sorted (Id_test _) = []"

section \<open>On sorted ranges\<close>

text \<open>The search splits the range where its test turns false.\<close>

lemma bound_from_splits:
  assumes mono: "\<And>i j. before (xs ! j) \<Longrightarrow> i \<le> j \<Longrightarrow> j < length xs \<Longrightarrow> before (xs ! i)"
    and "first + len \<le> length xs" "\<forall>i < first. before (xs ! i)"
    "\<forall>i < length xs. first + len \<le> i \<longrightarrow> \<not> before (xs ! i)"
  shows "bound_from before xs first len \<le> length xs \<and>
    (\<forall>i < length xs. before (xs ! i) \<longleftrightarrow> i < bound_from before xs first len)"
  using assms(2-)
proof (induction len arbitrary: first rule: less_induct)
  case (less len)
  show ?case
  proof (cases "len = 0")
    case True
    with less.prems show ?thesis by (subst (1 2) bound_from.simps) (auto simp: not_less)
  next
    case False
    let ?m = "first + len div 2"
    have m: "?m < length xs" using False less.prems(1) by simp
    show ?thesis
    proof (cases "before (xs ! ?m)")
      case True
      have below: "\<forall>i < ?m + 1. before (xs ! i)" using mono[OF True _ m] by (simp add: less_Suc_eq_le)
      have step: "bound_from before xs first len = bound_from before xs (?m + 1) (len - len div 2 - 1)"
        using True False by (subst bound_from.simps) (simp add: Let_def)
      show ?thesis unfolding step by (rule less.IH[OF _ _ below]) (use less.prems(1,3) False in auto)
    next
      case above: False
      have rest: "\<forall>i < length xs. ?m \<le> i \<longrightarrow> \<not> before (xs ! i)" using mono above by blast
      have step: "bound_from before xs first len = bound_from before xs first (len div 2)"
        using above False by (subst bound_from.simps) (simp add: Let_def)
      show ?thesis unfolding step by (rule less.IH[OF _ _ less.prems(2) rest]) (use False m in auto)
    qed
  qed
qed

lemma lower_bound_splits:
  assumes "sorted xs"
  shows "lower_bound x xs \<le> length xs" "i < length xs \<Longrightarrow> xs ! i < x \<longleftrightarrow> i < lower_bound x xs"
  using bound_from_splits[of "\<lambda>y. y < x" xs 0 "length xs"] assms
  by (auto simp: lower_bound_def dest: sorted_nth_mono order_le_less_trans)

lemma upper_bound_splits:
  assumes "sorted xs"
  shows "upper_bound x xs \<le> length xs" "i < length xs \<Longrightarrow> xs ! i \<le> x \<longleftrightarrow> i < upper_bound x xs"
  using bound_from_splits[of "\<lambda>y. \<not> x < y" xs 0 "length xs"] assms
  by (auto simp: upper_bound_def not_less dest: sorted_nth_mono order_trans)

lemma binary_search_sorted:
  assumes "sorted xs"
  shows "binary_search x xs \<longleftrightarrow> x \<in> set xs"
proof
  assume "binary_search x xs"
  then have i: "lower_bound x xs < length xs" "\<not> x < xs ! lower_bound x xs" by (simp_all add: binary_search_def Let_def)
  then have "\<not> xs ! lower_bound x xs < x" using lower_bound_splits(2)[OF assms i(1)] by simp
  with i show "x \<in> set xs" by (metis linorder_neqE nth_mem)
next
  assume "x \<in> set xs"
  then obtain k where k: "k < length xs" "xs ! k = x" by (auto simp: in_set_conv_nth)
  then have "lower_bound x xs \<le> k" using lower_bound_splits(2)[OF assms k(1), of x] by (simp add: not_less)
  with k assms show "binary_search x xs" by (auto simp: binary_search_def Let_def not_less dest: sorted_nth_mono)
qed

lemma drop_upper_bound:
  assumes "sorted xs"
  shows "drop (upper_bound x xs) xs = filter (\<lambda>y. x < y) xs" "take (upper_bound x xs) xs = filter (\<lambda>y. y \<le> x) xs"
proof -
  let ?n = "upper_bound x xs"
  have t: "\<forall>y \<in> set (take ?n xs). y \<le> x"
    using upper_bound_splits(2)[OF assms, of _ x] upper_bound_splits(1)[OF assms, of x] by (fastforce simp: in_set_conv_nth)
  have d: "\<forall>y \<in> set (drop ?n xs). x < y"
  proof
    fix y assume "y \<in> set (drop ?n xs)"
    then obtain k where "k < length xs - ?n" "y = xs ! (?n + k)" by (auto simp: in_set_conv_nth)
    then show "x < y" using upper_bound_splits(2)[OF assms, of "?n + k" x] by (simp add: not_le less_diff_conv2 upper_bound_splits(1)[OF assms] add.commute)
  qed
  have "filter (\<lambda>y. x < y) xs = filter (\<lambda>y. x < y) (take ?n xs) @ filter (\<lambda>y. x < y) (drop ?n xs)"
    by (metis append_take_drop_id filter_append)
  also have "\<dots> = drop ?n xs" using t d by (simp add: filter_empty_conv filter_id_conv leD)
  finally show "drop ?n xs = filter (\<lambda>y. x < y) xs" by simp
  have "filter (\<lambda>y. y \<le> x) xs = filter (\<lambda>y. y \<le> x) (take ?n xs) @ filter (\<lambda>y. y \<le> x) (drop ?n xs)"
    by (metis append_take_drop_id filter_append)
  also have "\<dots> = take ?n xs" using t d by (simp add: filter_empty_conv filter_id_conv not_le)
  finally show "take ?n xs = filter (\<lambda>y. y \<le> x) xs" by simp
qed

text \<open>Merging strictly sorted ranges.\<close>

lemma set_union_sorted:
  assumes "sorted_wrt (<) xs" "sorted_wrt (<) ys"
  shows "sorted_wrt (<) (set_union xs ys)" "set (set_union xs ys) = set xs \<union> set ys"
proof -
  show set: "set (set_union xs ys) = set xs \<union> set ys" by (induction xs ys rule: set_union.induct) auto
  have "set (set_union as bs) = set as \<union> set bs" for as bs :: "'a list" by (induction as bs rule: set_union.induct) auto
  then show "sorted_wrt (<) (set_union xs ys)"
    using assms by (induction xs ys rule: set_union.induct) (auto intro: less_trans)
qed

lemma set_difference_sorted:
  assumes "sorted_wrt (<) xs" "sorted_wrt (<) ys"
  shows "set_difference xs ys = filter (\<lambda>x. x \<notin> set ys) xs"
  using assms
proof (induction xs ys rule: set_difference.induct)
  case (3 x xs y ys)
  consider "x < y" | "y < x" | "x = y" by force
  then show ?case
  proof cases
    case 1
    then have "x \<notin> set (y # ys)" using 3(5) by auto
    with 1 3 show ?thesis by simp
  next
    case 2
    then have "\<forall>z \<in> set (x # xs). z \<noteq> y" using 3(4) by auto
    then have same: "filter (\<lambda>z. z \<notin> set (y # ys)) (x # xs) = filter (\<lambda>z. z \<notin> set ys) (x # xs)" by (intro filter_cong) auto
    have "\<not> x < y" using 2 by simp
    moreover have "sorted_wrt (<) ys" using 3(5) by simp
    ultimately show ?thesis unfolding same using 3(2)[OF _ 2 3(4)] 2 by simp
  next
    case eq: 3
    then have "\<forall>z \<in> set xs. z \<noteq> y" using 3(4) by auto
    then have "filter (\<lambda>z. z \<notin> set (y # ys)) xs = filter (\<lambda>z. z \<notin> set ys) xs" by (intro filter_cong) auto
    with eq 3 show ?thesis by simp
  qed
qed simp_all

lemma sort_unique_ids: "sorted_wrt (<) (sort_unique ids)" "set (sort_unique ids) = set ids"
  by (simp_all add: sort_unique_def strict_remdups_adj)

lemma strict_sorted_sorted: "sorted_wrt (<) xs \<Longrightarrow> sorted (xs :: 'a::linorder list)"
  by (simp add: strict_sorted_iff)

end
