(* ===== verification/Availability.thy ===== *)
theory Availability
  imports Trie_Union Id_Lookup
begin

text \<open>
  Which referenced objects some reachable node holds (\<^verbatim>\<open>src/ledger/availability.hpp\<close>,
  \<^verbatim>\<open>src/ledger/availability.cpp\<close>): this node's held trie is compared with each peer's, a peer that fails
  is counted and passed over, and what is missing here and held by no peer that answered is
  unavailable, or unknown when some peer did not answer. A peer is a source whose questions may fail.
\<close>

section \<open>Data\<close>

record AvailabilitySurvey =
  av_unavailable :: "ObjectId list"
  av_unknown :: "ObjectId list"
  av_peers_asked :: nat
  av_peers_failed :: nat
  av_rounds :: nat
  av_nodes_asked :: nat

definition AvailabilitySurvey_0 :: AvailabilitySurvey where
  "AvailabilitySurvey_0 = \<lparr>av_unavailable = [], av_unknown = [], av_peers_asked = 0, av_peers_failed = 0,
     av_rounds = 0, av_nodes_asked = 0\<rparr>"

record PeerDiff =
  pd_answered :: bool
  pd_root :: Hash256
  pd_lacks :: "ObjectId list"

definition PeerDiff_0 :: PeerDiff where
  "PeerDiff_0 = \<lparr>pd_answered = False, pd_root = Hash256_0, pd_lacks = []\<rparr>"

definition is_unavailable :: "AvailabilitySurvey \<Rightarrow> ObjectId \<Rightarrow> bool" where
  "is_unavailable survey i = binary_search i (av_unavailable survey)"

definition is_unknown :: "AvailabilitySurvey \<Rightarrow> ObjectId \<Rightarrow> bool" where
  "is_unknown survey i = binary_search i (av_unknown survey)"

section \<open>Operations\<close>

text \<open>A source that remembers the root it answered with; the hash is its own state.\<close>

definition Recorded :: "'s TrieSource \<Rightarrow> ('s \<times> Hash256) TrieSource" where
  "Recorded source =
     \<lparr>src_root = bindM (on_fst (src_root source)) (\<lambda>summary.
        bindM (modifyM (\<lambda>st. (fst st, sm_hash summary))) (\<lambda>_. retM summary)),
      src_children = (\<lambda>p. on_fst (src_children source p)),
      src_records = (\<lambda>p. on_fst (src_records source p))\<rparr>"

definition keep_unavailable :: "AvailabilitySurvey \<Rightarrow> AvailabilitySurvey \<Rightarrow> (ObjectId \<Rightarrow> bool) \<Rightarrow> AvailabilitySurvey" where
  "keep_unavailable next prev held =
     (let kept = filter (\<lambda>i. \<not> held i) (av_unavailable prev);
          unavailable = set_union (av_unavailable next) kept;
          unknown = set_difference (av_unknown next) unavailable
      in next\<lparr>av_unavailable := unavailable, av_unknown := unknown\<rparr>)"

definition lacks_of :: "IdLookup \<Rightarrow> TrieDifference list \<Rightarrow> ObjectId list" where
  "lacks_of referenced visited =
     map df_id (filter (\<lambda>d. df_left d \<noteq> None \<and> df_right d = None \<and> lookup_contains referenced (df_id d)) visited)"

definition holds_of :: "TrieDifference list \<Rightarrow> ObjectId list" where
  "holds_of visited = map df_id (filter (\<lambda>d. df_left d = None \<and> df_right d \<noteq> None) visited)"

text \<open>What the loop does not catch: a pass told to stop, and what is no exception.\<close>

definition uncaught :: "error \<Rightarrow> bool" where
  "uncaught e \<longleftrightarrow> e \<in> {MaintenanceStopping, UndefinedBehaviour, OutOfFuel}"

definition peer_diff :: "'s TrieSource \<Rightarrow> ('s, unit) prog \<Rightarrow> 's TrieSource \<Rightarrow> 's \<Rightarrow>
    (TrieDifference list \<times> TrieDiffCost) result \<times> ('s \<times> Hash256)" where
  "peer_diff mine pause source s = diff_tries (left_source mine) (Recorded source) (on_fst pause) (s, Hash256_0)"

definition survey_peer :: "'s TrieSource \<Rightarrow> IdLookup \<Rightarrow> ('s, unit) prog \<Rightarrow> AvailabilitySurvey \<times> ObjectId list \<times> PeerDiff list \<Rightarrow>
    's TrieSource \<Rightarrow> ('s, AvailabilitySurvey \<times> ObjectId list \<times> PeerDiff list) prog" where
  "survey_peer mine referenced pause acc source s =
     (case acc of (survey, held_elsewhere, peers) \<Rightarrow>
      let survey = survey\<lparr>av_peers_asked := av_peers_asked survey + 1\<rparr> in
      case peer_diff mine pause source s of
        (Inl e, st) \<Rightarrow>
          if uncaught e then (Inl e, fst st)
          else (Inr (survey\<lparr>av_peers_failed := av_peers_failed survey + 1\<rparr>, held_elsewhere, peers @ [PeerDiff_0]), fst st)
      | (Inr (visited, cost), st) \<Rightarrow>
          (Inr (survey\<lparr>av_rounds := av_rounds survey + dc_rounds cost,
                       av_nodes_asked := av_nodes_asked survey + dc_prefixes cost\<rparr>,
                held_elsewhere @ holds_of visited,
                peers @ [\<lparr>pd_answered = True, pd_root = snd st, pd_lacks = sort (lacks_of referenced visited)\<rparr>]), fst st))"

definition survey_by_diff :: "'s TrieSource \<Rightarrow> ObjectId list \<Rightarrow> IdLookup \<Rightarrow> 's TrieSource list \<Rightarrow> ('s, unit) prog \<Rightarrow>
    ('s, AvailabilitySurvey \<times> PeerDiff list) prog" where
  "survey_by_diff mine missing_here referenced sources pause =
     bindM (foldM (survey_peer mine referenced pause) (AvailabilitySurvey_0, [], []) sources) (\<lambda>(survey, held_elsewhere, peers).
     let rest = set_difference missing_here (sort_unique held_elsewhere) in
     retM (if av_peers_failed survey \<noteq> 0 then survey\<lparr>av_unknown := rest\<rparr> else survey\<lparr>av_unavailable := rest\<rparr>, peers))"

section \<open>Sources through a part of the state\<close>

definition zoom_source :: "('t \<Rightarrow> 's) \<Rightarrow> ('s \<Rightarrow> 't \<Rightarrow> 't) \<Rightarrow> 's TrieSource \<Rightarrow> 't TrieSource" where
  "zoom_source getp putp src =
     \<lparr>src_root = zoomM getp putp (src_root src), src_children = (\<lambda>ps. zoomM getp putp (src_children src ps)),
      src_records = (\<lambda>ps. zoomM getp putp (src_records src ps))\<rparr>"

lemma zoom_reads:
  assumes "\<exists>s'. m (getp st) = (Inr x, s') \<and> P s'" "\<And>s'. P s' \<Longrightarrow> good (putp s' st)"
  shows "\<exists>st'. zoomM getp putp m st = (Inr x, st') \<and> good st'"
  using assms by (auto simp: zoomM_apply)

lemma trie_source_zoom:
  assumes "trie_source C P src rs" "\<And>st. good st \<Longrightarrow> P (getp st)" "\<And>st s'. good st \<Longrightarrow> P s' \<Longrightarrow> good (putp s' st)"
  shows "trie_source C good (zoom_source getp putp src) rs"
proof
  fix st ps assume g: "good st"
  note p = assms(2)[OF g] and put = assms(3)[OF g]
  show "ledger_ok rs" by (rule trie_source.source_ledger[OF assms(1) p])
  show "\<exists>st'. src_root (zoom_source getp putp src) st = (Inr (trie_summary C 0 rs), st') \<and> good st'"
    using zoom_reads[where m = "src_root src" and getp = getp and st = st and good = good, OF trie_source.source_root[OF assms(1) p]] put by (simp add: zoom_source_def)
  show "\<exists>st'. src_children (zoom_source getp putp src) ps st =
      (Inr (map (\<lambda>p. slot_summaries C (px_length p) (below p rs)) ps), st') \<and> good st'"
    if "\<forall>p \<in> set ps. prefix_ok p \<and> px_length p < 32"
    using zoom_reads[where m = "src_children src ps" and getp = getp and st = st and good = good, OF trie_source.source_children[OF assms(1) p that]] put by (simp add: zoom_source_def)
  show "\<exists>st'. src_records (zoom_source getp putp src) ps st = (Inr (map (\<lambda>p. below p rs) ps), st') \<and> good st'"
    if "\<forall>p \<in> set ps. prefix_ok p \<and> length (below p rs) \<le> leaf_max"
    using zoom_reads[where m = "src_records src ps" and getp = getp and st = st and good = good, OF trie_source.source_records[OF assms(1) p that]] put by (simp add: zoom_source_def)
qed

lemma trie_source_Recorded:
  assumes "trie_source C good src rs"
  shows "trie_source C (\<lambda>st. good (fst st) \<and> snd st = sm_hash (trie_summary C 0 rs)) (Recorded src) rs"
proof -
  let ?good = "\<lambda>st. good (fst st) \<and> snd st = sm_hash (trie_summary C 0 rs)"
  have z: "trie_source C ?good (left_source src) rs"
    using trie_source_left[OF assms, of "\<lambda>h. h = sm_hash (trie_summary C 0 rs)"] .
  show ?thesis
  proof
    fix st ps assume g: "?good st"
    show "ledger_ok rs" by (rule trie_source.source_ledger[OF z g])
    show "\<exists>st'. src_root (Recorded src) st = (Inr (trie_summary C 0 rs), st') \<and> ?good st'"
      using trie_source.source_root[OF z g] by (auto simp: Recorded_def left_source_def bindM_def)
    show "\<exists>st'. src_children (Recorded src) ps st =
        (Inr (map (\<lambda>p. slot_summaries C (px_length p) (below p rs)) ps), st') \<and> ?good st'"
      if "\<forall>p \<in> set ps. prefix_ok p \<and> px_length p < 32"
      using trie_source.source_children[OF z g that] by (simp add: Recorded_def left_source_def)
    show "\<exists>st'. src_records (Recorded src) ps st = (Inr (map (\<lambda>p. below p rs) ps), st') \<and> ?good st'"
      if "\<forall>p \<in> set ps. prefix_ok p \<and> length (below p rs) \<le> leaf_max"
      using trie_source.source_records[OF z g that] by (simp add: Recorded_def left_source_def)
  qed
qed

text \<open>What a survey says of one peer, and what the peers that answered hold.\<close>

fun peer_result :: "crypto \<Rightarrow> Record list \<Rightarrow> IdLookup \<Rightarrow> Record list option \<Rightarrow> PeerDiff" where
  "peer_result C ls referenced None = PeerDiff_0"
| "peer_result C ls referenced (Some rs) = \<lparr>pd_answered = True, pd_root = sm_hash (trie_summary C 0 rs),
     pd_lacks = sorted_list_of_set {i. map_of ls i \<noteq> None \<and> map_of rs i = None \<and> lookup_contains referenced i}\<rparr>"

definition held_by_some :: "Record list option list \<Rightarrow> ObjectId \<Rightarrow> bool" where
  "held_by_some answers i \<longleftrightarrow> (\<exists>rs. Some rs \<in> set answers \<and> map_of rs i \<noteq> None)"

lemma lacks_of_differing:
  assumes "distinct (map df_id visited)" "set visited = differing ls rs"
  shows "sort (lacks_of referenced visited) =
    sorted_list_of_set {i. map_of ls i \<noteq> None \<and> map_of rs i = None \<and> lookup_contains referenced i}"
proof -
  have "set (lacks_of referenced visited) = {i. map_of ls i \<noteq> None \<and> map_of rs i = None \<and> lookup_contains referenced i}"
    using assms(2) by (force simp: lacks_of_def differing_def)
  moreover have "distinct (lacks_of referenced visited)" using assms(1) by (simp add: lacks_of_def distinct_map_filter)
  ultimately show ?thesis by (metis distinct_remdups_id sorted_list_of_set_sort_remdups)
qed

lemma holds_of_differing:
  "set visited = differing ls rs \<Longrightarrow> set (holds_of visited) = {i. map_of ls i = None \<and> map_of rs i \<noteq> None}"
  by (force simp: holds_of_def differing_def)

section \<open>What a survey relies on\<close>

text \<open>
  This node's source for the records \<open>ls\<close>, and for each peer its source with the records it stands for,
  or none for a peer whose comparison does not finish. SHA-256 tells different records apart.
\<close>

locale peer_survey =
  fixes C :: crypto
    and good :: "'s \<Rightarrow> bool"
    and mine :: "'s TrieSource"
    and ls :: "Record list"
    and pause :: "('s, unit) prog"
    and peers :: "('s TrieSource \<times> Record list option) list"
  assumes mine_source: "trie_source C good mine ls"
    and pause_returns: "good s \<Longrightarrow> \<exists>s'. pause s = (Inr (), s') \<and> good s'"
    and peer_source: "(src, Some rs) \<in> set peers \<Longrightarrow> trie_source C good src rs"
    and peer_apart: "(src, Some rs) \<in> set peers \<Longrightarrow> good s \<Longrightarrow> prefix_ok p \<Longrightarrow>
      trie_summary C (px_length p) (below p ls) = trie_summary C (px_length p) (below p rs) \<Longrightarrow> below p ls = below p rs"
    and peer_fails: "(src, None) \<in> set peers \<Longrightarrow> good s \<Longrightarrow>
      \<exists>e st'. peer_diff mine pause src s = (Inl e, st') \<and> \<not> uncaught e \<and> good (fst st')"
begin

text \<open>A peer that answers: the differences, and the hash of the trie they are of.\<close>

lemma peer_answers:
  assumes "(src, Some rs) \<in> set peers" "good s"
  shows "\<exists>visited cost s'. peer_diff mine pause src s = (Inr (visited, cost), (s', sm_hash (trie_summary C 0 rs))) \<and>
    good s' \<and> distinct (map df_id visited) \<and> set visited = differing ls rs"
proof -
  let ?h = "sm_hash (trie_summary C 0 rs)" and ?good = "\<lambda>st. good (fst st) \<and> snd st = sm_hash (trie_summary C 0 rs)"
  note src = peer_source[OF assms(1)]
  have diff: "trie_diff C ?good (left_source mine) (Recorded src) ls rs (on_fst pause)"
  proof (intro trie_diff.intro trie_diff_axioms.intro)
    show "trie_source C ?good (left_source mine) ls" by (rule trie_source_left[OF mine_source])
    show "trie_source C ?good (Recorded src) rs" by (rule trie_source_Recorded[OF src])
    show "\<exists>st'. on_fst pause st = (Inr (), st') \<and> ?good st'" if "?good st" for st
      using on_fst_reads[of pause "fst st" "()" good "\<lambda>h. h = ?h" "snd st"] pause_returns that by (cases st) simp
    show "below p ls = below p rs" if "?good st" "prefix_ok p"
      "trie_summary C (px_length p) (below p ls) = trie_summary C (px_length p) (below p rs)" for st p
      using peer_apart[OF assms(1) _ that(2,3)] that(1) by blast
  qed
  have ok: "records_ok ls" "records_ok rs"
    using trie_source.source_ledger[OF mine_source assms(2)] trie_source.source_ledger[OF src assms(2)] segment_okD(1) by blast+
  obtain visited cost st where d: "diff_tries (left_source mine) (Recorded src) (on_fst pause) (s, ?h) = (Inr (visited, cost), st)"
    "?good st" "mset visited = mset (compare ls rs)" using trie_diff.diff_tries_finds[OF diff, of "(s, ?h)"] assms(2) by auto
  obtain s1 where r1: "src_root mine s = (Inr (trie_summary C 0 ls), s1)" "good s1"
    using trie_source.source_root[OF mine_source assms(2)] by blast
  obtain s2 where r2: "src_root src s1 = (Inr (trie_summary C 0 rs), s2)" using trie_source.source_root[OF src r1(2)] by blast
  have "peer_diff mine pause src s = diff_tries (left_source mine) (Recorded src) (on_fst pause) (s, ?h)"
    using r1 r2 by (simp add: peer_diff_def diff_tries_def bindM_def left_source_def Recorded_def on_fst_def zoomM_apply)
  moreover have "distinct (map df_id visited)"
    using distinct_compare[OF ok] d(3) by (metis mset_map mset_eq_imp_distinct_iff)
  moreover have "set visited = differing ls rs" using mset_eq_setD[OF d(3)] set_compare[OF ok] by simp
  ultimately show ?thesis using d(1,2) by (cases st) auto
qed

end

context peer_survey
begin

lemma survey_peer_step:
  assumes "(src, answer) \<in> set peers" "good s"
  shows "\<exists>acc' s'. survey_peer mine referenced pause (survey, held, out) src s = (Inr acc', s') \<and> good s' \<and>
    av_peers_asked (fst acc') = av_peers_asked survey + 1 \<and>
    av_peers_failed (fst acc') = av_peers_failed survey + (if answer = None then 1 else 0) \<and>
    av_unavailable (fst acc') = av_unavailable survey \<and> av_unknown (fst acc') = av_unknown survey \<and>
    set (fst (snd acc')) = set held \<union> {i. map_of ls i = None \<and> held_by_some [answer] i} \<and>
    snd (snd acc') = out @ [peer_result C ls referenced answer]"
proof (cases answer)
  case None
  then obtain e st where "peer_diff mine pause src s = (Inl e, st)" "\<not> uncaught e" "good (fst st)"
    using peer_fails assms by blast
  with None show ?thesis by (simp add: survey_peer_def Let_def held_by_some_def)
next
  case (Some rs)
  then obtain visited cost s' where d: "peer_diff mine pause src s = (Inr (visited, cost), (s', sm_hash (trie_summary C 0 rs)))"
    "good s'" "distinct (map df_id visited)" "set visited = differing ls rs" using peer_answers assms by blast
  show ?thesis
    using d(1,2) Some lacks_of_differing[OF d(3,4), of referenced] holds_of_differing[OF d(4)]
    by (simp add: survey_peer_def Let_def held_by_some_def)
qed

lemma survey_loop:
  assumes "set ps \<subseteq> set peers" "good s"
  shows "\<exists>acc' s'. foldM (survey_peer mine referenced pause) (survey, held, out) (map fst ps) s = (Inr acc', s') \<and> good s' \<and>
    av_peers_asked (fst acc') = av_peers_asked survey + length ps \<and>
    av_peers_failed (fst acc') = av_peers_failed survey + length (filter (\<lambda>p. snd p = None) ps) \<and>
    av_unavailable (fst acc') = av_unavailable survey \<and> av_unknown (fst acc') = av_unknown survey \<and>
    set (fst (snd acc')) = set held \<union> {i. map_of ls i = None \<and> held_by_some (map snd ps) i} \<and>
    snd (snd acc') = out @ map (peer_result C ls referenced) (map snd ps)"
  using assms
proof (induction ps arbitrary: s survey held out)
  case Nil
  then show ?case by (simp add: held_by_some_def)
next
  case (Cons p ps)
  have p: "(fst p, snd p) \<in> set peers" using Cons.prems(1) by auto
  obtain survey1 held1 out1 s1 where 1: "survey_peer mine referenced pause (survey, held, out) (fst p) s = (Inr (survey1, held1, out1), s1)"
    "good s1" "av_peers_asked survey1 = av_peers_asked survey + 1"
    "av_peers_failed survey1 = av_peers_failed survey + (if snd p = None then 1 else 0)"
    "av_unavailable survey1 = av_unavailable survey" "av_unknown survey1 = av_unknown survey"
    "set held1 = set held \<union> {i. map_of ls i = None \<and> held_by_some [snd p] i}"
    "out1 = out @ [peer_result C ls referenced (snd p)]"
    using survey_peer_step[OF p Cons.prems(2), of referenced survey held out] by auto
  have "{i. map_of ls i = None \<and> held_by_some (map snd (p # ps)) i} =
      {i. map_of ls i = None \<and> held_by_some [snd p] i} \<union> {i. map_of ls i = None \<and> held_by_some (map snd ps) i}"
    by (auto simp: held_by_some_def)
  with Cons.IH[OF _ 1(2), of survey1 held1 out1] Cons.prems(1) 1 show ?case by (auto simp: bindM_def)
qed

lemma survey_exact:
  assumes "good s" "sorted_wrt (<) missing" "\<forall>i \<in> set missing. map_of ls i = None"
  shows "\<exists>survey s'. survey_by_diff mine missing referenced (map fst peers) pause s =
      (Inr (survey, map (peer_result C ls referenced) (map snd peers)), s') \<and>
    av_peers_asked survey = length peers \<and> av_peers_failed survey = length (filter (\<lambda>p. snd p = None) peers) \<and>
    (let rest = filter (\<lambda>i. \<not> held_by_some (map snd peers) i) missing in
     if None \<in> set (map snd peers) then av_unavailable survey = [] \<and> av_unknown survey = rest
     else av_unavailable survey = rest \<and> av_unknown survey = [])"
proof -
  obtain survey held out s' where l: "foldM (survey_peer mine referenced pause) (AvailabilitySurvey_0, [], []) (map fst peers) s =
      (Inr (survey, held, out), s')"
    "av_peers_asked survey = length peers" "av_peers_failed survey = length (filter (\<lambda>p. snd p = None) peers)"
    "av_unavailable survey = []" "av_unknown survey = []"
    "set held = {i. map_of ls i = None \<and> held_by_some (map snd peers) i}"
    "out = map (peer_result C ls referenced) (map snd peers)"
    using survey_loop[of peers s referenced AvailabilitySurvey_0 "[]" "[]"] assms(1) by (auto simp: AvailabilitySurvey_0_def)
  have "set_difference missing (sort_unique held) = filter (\<lambda>i. \<not> held_by_some (map snd peers) i) missing"
    unfolding set_difference_sorted[OF assms(2) sort_unique_ids(1)] sort_unique_ids(2) l(6)
    using assms(3) by (intro filter_cong) auto
  moreover have "av_peers_failed survey \<noteq> 0 \<longleftrightarrow> None \<in> set (map snd peers)"
    unfolding l(3) by (force simp: filter_empty_conv)
  ultimately show ?thesis using l by (simp add: survey_by_diff_def bindM_def Let_def)
qed

end

section \<open>Surveying with a union against snapshots\<close>

text \<open>
  The peers as far as this code sees them: a snapshot of the peer's held trie with a cache of its own,
  or a peer that cannot be reached, whose every question fails with the network's error. A peer that
  answers some questions and then fails is covered by the locale \<open>peer_survey\<close>, where a comparison may
  end in an error at any point.
\<close>

type_synonym surveyed = "(node_files \<times> Snapshot \<times> Record list) option"

definition unreachable :: "string \<Rightarrow> 's TrieSource" where
  "unreachable what = \<lparr>src_root = raiseM (RuntimeError what), src_children = (\<lambda>_. raiseM (RuntimeError what)),
     src_records = (\<lambda>_. raiseM (RuntimeError what))\<rparr>"

definition peer_at :: "nat \<Rightarrow> surveyed \<Rightarrow> (caches \<times> Node NodeCache list) TrieSource \<times> Record list option" where
  "peer_at j p =
     (case p of None \<Rightarrow> (unreachable ''peer unavailable'', None)
      | Some (F, s, rs) \<Rightarrow> (zoom_source (\<lambda>st. snd st ! j) (\<lambda>c st. (fst st, (snd st)[j := c])) (SnapshotSource s), Some rs))"

definition peers_at :: "surveyed list \<Rightarrow> ((caches \<times> Node NodeCache list) TrieSource \<times> Record list option) list" where
  "peers_at ps = map (\<lambda>j. peer_at j (ps ! j)) [0..<length ps]"

fun peer_good :: "crypto \<Rightarrow> Record list \<Rightarrow> surveyed \<Rightarrow> Node NodeCache \<Rightarrow> bool" where
  "peer_good C ls None cache \<longleftrightarrow> True"
| "peer_good C ls (Some (F, s, rs)) cache \<longleftrightarrow> snapshot_reading F s cache \<and> snapshot_holds F s rs \<and>
     sn_crypto s = C \<and> crypto_ok C \<and> inj_on (sha256 C) (ledger_inputs C ls \<union> ledger_inputs C rs)"

definition survey_ready :: "crypto \<Rightarrow> node_files list \<Rightarrow> TrieUnion \<Rightarrow> Record list list \<Rightarrow> surveyed list \<Rightarrow>
    caches \<times> Node NodeCache list \<Rightarrow> bool" where
  "survey_ready C Fs u rss ps st \<longleftrightarrow>
     (union_stands C Fs u rss \<and> parts_reading Fs (tu_parts u) (fst st)) \<and>
     list_all2 (peer_good C (union_records rss)) ps (snd st)"

lemma peer_good_source:
  assumes "j < length ps" "ps ! j = Some (F, s, rs)"
  shows "trie_source C (survey_ready C Fs u rss ps) (fst (peer_at j (ps ! j))) rs"
proof -
  let ?P = "\<lambda>cache. peer_good C (union_records rss) (Some (F, s, rs)) cache"
  have "trie_source C (\<lambda>cache. (sn_crypto s = C \<and> crypto_ok C \<and>
      inj_on (sha256 C) (ledger_inputs C (union_records rss) \<union> ledger_inputs C rs)) \<and>
      snapshot_reading F s cache \<and> snapshot_holds F s rs) (SnapshotSource s) rs"
    by (rule trie_source_cond) (use snapshot_source.trie_source_axioms[of s F rs] in simp)
  moreover have "(\<lambda>cache. (sn_crypto s = C \<and> crypto_ok C \<and>
      inj_on (sha256 C) (ledger_inputs C (union_records rss) \<union> ledger_inputs C rs)) \<and>
      snapshot_reading F s cache \<and> snapshot_holds F s rs) = ?P" by auto
  ultimately have src: "trie_source C ?P (SnapshotSource s) rs" by simp
  have get: "?P (snd st ! j)" if "survey_ready C Fs u rss ps st" for st
    using that list_all2_nthD[of "peer_good C (union_records rss)" ps "snd st" j] assms by (simp add: survey_ready_def)
  have put: "survey_ready C Fs u rss ps (fst st, (snd st)[j := c])" if "survey_ready C Fs u rss ps st" "?P c" for st c
    using that list_all2_update_cong[of "peer_good C (union_records rss)" ps "snd st" "ps ! j" c j] assms list_update_id[of ps j]
    by (simp add: survey_ready_def)
  show ?thesis
    using trie_source_zoom[OF src, of "survey_ready C Fs u rss ps" "\<lambda>st. snd st ! j" "\<lambda>c st. (fst st, (snd st)[j := c])"] get put
    by (simp add: peer_at_def assms(2))
qed

lemma peers_at_Some:
  assumes "(src, Some rs) \<in> set (peers_at ps)"
  obtains j F s where "j < length ps" "ps ! j = Some (F, s, rs)" "src = fst (peer_at j (ps ! j))"
proof -
  obtain j where j: "j < length ps" "(src, Some rs) = peer_at j (ps ! j)" using assms by (auto simp: peers_at_def)
  then obtain F s where "ps ! j = Some (F, s, rs)" by (auto simp: peer_at_def split: option.splits)
  with that j show ?thesis by (metis fst_conv)
qed

lemma peers_at_answers: "map snd (peers_at ps) = map (map_option (\<lambda>p. snd (snd p))) ps"
  by (rule nth_equalityI) (auto simp: peers_at_def peer_at_def split: option.split)

interpretation union_survey: peer_survey C "survey_ready C Fs u rss ps" "left_source (UnionSource u)" "union_records rss" "retM ()"
  "peers_at ps" for C Fs u rss ps
proof (rule peer_survey.intro)
  let ?good = "survey_ready C Fs u rss ps"
  have good: "?good = (\<lambda>st. (union_stands C Fs u rss \<and> parts_reading Fs (tu_parts u) (fst st)) \<and>
      list_all2 (peer_good C (union_records rss)) ps (snd st))" by (simp add: survey_ready_def fun_eq_iff)
  show mine: "trie_source C ?good (left_source (UnionSource u)) (union_records rss)"
    unfolding good by (rule trie_source_left[OF union_source.trie_source_axioms])
  show "\<exists>st'. retM () st = (Inr (), st') \<and> ?good st'" if "?good st" for st using that by simp
  show "trie_source C ?good src rs" if "(src, Some rs) \<in> set (peers_at ps)" for src rs
    using peers_at_Some[OF that] peer_good_source by metis
  show "below p (union_records rss) = below p rs" if a: "(src, Some rs) \<in> set (peers_at ps)" "?good st" "prefix_ok p"
    "trie_summary C (px_length p) (below p (union_records rss)) = trie_summary C (px_length p) (below p rs)" for src rs st p
  proof -
    obtain j F s where j: "j < length ps" "ps ! j = Some (F, s, rs)" using peers_at_Some[OF a(1)] by metis
    then have "peer_good C (union_records rss) (Some (F, s, rs)) (snd st ! j)"
      using a(2) list_all2_nthD[of "peer_good C (union_records rss)" ps "snd st" j] by (simp add: survey_ready_def)
    then show ?thesis
      using ledger_inputs_sound[OF _ _ _ _ a(3,4)] a(2) snapshot_holds_ledger[of F s rs] union_standsD(3)
      by (auto simp: survey_ready_def)
  qed
  show "\<exists>e st'. peer_diff (left_source (UnionSource u)) (retM ()) src st = (Inl e, st') \<and> \<not> uncaught e \<and> ?good (fst st')"
    if a: "(src, None) \<in> set (peers_at ps)" "?good st" for src st
  proof -
    have src: "src = unreachable ''peer unavailable''" using a(1) by (auto simp: peers_at_def peer_at_def split: option.splits)
    obtain st1 where "src_root (left_source (UnionSource u)) st = (Inr (trie_summary C 0 (union_records rss)), st1)" "?good st1"
      using trie_source.source_root[OF mine a(2)] by blast
    then show ?thesis unfolding src
      by (simp add: peer_diff_def diff_tries_def bindM_def left_source_def Recorded_def on_fst_def zoomM_apply
          unreachable_def uncaught_def)
  qed
qed

section \<open>Properties\<close>

text \<open>A survey that keeps an earlier one's findings.\<close>

lemma keep_unavailable_exact:
  assumes "sorted_wrt (<) (av_unavailable next)" "sorted_wrt (<) (av_unavailable prev)" "sorted_wrt (<) (av_unknown next)"
  shows "is_unavailable (keep_unavailable next prev held) i \<longleftrightarrow>
      is_unavailable next i \<or> is_unavailable prev i \<and> \<not> held i"
    "is_unknown (keep_unavailable next prev held) i \<longleftrightarrow>
      is_unknown next i \<and> \<not> is_unavailable (keep_unavailable next prev held) i"
proof -
  let ?kept = "filter (\<lambda>i. \<not> held i) (av_unavailable prev)"
  have kept: "sorted_wrt (<) ?kept" by (rule sorted_wrt_filter[OF assms(2)])
  note u = set_union_sorted[OF assms(1) kept]
  have d: "set_difference (av_unknown next) (set_union (av_unavailable next) ?kept) =
      filter (\<lambda>i. i \<notin> set (set_union (av_unavailable next) ?kept)) (av_unknown next)"
    by (rule set_difference_sorted[OF assms(3) u(1)])
  note search = binary_search_sorted[OF strict_sorted_sorted]
  show "is_unavailable (keep_unavailable next prev held) i \<longleftrightarrow> is_unavailable next i \<or> is_unavailable prev i \<and> \<not> held i"
    using assms u by (auto simp: is_unavailable_def keep_unavailable_def Let_def search)
  show "is_unknown (keep_unavailable next prev held) i \<longleftrightarrow>
      is_unknown next i \<and> \<not> is_unavailable (keep_unavailable next prev held) i"
    using assms u d sorted_wrt_filter[OF assms(3)]
    by (auto simp: is_unknown_def is_unavailable_def keep_unavailable_def Let_def search)
qed

text \<open>
  C7: A survey finds exactly what no reachable node holds. Comparing a union of this node's tries with
  every peer's, it throws nothing whichever peers fail; each peer that answered is credited with the
  root of its trie and with exactly the referenced objects this node holds and it lacks; and of the
  objects missing here those that no peer that answered holds are unavailable when every peer
  answered, and only unknown when one did not.
\<close>

theorem survey_finds_unavailable:
  assumes "survey_ready C Fs u rss ps st" "sorted_wrt (<) missing" "\<forall>i \<in> set missing. map_of (union_records rss) i = None"
  shows "\<exists>survey st'. survey_by_diff (left_source (UnionSource u)) missing referenced (map fst (peers_at ps)) (retM ()) st =
      (Inr (survey, map (\<lambda>p. peer_result C (union_records rss) referenced (map_option (\<lambda>x. snd (snd x)) p)) ps), st') \<and>
    av_peers_asked survey = length ps \<and>
    (\<forall>i. is_unavailable survey i \<longleftrightarrow> None \<notin> set ps \<and> i \<in> set missing \<and> \<not> held_by_some (map (map_option (\<lambda>x. snd (snd x))) ps) i) \<and>
    (\<forall>i. is_unknown survey i \<longleftrightarrow> None \<in> set ps \<and> i \<in> set missing \<and> \<not> held_by_some (map (map_option (\<lambda>x. snd (snd x))) ps) i)"
proof -
  let ?answers = "map (map_option (\<lambda>x. snd (snd x))) ps"
  have len: "length (peers_at ps) = length ps" by (simp add: peers_at_def)
  have none: "None \<in> set ?answers \<longleftrightarrow> None \<in> set ps" by force
  obtain survey st' where s: "survey_by_diff (left_source (UnionSource u)) missing referenced (map fst (peers_at ps)) (retM ()) st =
      (Inr (survey, map (peer_result C (union_records rss) referenced) ?answers), st')" "av_peers_asked survey = length ps"
    "let rest = filter (\<lambda>i. \<not> held_by_some ?answers i) missing in
     if None \<in> set ps then av_unavailable survey = [] \<and> av_unknown survey = rest
     else av_unavailable survey = rest \<and> av_unknown survey = []"
    using union_survey.survey_exact[OF assms, of referenced] unfolding peers_at_answers len none by blast
  have search: "binary_search i (filter P missing) \<longleftrightarrow> i \<in> set missing \<and> P i" for i P
    using binary_search_sorted[OF strict_sorted_sorted[OF sorted_wrt_filter[OF assms(2)]]] by auto
  have empty: "\<not> binary_search i []" for i :: ObjectId by (simp add: binary_search_def)
  show ?thesis
    using s by (intro exI[of _ survey] exI[of _ st']) (auto simp: Let_def is_unavailable_def is_unknown_def search empty comp_def split: if_splits)
qed

definition sample_survey :: "surveyed list \<Rightarrow> AvailabilitySurvey result" where
  "sample_survey ps = map_sum id fst (fst (survey_by_diff (left_source (UnionSource whole_union)) [replicate 32 3] (Sorted_ids [])
     (map fst (peers_at ps)) (retM ()) ([ot_cache sample_trie, ot_cache empty_trie], map (\<lambda>_. ot_cache empty_trie) ps)))"

theorem survey_finds_unavailable_witness:
  "(\<exists>survey. sample_survey [Some (sample_files, trie_snapshot empty_trie, [])] = Inr survey \<and> is_unavailable survey (replicate 32 3)) \<and>
   (\<exists>survey. sample_survey [Some (sample_files, trie_snapshot empty_trie, []), None] = Inr survey \<and> is_unknown survey (replicate 32 3))"
proof -
  have u: "union_records [one_record, []] = one_record" by (simp add: union_records_def)
  let ?ready = "survey_ready plain_crypto [sample_files, sample_files] whole_union [one_record, []]"
  let ?peer = "Some (sample_files, trie_snapshot empty_trie, [])" and ?own = "[ot_cache sample_trie, ot_cache empty_trie]"
  have r: "?ready [?peer] (?own, [ot_cache empty_trie])" "?ready [?peer, None] (?own, [ot_cache empty_trie, ot_cache empty_trie])"
    using whole_union_ready by (simp_all add: survey_ready_def union_diff_ready_def)
  have m: "sorted_wrt (<) [replicate 32 (3 :: u8)]" "\<forall>i \<in> set [replicate 32 (3 :: u8)]. map_of (union_records [one_record, []]) i = None"
    unfolding u by (simp_all add: one_record_def)
  note 1 = survey_finds_unavailable[OF r(1) m, of "Sorted_ids []"] and 2 = survey_finds_unavailable[OF r(2) m, of "Sorted_ids []"]
  have "\<exists>survey. sample_survey [?peer] = Inr survey \<and> is_unavailable survey (replicate 32 3)"
    using 1 by (force simp: sample_survey_def held_by_some_def)
  moreover have "\<exists>survey. sample_survey [?peer, None] = Inr survey \<and> is_unknown survey (replicate 32 3)"
    using 2 by (force simp: sample_survey_def held_by_some_def)
  ultimately show ?thesis by blast
qed

end
