(* ===== verification/Horizon.thy ===== *)
theory Horizon
  imports Trie_Diff Id_Lookup Retention_State
begin

text \<open>
  The two reachability horizons (\<^verbatim>\<open>src/contract/horizon.hpp\<close>, \<^verbatim>\<open>src/contract/horizon.cpp\<close>) and the gates that read
  them (\<^verbatim>\<open>src/contract/gates.cpp\<close>). What a head refers to is, for each class, a frozen view of a trie and
  a small sorted list of others; the theory shows that the pair is read as the union of the two: its
  pages, its size, its members and what none of some tries hold of it.
\<close>

section \<open>Referenced sets\<close>

record RefSet =
  rf_view :: "Snapshot option"
  rf_others :: "ObjectId list"
  rf_size :: nat

record ReferencedSets =
  rs_of_data :: RefSet
  rs_of_control :: RefSet

definition sorted_unique_ids :: "ObjectId list \<Rightarrow> ObjectId list" where
  "sorted_unique_ids ids = remdups_adj (sort ids)"

definition snapshot_size :: "Snapshot \<Rightarrow> u64" where
  "snapshot_size s = ch_count (sn_root s)"

text \<open>The state of an operation on one class is the node cache of its view.\<close>

definition make_set :: "Snapshot option \<Rightarrow> ObjectId list \<Rightarrow> (Node NodeCache, RefSet) prog" where
  "make_set view others =
     (let ids = sorted_unique_ids others in
      bindM (case view of None \<Rightarrow> retM (length ids)
             | Some v \<Rightarrow> bindM (foldM (\<lambda>n i. bindM (snapshot_get v i) (\<lambda>value. retM (if value \<noteq> None then n - 1 else n))) (length ids) ids)
                 (\<lambda>n. retM (n + unat (snapshot_size v)))) (\<lambda>n.
      retM \<lparr>rf_view = view, rf_others = ids, rf_size = n\<rparr>))"

definition sets_of :: "RetentionClass \<Rightarrow> ReferencedSets \<Rightarrow> RefSet" where
  "sets_of type sets = (case type of Class_data \<Rightarrow> rs_of_data sets | Class_control \<Rightarrow> rs_of_control sets)"

text \<open>The caches of both views, and an operation on the class's own.\<close>

type_synonym view_caches = "Node NodeCache \<times> Node NodeCache"

definition on_class :: "RetentionClass \<Rightarrow> (Node NodeCache, 'a) prog \<Rightarrow> (view_caches, 'a) prog" where
  "on_class type m = (case type of Class_data \<Rightarrow> on_fst m | Class_control \<Rightarrow> on_snd m)"

definition ReferencedSets_new :: "Snapshot option \<Rightarrow> Snapshot option \<Rightarrow> ObjectId list \<Rightarrow> ObjectId list \<Rightarrow> (view_caches, ReferencedSets) prog" where
  "ReferencedSets_new data_view control_view data control =
     bindM (on_fst (make_set data_view data)) (\<lambda>d.
     bindM (on_snd (make_set control_view control)) (\<lambda>c.
     retM \<lparr>rs_of_data = d, rs_of_control = c\<rparr>))"

definition ReferencedSets_plain :: "ObjectId list \<Rightarrow> ObjectId list \<Rightarrow> (view_caches, ReferencedSets) prog" where
  "ReferencedSets_plain data control = ReferencedSets_new None None data control"

definition set_referenced :: "RefSet \<Rightarrow> ObjectId \<Rightarrow> (Node NodeCache, bool) prog" where
  "set_referenced s i =
     (if binary_search i (rf_others s) then retM True
      else case rf_view s of None \<Rightarrow> retM False
           | Some v \<Rightarrow> bindM (snapshot_get v i) (\<lambda>value. retM (value \<noteq> None)))"

definition referenced :: "RetentionClass \<Rightarrow> ReferencedSets \<Rightarrow> ObjectId \<Rightarrow> (view_caches, bool) prog" where
  "referenced type sets i = on_class type (set_referenced (sets_of type sets) i)"

text \<open>As a lookup. Reading through the caches changes only them, so a test answers from the caches given.\<close>

definition sets_lookup :: "RetentionClass \<Rightarrow> ReferencedSets \<Rightarrow> view_caches \<Rightarrow> IdLookup" where
  "sets_lookup type sets caches =
     (if rf_view (sets_of type sets) = None then Sorted_ids (rf_others (sets_of type sets))
      else Id_test (\<lambda>i. fst (referenced type sets i caches) = Inr True))"

definition set_next :: "RefSet \<Rightarrow> ObjectId option \<Rightarrow> nat \<Rightarrow> (Node NodeCache, ObjectId list) prog" where
  "set_next s after limit =
     bindM (case rf_view s of None \<Rightarrow> retM []
            | Some v \<Rightarrow> bindM (snapshot_next v after limit) (\<lambda>records. retM (map fst records))) (\<lambda>viewed.
     let bounded = (length viewed = limit);
         others = rf_others s;
         rest = drop (case after of None \<Rightarrow> 0 | Some a \<Rightarrow> upper_bound a others) others
     in if bounded \<and> viewed = [] then raiseM UndefinedBehaviour
        else let upto = (if bounded then upper_bound (last viewed) rest else length rest);
                 upto = (if upto > limit then limit else upto)
             in retM (take limit (set_union viewed (take upto rest))))"

definition sets_next :: "RetentionClass \<Rightarrow> ReferencedSets \<Rightarrow> ObjectId option \<Rightarrow> nat \<Rightarrow> (view_caches, ObjectId list) prog" where
  "sets_next type sets after limit = on_class type (set_next (sets_of type sets) after limit)"

definition all_page :: nat where "all_page = 4096"

fun all_loop :: "nat \<Rightarrow> RefSet \<Rightarrow> ObjectId option \<Rightarrow> ObjectId list \<Rightarrow> (Node NodeCache, ObjectId list) prog" where
  "all_loop 0 s after out = raiseM OutOfFuel"
| "all_loop (Suc fuel) s after out =
     bindM (set_next s after all_page) (\<lambda>page.
     if length page < all_page then retM (out @ page) else all_loop fuel s (Some (last page)) (out @ page))"

text \<open>Each turn but the last passes a page.\<close>

definition sets_all :: "RetentionClass \<Rightarrow> ReferencedSets \<Rightarrow> (view_caches, ObjectId list) prog" where
  "sets_all type sets = (let s = sets_of type sets in on_class type (all_loop (rf_size s div all_page + 1) s None []))"

definition sets_size :: "RetentionClass \<Rightarrow> ReferencedSets \<Rightarrow> nat" where
  "sets_size type sets = rf_size (sets_of type sets)"

text \<open>The ids none of the held tries hold; the state is the view's cache and one for each held trie.\<close>

definition held_at :: "nat \<Rightarrow> (Node NodeCache, 'a) prog \<Rightarrow> (Node NodeCache list, 'a) prog" where
  "held_at j m = zoomM (\<lambda>cs. cs ! j) (\<lambda>c cs. cs[j := c]) m"

fun held_by_any :: "(nat \<times> Snapshot) list \<Rightarrow> ObjectId \<Rightarrow> (Node NodeCache list, bool) prog" where
  "held_by_any [] i = retM False"
| "held_by_any (p # parts) i = bindM (held_at (fst p) (snapshot_get (snd p) i)) (\<lambda>value.
     if value \<noteq> None then retM True else held_by_any parts i)"

type_synonym join_caches = "Node NodeCache \<times> Node NodeCache list"

definition not_held_others :: "(join_caches, unit) prog \<Rightarrow> (nat \<times> Snapshot) list \<Rightarrow> ObjectId list \<Rightarrow>
    (join_caches, ObjectId list \<times> nat) prog" where
  "not_held_others pause held ids =
     foldM (\<lambda>(out, seen) i. bindM (on_snd (held_by_any held i)) (\<lambda>any.
       bindM (if (seen + 1) mod 4096 = 0 then pause else retM ()) (\<lambda>_.
       retM (if any then out else out @ [i], seen + 1)))) ([], 0) ids"

definition not_held_fuel :: "Snapshot list \<Rightarrow> nat" where
  "not_held_fuel parts = Suc (foldr max (map (\<lambda>s. unat (snapshot_size s)) parts) 0)"

definition set_not_held :: "(join_caches, unit) prog \<Rightarrow> RefSet \<Rightarrow> Snapshot list \<Rightarrow> (join_caches, ObjectId list) prog" where
  "set_not_held pause s held =
     bindM (case rf_view s of None \<Rightarrow> retM []
            | Some v \<Rightarrow> bindM (records_not_held (not_held_fuel (v # held)) (\<lambda>after limit. on_fst (snapshot_next v after limit))
                (map (\<lambda>(j, part) after limit. on_snd (held_at j (snapshot_next part after limit))) (enumerate 0 held)) pause)
                (\<lambda>records. retM (map fst records))) (\<lambda>viewed.
     bindM (not_held_others pause (enumerate 0 held) (rf_others s)) (\<lambda>(others, _).
     retM (set_union viewed others)))"

definition sets_not_held :: "(join_caches, unit) prog \<Rightarrow> RetentionClass \<Rightarrow> ReferencedSets \<Rightarrow> Snapshot list \<Rightarrow>
    (join_caches, ObjectId list) prog" where
  "sets_not_held pause type sets held = set_not_held pause (sets_of type sets) held"

section \<open>Horizons\<close>

record GarbageRef =
  gr_id :: ObjectId
  gr_retired_at_ns :: int
  gr_retirement_id :: NodeId

record TombstoneBatch =
  tb_id :: ObjectId
  tb_retired_at_ns :: int
  tb_count :: u32

record InventoryHorizon =
  ih_sets :: ReferencedSets
  ih_generation :: u64
  ih_catalogue_complete :: bool
  ih_garbage :: "GarbageRef list"
  ih_stale_garbage :: "GarbageRef list"
  ih_tombstone_batches :: "TombstoneBatch list"

definition InventoryHorizon_new :: "u64 \<Rightarrow> bool \<Rightarrow> ReferencedSets \<Rightarrow> GarbageRef list \<Rightarrow> TombstoneBatch list \<Rightarrow>
    (view_caches, InventoryHorizon) prog" where
  "InventoryHorizon_new generation complete sets garbage batches =
     bindM (foldM (\<lambda>(fresh, stale) g. bindM (referenced Class_data sets (gr_id g)) (\<lambda>r.
       retM (if r then (fresh, stale @ [g]) else (fresh @ [g], stale)))) ([], []) garbage) (\<lambda>(fresh, stale).
     retM \<lparr>ih_sets = sets, ih_generation = generation, ih_catalogue_complete = complete, ih_garbage = fresh,
       ih_stale_garbage = stale, ih_tombstone_batches = batches\<rparr>)"

definition InventoryHorizon_plain :: "u64 \<Rightarrow> bool \<Rightarrow> ObjectId list \<Rightarrow> ObjectId list \<Rightarrow> GarbageRef list \<Rightarrow>
    (view_caches, InventoryHorizon) prog" where
  "InventoryHorizon_plain generation complete data control garbage =
     bindM (ReferencedSets_plain data control) (\<lambda>sets. InventoryHorizon_new generation complete sets garbage [])"

record ReleaseHorizon =
  rh_sets :: ReferencedSets
  rh_head :: Hash256
  rh_clock :: RetentionClock

definition ReleaseHorizon_new :: "Hash256 \<Rightarrow> RetentionClock \<Rightarrow> ReferencedSets \<Rightarrow> ReleaseHorizon" where
  "ReleaseHorizon_new head clock sets = \<lparr>rh_sets = sets, rh_head = head, rh_clock = clock\<rparr>"

definition ReleaseHorizon_plain :: "Hash256 \<Rightarrow> RetentionClock \<Rightarrow> ObjectId list \<Rightarrow> ObjectId list \<Rightarrow> (view_caches, ReleaseHorizon) prog" where
  "ReleaseHorizon_plain head clock data control =
     bindM (ReferencedSets_plain data control) (\<lambda>sets. retM (ReleaseHorizon_new head clock sets))"

record ReleaseBuild =
  rb_horizon :: "ReleaseHorizon option"
  rb_complete :: bool

section \<open>A view and others as one sorted list\<close>

text \<open>The first of a strictly sorted list are those with few below them.\<close>

lemma take_sorted_card:
  fixes xs :: "'a::linorder list"
  assumes "sorted_wrt (<) xs"
  shows "x \<in> set (take n xs) \<longleftrightarrow> x \<in> set xs \<and> card {y \<in> set xs. y < x} < n"
  using assms
proof (induction xs arbitrary: n)
  case (Cons a xs)
  show ?case
  proof (cases n)
    case (Suc m)
    have above: "\<forall>y \<in> set xs. a < y" using Cons.prems by simp
    show ?thesis
    proof (cases "x = a")
      case True
      then have none: "{y \<in> set (a # xs). y < x} = {}" using above by auto
      show ?thesis unfolding none using True Suc by simp
    next
      case False
      have IH: "x \<in> set (take m xs) \<longleftrightarrow> x \<in> set xs \<and> card {y \<in> set xs. y < x} < m" using Cons by simp
      have "{y \<in> set (a # xs). y < x} = insert a {y \<in> set xs. y < x}" if "x \<in> set xs" using above that by auto
      moreover have "a \<notin> {y \<in> set xs. y < x}" using above by blast
      ultimately have "card {y \<in> set (a # xs). y < x} = Suc (card {y \<in> set xs. y < x})" if "x \<in> set xs"
        using that by simp
      with False Suc IH show ?thesis by auto
    qed
  qed simp
qed simp

lemma strict_sorted_subset:
  fixes xs :: "'a::linorder list"
  assumes "sorted_wrt (<) xs" "sorted_wrt (<) ys" "set xs \<subseteq> set ys"
  shows "xs = filter (\<lambda>y. y \<in> set xs) ys"
proof -
  have "set (filter (\<lambda>y. y \<in> set xs) ys) = set xs" using assms(3) by auto
  then show ?thesis using assms(1) sorted_wrt_filter[OF assms(2), of "\<lambda>y. y \<in> set xs"]
    by (metis sorted_distinct_set_unique strict_sorted_iff)
qed

lemma take_of_part:
  fixes xs :: "'a::linorder list"
  assumes "sorted_wrt (<) xs" "sorted_wrt (<) ys" "set xs \<subseteq> set ys" "set (take n ys) \<subseteq> set xs"
  shows "take n xs = take n ys"
proof -
  let ?f = "filter (\<lambda>y. y \<in> set xs)"
  have "xs = ?f (take n ys) @ ?f (drop n ys)"
    using strict_sorted_subset[OF assms(1-3)] by (metis append_take_drop_id filter_append)
  moreover have "?f (take n ys) = take n ys" using assms(4) by (auto simp: filter_id_conv)
  ultimately have xs: "xs = take n ys @ ?f (drop n ys)" by simp
  show ?thesis
  proof (cases "n \<le> length ys")
    case True
    then have "take n (take n ys @ ?f (drop n ys)) = take n ys" by simp
    with xs show ?thesis by metis
  next
    case False
    with xs show ?thesis by simp
  qed
qed

text \<open>The first of a union need only the first of both, and no more of one than the last of a full page of the other.\<close>

lemma take_set_union:
  fixes vs os :: "'a::linorder list"
  assumes "sorted_wrt (<) vs" "sorted_wrt (<) os" "length (take n vs) = n \<longrightarrow> vs \<noteq> [] \<and> 0 < n"
  shows "take n (set_union (take n vs)
      (take (let upto = (if length (take n vs) = n then upper_bound (last (take n vs)) os else length os) in
        if upto > n then n else upto) os)) =
    take n (set_union vs os)"
proof -
  have least: "(if m > n then n else m) = min m n" for m by simp
  let ?upto = "if length (take n vs) = n then upper_bound (last (take n vs)) os else length os"
  let ?os = "take (min ?upto n) os"
  have srt: "sorted_wrt (<) (take n vs)" "sorted_wrt (<) ?os" using assms(1,2) by (simp_all add: sorted_wrt_take)
  note u = set_union_sorted[OF assms(1,2)] and p = set_union_sorted[OF srt]
  have "x \<in> set (take n vs) \<union> set ?os" if x: "x \<in> set (take n (set_union vs os))" for x
  proof -
    have few: "card {y \<in> set vs \<union> set os. y < x} < n" and xin: "x \<in> set vs \<union> set os"
      using take_sorted_card[OF u(1)] x u(2) by auto
    have "card {y \<in> zs. y < x} < n" if "zs \<subseteq> set vs \<union> set os" for zs
      using le_less_trans[OF card_mono[of "{y \<in> set vs \<union> set os. y < x}" "{y \<in> zs. y < x}"] few] that by auto
    then have few': "card {y \<in> set vs. y < x} < n" "card {y \<in> set os. y < x} < n" by blast+
    then have first: "x \<in> set vs \<Longrightarrow> x \<in> set (take n vs)" "x \<in> set os \<Longrightarrow> x \<in> set (take n os)"
      using take_sorted_card[OF assms(1)] take_sorted_card[OF assms(2)] by auto
    show ?thesis
    proof (cases "x \<in> set vs")
      case False
      then have os: "x \<in> set os" "x \<in> set (take n os)" using xin first by auto
      show ?thesis
      proof (cases "length (take n vs) = n")
        case True
        let ?l = "last (take n vs)"
        have ne: "take n vs \<noteq> []" using assms(3) True by auto
        have "x \<le> ?l"
        proof (rule ccontr)
          assume "\<not> x \<le> ?l"
          moreover have "\<forall>y \<in> set (take n vs). y \<le> ?l"
            using strict_sorted_sorted[OF srt(1)] ne by (cases "take n vs" rule: rev_cases) (auto simp: sorted_append)
          ultimately have "set (take n vs) \<subseteq> {y \<in> set vs. y < x}" by (auto dest: in_set_takeD)
          then have "card (set (take n vs)) \<le> card {y \<in> set vs. y < x}" by (simp add: card_mono)
          moreover have "card (set (take n vs)) = n" using srt(1) True by (metis distinct_card strict_sorted_iff)
          ultimately show False using few'(1) by simp
        qed
        then have "x \<in> set (take (upper_bound ?l os) os)"
          using drop_upper_bound(2)[OF strict_sorted_sorted[OF assms(2)]] os by simp
        with os True show ?thesis by (auto simp: min_def)
      next
        case False
        have "x \<in> set (take (min (length os) n) os)" using os by (simp add: min_def)
        moreover have "?upto = length os" using False by (rule if_not_P)
        ultimately show ?thesis by simp
      qed
    qed (use first in simp)
  qed
  then have "set (take n (set_union vs os)) \<subseteq> set (set_union (take n vs) ?os)" using p(2) by blast
  moreover have "set (set_union (take n vs) ?os) \<subseteq> set (set_union vs os)" using p(2) u(2) by (auto dest: in_set_takeD)
  ultimately show ?thesis unfolding Let_def least by (intro take_of_part[OF p(1) u(1)])
qed

text \<open>A set whose view holds the records \<open>rs\<close>, and its ids.\<close>

definition ref_holds :: "node_files \<Rightarrow> RefSet \<Rightarrow> Record list \<Rightarrow> Node NodeCache \<Rightarrow> bool" where
  "ref_holds F s rs cache \<longleftrightarrow>
     (case rf_view s of None \<Rightarrow> rs = [] | Some v \<Rightarrow> snapshot_reading F v cache \<and> snapshot_holds F v rs) \<and>
     sorted_wrt (<) (rf_others s) \<and> (\<forall>i \<in> set (rf_others s). id_ok i)"

definition ref_ids :: "RefSet \<Rightarrow> Record list \<Rightarrow> ObjectId list" where
  "ref_ids s rs = set_union (map fst rs) (rf_others s)"

lemma ref_holds_records:
  assumes "ref_holds F s rs cache"
  shows "records_ok rs"
proof (cases "rf_view s")
  case (Some v)
  with assms snapshot_holds_ledger[of F v rs] segment_okD(1) show ?thesis by (auto simp: ref_holds_def)
qed (use assms in \<open>simp add: ref_holds_def records_ok_def\<close>)

lemma ref_ids_sorted:
  assumes "ref_holds F s rs cache"
  shows "sorted_wrt (<) (ref_ids s rs)" "set (ref_ids s rs) = fst ` set rs \<union> set (rf_others s)"
    "i \<in> set (ref_ids s rs) \<Longrightarrow> id_ok i"
proof -
  have r: "records_ok rs" by (rule ref_holds_records[OF assms])
  have "sorted_wrt (<) (map fst rs)" "sorted_wrt (<) (rf_others s)" using r assms by (simp_all add: records_ok_def ref_holds_def)
  from set_union_sorted[OF this] show u: "sorted_wrt (<) (ref_ids s rs)" "set (ref_ids s rs) = fst ` set rs \<union> set (rf_others s)"
    by (simp_all add: ref_ids_def)
  show "i \<in> set (ref_ids s rs) \<Longrightarrow> id_ok i"
    using r assms unfolding u(2) by (auto simp: records_ok_def list_all_iff record_ok_def ref_holds_def)
qed

lemma set_referenced_holds:
  assumes "ref_holds F s rs cache"
  shows "\<exists>cache'. set_referenced s i cache = (Inr (i \<in> set (ref_ids s rs)), cache') \<and> ref_holds F s rs cache'"
proof -
  have srt: "sorted (rf_others s)" using assms by (simp add: ref_holds_def strict_sorted_sorted)
  note ids = ref_ids_sorted(2)[OF assms]
  show ?thesis
  proof (cases "i \<in> set (rf_others s)")
    case True
    then show ?thesis using assms binary_search_sorted[OF srt, of i] by (simp add: set_referenced_def ids)
  next
    case other: False
    show ?thesis
    proof (cases "rf_view s")
      case None
      then have "rs = []" using assms by (simp add: ref_holds_def)
      then have "i \<notin> set (ref_ids s rs)" using other ids by simp
      then show ?thesis using assms other None binary_search_sorted[OF srt, of i] by (simp add: set_referenced_def)
    next
      case (Some v)
      obtain cache' where "snapshot_get v i cache = (Inr (map_of rs i), cache')" "snapshot_reading F v cache'"
        using snapshot_get_holds[of F v cache rs i] assms Some by (auto simp: ref_holds_def)
      moreover have "map_of rs i \<noteq> None \<longleftrightarrow> i \<in> fst ` set rs" by (simp add: map_of_eq_None_iff)
      ultimately show ?thesis
        using assms other Some binary_search_sorted[OF srt, of i] by (simp add: set_referenced_def ids ref_holds_def bindM_def)
    qed
  qed
qed

definition past :: "ObjectId option \<Rightarrow> ObjectId \<Rightarrow> bool" where
  "past after i \<longleftrightarrow> (case after of None \<Rightarrow> True | Some a \<Rightarrow> a < i)"

lemma past_simps: "past None = (\<lambda>_. True)" "past (Some a) = (\<lambda>i. a < i)"
  by (simp_all add: past_def fun_eq_iff)

lemma filter_set_union:
  assumes "sorted_wrt (<) xs" "sorted_wrt (<) ys"
  shows "filter P (set_union xs ys) = set_union (filter P xs) (filter P ys)"
proof -
  note u = set_union_sorted[OF assms] and f = set_union_sorted[OF sorted_wrt_filter[OF assms(1)] sorted_wrt_filter[OF assms(2)], of P P]
  have "set (filter P (set_union xs ys)) = set (set_union (filter P xs) (filter P ys))" using u(2) f(2) by auto
  then show ?thesis using sorted_wrt_filter[OF u(1), of P] f(1) by (metis sorted_distinct_set_unique strict_sorted_iff)
qed

lemma set_next_holds:
  assumes "ref_holds F s rs cache" "0 < limit" "\<And>a. after = Some a \<Longrightarrow> length a = 32"
  shows "\<exists>cache'. set_next s after limit cache = (Inr (take limit (filter (past after) (ref_ids s rs))), cache') \<and> ref_holds F s rs cache'"
proof -
  let ?vs = "filter (past after) (map fst rs)" and ?os = "filter (past after) (rf_others s)"
  have srt: "sorted_wrt (<) (map fst rs)" "sorted_wrt (<) (rf_others s)"
    using ref_holds_records[OF assms(1)] assms(1) by (simp_all add: records_ok_def ref_holds_def)
  have rest: "drop (case after of None \<Rightarrow> 0 | Some a \<Rightarrow> upper_bound a (rf_others s)) (rf_others s) = ?os"
    using drop_upper_bound(1)[OF strict_sorted_sorted[OF srt(2)]] by (cases after) (simp_all add: past_simps)
  have "\<exists>cache'. (case rf_view s of None \<Rightarrow> retM []
      | Some v \<Rightarrow> bindM (snapshot_next v after limit) (\<lambda>records. retM (map fst records))) cache = (Inr (take limit ?vs), cache') \<and>
      ref_holds F s rs cache'"
  proof (cases "rf_view s")
    case None
    then show ?thesis using assms(1) by (auto simp: ref_holds_def)
  next
    case (Some v)
    obtain cache' where c: "snapshot_next v after limit cache = (Inr (take limit (wanted after (after \<noteq> None) rs)), cache')"
      "snapshot_reading F v cache'" using snapshot_next_holds[of F v cache rs after limit] assms Some by (auto simp: ref_holds_def)
    have "map fst (wanted after (after \<noteq> None) rs) = ?vs"
      by (cases after) (simp_all add: wanted_def past_simps filter_map comp_def)
    with c Some assms(1) show ?thesis by (auto simp: bindM_def ref_holds_def simp flip: take_map)
  qed
  then obtain cache' where c: "(case rf_view s of None \<Rightarrow> retM []
      | Some v \<Rightarrow> bindM (snapshot_next v after limit) (\<lambda>records. retM (map fst records))) cache = (Inr (take limit ?vs), cache')"
    "ref_holds F s rs cache'" by blast
  have cond: "length (take limit ?vs) = limit \<longrightarrow> ?vs \<noteq> [] \<and> 0 < limit"
    using assms(2) by (cases ?vs) simp_all
  have "take limit (set_union (take limit ?vs)
      (take (let upto = (if length (take limit ?vs) = limit then upper_bound (last (take limit ?vs)) ?os else length ?os) in
        if upto > limit then limit else upto) ?os)) =
      take limit (filter (past after) (ref_ids s rs))"
    unfolding take_set_union[OF sorted_wrt_filter[OF srt(1)] sorted_wrt_filter[OF srt(2)] cond] ref_ids_def filter_set_union[OF srt] ..
  moreover have "\<not> (length (take limit ?vs) = limit \<and> take limit ?vs = [])" using assms(2) by (cases "take limit ?vs") simp_all
  ultimately show ?thesis
    using c unfolding set_next_def bindM_def rest Let_def by simp
qed

lemma past_last:
  assumes "sorted_wrt (<) ids" "filter (past after) ids = page @ rest" "page \<noteq> []"
  shows "filter (past (Some (last page))) ids = rest"
proof -
  have "last page \<in> set (filter (past after) ids)" unfolding assms(2) using assms(3) by simp
  then have l: "past after (last page)" by simp
  then have "filter (past (Some (last page))) ids = filter (past (Some (last page))) (filter (past after) ids)"
    by (cases after) (auto simp: past_simps intro!: filter_cong)
  also have "\<dots> = filter (past (Some (last page))) page @ filter (past (Some (last page))) rest" unfolding assms(2) by simp
  also have "\<dots> = rest"
  proof -
    have s: "sorted_wrt (<) (page @ rest)" using sorted_wrt_filter[OF assms(1), of "past after"] assms(2) by simp
    have "\<forall>x \<in> set page. \<not> last page < x" using s assms(3) by (cases page rule: rev_cases) (auto simp: sorted_wrt_append)
    moreover have "\<forall>x \<in> set rest. last page < x" using s assms(3) by (auto simp: sorted_wrt_append)
    ultimately show ?thesis by (simp add: past_simps filter_empty_conv filter_id_conv)
  qed
  finally show ?thesis .
qed

lemma all_loop_holds:
  assumes "ref_holds F s rs cache" "length (filter (past after) (ref_ids s rs)) div all_page < fuel"
    "\<And>a. after = Some a \<Longrightarrow> length a = 32"
  shows "\<exists>cache'. all_loop fuel s after out cache = (Inr (out @ filter (past after) (ref_ids s rs)), cache') \<and> ref_holds F s rs cache'"
  using assms
proof (induction fuel arbitrary: after out cache)
  case (Suc fuel)
  let ?w = "filter (past after) (ref_ids s rs)"
  let ?page = "take all_page ?w"
  obtain cache' where c: "set_next s after all_page cache = (Inr ?page, cache')" "ref_holds F s rs cache'"
    using set_next_holds[OF Suc.prems(1), of all_page after] Suc.prems(3) by (auto simp: all_page_def)
  show ?case
  proof (cases "length ?page < all_page")
    case True
    then have "?page = ?w" by simp
    with c True show ?thesis by (simp add: bindM_def)
  next
    case False
    then have len: "all_page \<le> length ?w" by simp
    then have ne: "?page \<noteq> []" by (auto simp: all_page_def)
    have rest: "filter (past (Some (last ?page))) (ref_ids s rs) = drop all_page ?w"
      by (rule past_last[OF ref_ids_sorted(1)[OF Suc.prems(1)] _ ne]) simp
    have "last ?page \<in> set (ref_ids s rs)" using last_in_set[OF ne] by (meson filter_is_subset in_set_takeD subsetD)
    then have ok: "length (last ?page) = 32" using ref_ids_sorted(3)[OF Suc.prems(1)] by (simp add: id_ok_def)
    have "length (drop all_page ?w) div all_page < fuel" using Suc.prems(2) len by (simp add: all_page_def)
    then have "\<exists>cache''. all_loop fuel s (Some (last ?page)) (out @ ?page) cache' =
        (Inr ((out @ ?page) @ filter (past (Some (last ?page))) (ref_ids s rs)), cache'') \<and> ref_holds F s rs cache''"
      by (intro Suc.IH[OF c(2)]) (use rest ok in simp_all)
    then show ?thesis using c(1) False rest by (simp add: bindM_def)
  qed
qed simp

lemma snapshot_size_holds:
  assumes "snapshot_holds F v rs"
  shows "unat (snapshot_size v) = length rs"
proof -
  have "ch_count (sn_root v) = of_nat (length rs)"
    using holds_summary(1)[OF assms[unfolded snapshot_holds_def]] by (simp add: child_summary_def trie_summary_def)
  moreover have "length rs < 2 ^ 64" using segment_okD(3)[OF snapshot_holds_ledger[OF assms]] .
  ultimately show ?thesis by (simp add: snapshot_size_def unat_of_nat take_bit_nat_eq_self)
qed

lemma count_others:
  assumes "snapshot_reading F v cache" "snapshot_holds F v rs"
  shows "\<exists>cache'. foldM (\<lambda>n i. bindM (snapshot_get v i) (\<lambda>value. retM (if value \<noteq> None then n - 1 else n))) n ids cache =
    (Inr (n - length (filter (\<lambda>i. i \<in> fst ` set rs) ids)), cache') \<and> snapshot_reading F v cache'"
  using assms(1)
proof (induction ids arbitrary: n cache)
  case (Cons i ids)
  obtain cache' where c: "snapshot_get v i cache = (Inr (map_of rs i), cache')" "snapshot_reading F v cache'"
    using snapshot_get_holds[OF Cons.prems assms(2)] by blast
  let ?f = "\<lambda>n i. bindM (snapshot_get v i) (\<lambda>value. retM (if value \<noteq> None then n - 1 else n :: nat))"
  have "map_of rs i \<noteq> None \<longleftrightarrow> i \<in> fst ` set rs" by (simp add: map_of_eq_None_iff)
  then have "?f n i cache = (Inr (if i \<in> fst ` set rs then n - 1 else n), cache')" using c(1) by (simp add: bindM_def)
  then have step: "foldM ?f n (i # ids) cache = foldM ?f (if i \<in> fst ` set rs then n - 1 else n) ids cache'"
    by (simp only: foldM.simps bindM_Inr)
  have "(if i \<in> fst ` set rs then n - 1 else n) - length (filter (\<lambda>i. i \<in> fst ` set rs) ids) =
      n - length (filter (\<lambda>i. i \<in> fst ` set rs) (i # ids))" by simp
  with Cons.IH[OF c(2), of "if i \<in> fst ` set rs then n - 1 else n"] show ?case unfolding step by metis
qed simp

lemma length_set_union:
  assumes "sorted_wrt (<) xs" "sorted_wrt (<) ys"
  shows "length (set_union xs ys) = length ys - length (filter (\<lambda>y. y \<in> set xs) ys) + length xs"
proof -
  have d: "distinct xs" "distinct ys" "distinct (set_union xs ys)" using assms set_union_sorted(1)[OF assms] by (simp_all add: strict_sorted_iff)
  have "length (set_union xs ys) = card (set xs \<union> set ys)" using distinct_card[OF d(3)] set_union_sorted(2)[OF assms] by simp
  also have "\<dots> = card (set xs) + card (set ys - set xs)" by (metis Diff_disjoint Un_Diff_cancel card_Un_disjoint finite_Diff finite_set)
  also have "card (set ys - set xs) = card (set ys) - card (set ys \<inter> set xs)" by (simp add: card_Diff_subset_Int)
  also have "card (set ys \<inter> set xs) = length (filter (\<lambda>y. y \<in> set xs) ys)"
    using distinct_card[OF distinct_filter[OF d(2), of "\<lambda>y. y \<in> set xs"]] by (simp add: Int_def)
  finally show ?thesis using distinct_card[OF d(1)] distinct_card[OF d(2)] by simp
qed

lemma make_set_holds:
  assumes "case view of None \<Rightarrow> rs = [] | Some v \<Rightarrow> snapshot_reading F v cache \<and> snapshot_holds F v rs" "\<forall>i \<in> set others. id_ok i"
  shows "\<exists>s cache'. make_set view others cache = (Inr s, cache') \<and> ref_holds F s rs cache' \<and>
    set (ref_ids s rs) = fst ` set rs \<union> set others \<and> rf_size s = length (ref_ids s rs)"
proof -
  let ?ids = "sorted_unique_ids others"
  have ids: "sorted_wrt (<) ?ids" "set ?ids = set others" by (simp_all add: sorted_unique_ids_def strict_remdups_adj)
  show ?thesis
  proof (cases view)
    case None
    let ?s = "\<lparr>rf_view = None, rf_others = ?ids, rf_size = length ?ids\<rparr>"
    have "rs = []" using assms(1) None by simp
    then show ?thesis using None ids assms(2)
      by (intro exI[of _ ?s] exI[of _ cache]) (simp add: make_set_def ref_holds_def ref_ids_def bindM_def Let_def)
  next
    case (Some v)
    then have v: "snapshot_reading F v cache" "snapshot_holds F v rs" using assms(1) by simp_all
    have ok: "sorted_wrt (<) (map fst rs)"
      using segment_okD(1)[OF snapshot_holds_ledger[OF v(2)]] by (simp add: records_ok_def)
    let ?n = "length ?ids - length (filter (\<lambda>i. i \<in> fst ` set rs) ?ids)"
    obtain cache' where c: "foldM (\<lambda>n i. bindM (snapshot_get v i) (\<lambda>value. retM (if value \<noteq> None then n - 1 else n))) (length ?ids) ?ids cache =
        (Inr ?n, cache')" "snapshot_reading F v cache'" using count_others[OF v] by blast
    let ?s = "\<lparr>rf_view = Some v, rf_others = ?ids, rf_size = ?n + length rs\<rparr>"
    have "make_set view others cache = (Inr ?s, cache')"
      using c(1) Some snapshot_size_holds[OF v(2)] by (simp add: make_set_def Let_def bindM_def)
    moreover have "ref_holds F ?s rs cache'" using c(2) v(2) ids assms(2) by (simp add: ref_holds_def)
    moreover have "length (ref_ids ?s rs) = ?n + length rs" using length_set_union[OF ok ids(1)] by (simp add: ref_ids_def)
    moreover have "set (ref_ids ?s rs) = fst ` set rs \<union> set others" using set_union_sorted(2)[OF ok ids(1)] ids(2) by (simp add: ref_ids_def)
    ultimately show ?thesis by (intro exI[of _ ?s] exI[of _ cache']) simp
  qed
qed

section \<open>What none of some tries hold\<close>

lemma record_pager_fst:
  assumes "record_pager P pager rs"
  shows "record_pager (\<lambda>st. P (fst st) \<and> Q (snd st)) (\<lambda>after limit. on_fst (pager after limit)) rs"
proof
  fix st :: "'a \<times> 'b" and after :: "ObjectId option" and limit assume g: "P (fst st) \<and> Q (snd st)"
  show "records_ok rs" using record_pager.pager_records[OF assms] g by blast
  assume a: "\<And>a. after = Some a \<Longrightarrow> length a = 32"
  have "\<exists>s'. pager after limit (fst st) = (Inr (take limit (wanted after (after \<noteq> None) rs)), s') \<and> P s'"
    using record_pager.pager_page[OF assms _ a] g by blast
  from on_fst_reads[where m = "pager after limit" and Q = Q and b = "snd st", OF this] g show "\<exists>st'. on_fst (pager after limit) st =
      (Inr (take limit (wanted after (after \<noteq> None) rs)), st') \<and> P (fst st') \<and> Q (snd st')" by (cases st) simp
qed

lemma record_pager_snd:
  assumes "record_pager Q pager rs"
  shows "record_pager (\<lambda>st. P (fst st) \<and> Q (snd st)) (\<lambda>after limit. on_snd (pager after limit)) rs"
proof
  fix st :: "'b \<times> 'a" and after :: "ObjectId option" and limit assume g: "P (fst st) \<and> Q (snd st)"
  show "records_ok rs" using record_pager.pager_records[OF assms] g by blast
  assume a: "\<And>a. after = Some a \<Longrightarrow> length a = 32"
  have "\<exists>s'. pager after limit (snd st) = (Inr (take limit (wanted after (after \<noteq> None) rs)), s') \<and> Q s'"
    using record_pager.pager_page[OF assms _ a] g by blast
  from on_snd_reads[where m = "pager after limit" and P = P and a = "fst st", OF _ this] g show "\<exists>st'. on_snd (pager after limit) st =
      (Inr (take limit (wanted after (after \<noteq> None) rs)), st') \<and> P (fst st') \<and> Q (snd st')" by (cases st) simp
qed

definition no_part_has :: "(node_files \<times> Snapshot \<times> Record list) list \<Rightarrow> ObjectId \<Rightarrow> bool" where
  "no_part_has tries i \<longleftrightarrow> (\<forall>t \<in> set tries. map_of (snd (snd t)) i = None)"

lemma held_at_get:
  assumes "snapshots_ready tries cs" "j < length tries" "tries ! j = (F, s, rs)"
  shows "\<exists>cs'. held_at j (snapshot_get s i) cs = (Inr (map_of rs i), cs') \<and> snapshots_ready tries cs'"
proof -
  have r: "snapshot_reading F s (cs ! j)" "snapshot_holds F s rs"
    using list_all2_nthD[OF assms(1)[unfolded snapshots_ready_def] assms(2)] assms(3) by simp_all
  obtain c where c: "snapshot_get s i (cs ! j) = (Inr (map_of rs i), c)" "snapshot_reading F s c"
    using snapshot_get_holds[OF r] by blast
  have same: "tries[j := (F, s, rs)] = tries" using assms(3) list_update_id[of tries j] by simp
  have "snapshots_ready tries (cs[j := c])"
    using list_all2_update_cong[of "\<lambda>(F, s, rs) cache. snapshot_reading F s cache \<and> snapshot_holds F s rs"
        tries cs "(F, s, rs)" c j] assms(1) c(2) r(2) same by (simp add: snapshots_ready_def)
  with c(1) show ?thesis by (simp add: held_at_def zoomM_apply)
qed

lemma held_by_any_holds:
  assumes "snapshots_ready tries cs" "\<forall>p \<in> set ps. fst p < length tries \<and> snd p = fst (snd (tries ! fst p))"
  shows "\<exists>cs'. held_by_any ps i cs = (Inr (\<exists>p \<in> set ps. map_of (snd (snd (tries ! fst p))) i \<noteq> None), cs') \<and> snapshots_ready tries cs'"
  using assms
proof (induction ps arbitrary: cs)
  case (Cons p ps)
  obtain F rs where t: "tries ! fst p = (F, snd p, rs)" using Cons.prems(2) by (cases "tries ! fst p") auto
  obtain cs' where c: "held_at (fst p) (snapshot_get (snd p) i) cs = (Inr (map_of rs i), cs')" "snapshots_ready tries cs'"
    using held_at_get[OF Cons.prems(1) _ t] Cons.prems(2) by auto
  show ?case
  proof (cases "map_of rs i = None")
    case True
    then have step: "held_by_any (p # ps) i cs = held_by_any ps i cs'" using c(1) by (simp add: bindM_Inr)
    have rest: "(\<exists>q \<in> set (p # ps). map_of (snd (snd (tries ! fst q))) i \<noteq> None) \<longleftrightarrow>
        (\<exists>q \<in> set ps. map_of (snd (snd (tries ! fst q))) i \<noteq> None)" using True t by simp
    have "\<forall>q \<in> set ps. fst q < length tries \<and> snd q = fst (snd (tries ! fst q))" using Cons.prems(2) by simp
    from Cons.IH[OF c(2) this] show ?thesis unfolding step rest .
  next
    case False
    then have found: "(\<exists>q \<in> set (p # ps). map_of (snd (snd (tries ! fst q))) i \<noteq> None) = True" using t by simp
    have "held_by_any (p # ps) i cs = (Inr True, cs')" using c(1) False by (simp add: bindM_Inr)
    with c(2) show ?thesis unfolding found by blast
  qed
qed simp

lemma enumerate_parts:
  "\<forall>p \<in> set (enumerate 0 (map (\<lambda>t. fst (snd t)) tries)). fst p < length tries \<and> snd p = fst (snd (tries ! fst p))"
  by (auto simp: in_set_enumerate_eq)

lemma parts_have: "(\<exists>p \<in> set (enumerate 0 (map (\<lambda>t. fst (snd t)) tries)). map_of (snd (snd (tries ! fst p))) i \<noteq> None) \<longleftrightarrow> \<not> no_part_has tries i"
proof -
  let ?ps = "enumerate 0 (map (\<lambda>t. fst (snd t)) tries)" and ?P = "\<lambda>j. map_of (snd (snd (tries ! j))) i \<noteq> None"
  have ids: "set (map fst ?ps) = {..<length tries}" unfolding map_fst_enumerate by auto
  have "(\<exists>p \<in> set ?ps. ?P (fst p)) \<longleftrightarrow> (\<exists>j \<in> set (map fst ?ps). ?P j)" unfolding set_map by blast
  also have "\<dots> \<longleftrightarrow> (\<exists>j \<in> {..<length tries}. ?P j)" unfolding ids ..
  also have "\<dots> \<longleftrightarrow> \<not> no_part_has tries i" unfolding no_part_has_def all_set_conv_all_nth by auto
  finally show ?thesis .
qed

text \<open>The state of a join: the view's cache and one for each held trie.\<close>

definition join_ready :: "node_files \<Rightarrow> RefSet \<Rightarrow> Record list \<Rightarrow> (node_files \<times> Snapshot \<times> Record list) list \<Rightarrow> join_caches \<Rightarrow> bool" where
  "join_ready F s rs tries st \<longleftrightarrow> ref_holds F s rs (fst st) \<and> snapshots_ready tries (snd st)"

definition pause_ok :: "('s \<Rightarrow> bool) \<Rightarrow> ('s, unit) prog \<Rightarrow> bool" where
  "pause_ok good pause \<longleftrightarrow> (\<forall>st. good st \<longrightarrow> (\<exists>st'. pause st = (Inr (), st') \<and> good st'))"

lemma not_held_others_holds:
  assumes "join_ready F s rs tries st" "pause_ok (join_ready F s rs tries) pause"
  shows "\<exists>st' n. foldM (\<lambda>(out, seen :: nat) i. bindM (on_snd (held_by_any (enumerate 0 (map (\<lambda>t. fst (snd t)) tries)) i)) (\<lambda>any.
       bindM (if (seen + 1) mod 4096 = 0 then pause else retM ()) (\<lambda>_.
       retM (if any then out else out @ [i], seen + 1)))) (out, seen) ids st =
    (Inr (out @ filter (no_part_has tries) ids, n), st') \<and> join_ready F s rs tries st'"
  using assms(1)
proof (induction ids arbitrary: out seen st)
  case (Cons i ids)
  let ?any = "held_by_any (enumerate 0 (map (\<lambda>t. fst (snd t)) tries)) i"
  obtain cs where cs: "?any (snd st) = (Inr (\<not> no_part_has tries i), cs)" "snapshots_ready tries cs"
    using held_by_any_holds[OF _ enumerate_parts, of tries "snd st" i] Cons.prems unfolding parts_have join_ready_def by blast
  have any: "on_snd ?any st = (Inr (\<not> no_part_has tries i), (fst st, cs))" using cs(1) by (simp add: on_snd_def zoomM_apply)
  have g: "join_ready F s rs tries (fst st, cs)" using Cons.prems cs(2) by (simp add: join_ready_def)
  obtain st1 where p: "(if (seen + 1) mod 4096 = 0 then pause else retM ()) (fst st, cs) = (Inr (), st1)" "join_ready F s rs tries st1"
  proof (cases "(seen + 1) mod 4096 = 0")
    case True
    from assms(2) g obtain st1 where "pause (fst st, cs) = (Inr (), st1)" "join_ready F s rs tries st1" unfolding pause_ok_def by blast
    with True that show thesis by simp
  next
    case False
    with g that show thesis by (auto simp: retM_def)
  qed
  let ?f = "\<lambda>(out, seen :: nat) i. bindM (on_snd (held_by_any (enumerate 0 (map (\<lambda>t. fst (snd t)) tries)) i)) (\<lambda>any.
       bindM (if (seen + 1) mod 4096 = 0 then pause else retM ()) (\<lambda>_. retM (if any then out else out @ [i], seen + 1)))"
  let ?out = "if no_part_has tries i then out @ [i] else out"
  have "?f (out, seen) i st = (Inr (?out, seen + 1), st1)" using p(1) any by (simp add: bindM_Inr)
  then have step: "foldM ?f (out, seen) (i # ids) st = foldM ?f (?out, seen + 1) ids st1" by (simp only: foldM.simps bindM_Inr)
  have "?out @ filter (no_part_has tries) ids = out @ filter (no_part_has tries) (i # ids)" by simp
  with Cons.IH[OF p(2), of ?out "seen + 1"] show ?case unfolding step by metis
qed simp

lemma viewed_not_held:
  assumes "join_ready F s rs tries st" "pause_ok (join_ready F s rs tries) pause"
    "rf_view s = Some v"
  shows "\<exists>st'. records_not_held (not_held_fuel (v # map (\<lambda>t. fst (snd t)) tries)) (\<lambda>after limit. on_fst (snapshot_next v after limit))
      (map (\<lambda>(j, part) after limit. on_snd (held_at j (snapshot_next part after limit))) (enumerate 0 (map (\<lambda>t. fst (snd t)) tries))) pause st =
    (Inr (filter (\<lambda>r. no_part_has tries (fst r)) rs), st') \<and> join_ready F s rs tries st'"
proof -
  let ?cond = "sorted_wrt (<) (rf_others s) \<and> (\<forall>i \<in> set (rf_others s). id_ok i)"
  let ?good = "join_ready F s rs tries" and ?fuel = "not_held_fuel (v # map (\<lambda>t. fst (snd t)) tries)"
  have good: "?good = (\<lambda>st. (snapshot_reading F v (fst st) \<and> snapshot_holds F v rs) \<and> (snapshots_ready tries (snd st) \<and> ?cond))"
    by (auto simp: join_ready_def ref_holds_def assms(3) fun_eq_iff)
  have good2: "?good = (\<lambda>st. (snapshot_reading F v (fst st) \<and> snapshot_holds F v rs \<and> ?cond) \<and> snapshots_ready tries (snd st))"
    by (auto simp: good)
  have w: "record_pager ?good (\<lambda>after limit. on_fst (snapshot_next v after limit)) rs"
    unfolding good by (rule record_pager_fst[OF snapshot_pager.record_pager_axioms])
  let ?held = "map (\<lambda>j. (\<lambda>after limit. on_snd (nth_pager j (fst (snd (tries ! j))) after limit), snd (snd (tries ! j)))) [0..<length tries]"
  have h: "\<forall>h \<in> set ?held. record_pager ?good (fst h) (snd h)"
  proof
    fix h :: "join_caches pager \<times> Record list" assume "h \<in> set ?held"
    then obtain j where j: "j < length tries" "h = (\<lambda>after limit. on_snd (nth_pager j (fst (snd (tries ! j))) after limit), snd (snd (tries ! j)))"
      by auto
    have "record_pager (snapshots_ready tries) (nth_pager j (fst (snd (tries ! j)))) (snd (snd (tries ! j)))"
      using nth_pager_pages[OF j(1), of "fst (tries ! j)"] by simp
    then show "record_pager ?good (fst h) (snd h)" unfolding good2 j(2) fst_conv snd_conv by (rule record_pager_snd)
  qed
  have sizes: "unat (snapshot_size v) = length rs" "\<And>t. t \<in> set tries \<Longrightarrow> unat (snapshot_size (fst (snd t))) = length (snd (snd t))"
    using assms(1) snapshot_size_holds by (auto simp: good snapshots_ready_def list_all2_conv_all_nth in_set_conv_nth)
  have bound: "m \<in> set ms \<Longrightarrow> m \<le> foldr max ms 0" for m :: nat and ms by (induction ms) auto
  have lens: "length rs < ?fuel" "\<forall>h \<in> set ?held. length (snd h) < ?fuel"
    using sizes bound[of _ "map (\<lambda>s. unat (snapshot_size s)) (v # map (\<lambda>t. fst (snd t)) tries)"]
    by (auto simp: not_held_fuel_def less_Suc_eq_le simp del: foldr.simps)
  have pagers: "map (\<lambda>(j, part) after limit. on_snd (held_at j (snapshot_next part after limit))) (enumerate 0 (map (\<lambda>t. fst (snd t)) tries)) = map fst ?held"
    by (rule nth_equalityI) (simp_all add: nth_enumerate_eq nth_pager_def held_at_def fun_eq_iff)
  have un: "unheld (map snd ?held) = (\<lambda>r. no_part_has tries (fst r))"
    by (auto simp: unheld_def no_part_has_def list_ex_iff all_set_conv_all_nth fun_eq_iff)
  show ?thesis unfolding pagers using records_not_held_all[OF assms(1) w h lens, where pause = pause] assms(2) unfolding un pause_ok_def by blast
qed

lemma set_not_held_holds:
  assumes "join_ready F s rs tries st" "pause_ok (join_ready F s rs tries) pause"
  shows "\<exists>st'. set_not_held pause s (map (\<lambda>t. fst (snd t)) tries) st = (Inr (filter (no_part_has tries) (ref_ids s rs)), st') \<and>
    join_ready F s rs tries st'"
proof -
  have r: "ref_holds F s rs (fst st)" using assms(1) by (simp add: join_ready_def)
  have srt: "sorted_wrt (<) (map fst rs)" "sorted_wrt (<) (rf_others s)"
    using ref_holds_records[OF r] r by (simp_all add: records_ok_def ref_holds_def)
  let ?view = "case rf_view s of None \<Rightarrow> retM []
    | Some v \<Rightarrow> bindM (records_not_held (not_held_fuel (v # map (\<lambda>t. fst (snd t)) tries)) (\<lambda>after limit. on_fst (snapshot_next v after limit))
        (map (\<lambda>(j, part) after limit. on_snd (held_at j (snapshot_next part after limit))) (enumerate 0 (map (\<lambda>t. fst (snd t)) tries))) pause)
        (\<lambda>records. retM (map fst records))"
  have "\<exists>st1. ?view st = (Inr (filter (no_part_has tries) (map fst rs)), st1) \<and> join_ready F s rs tries st1"
  proof (cases "rf_view s")
    case None
    then have "rs = []" using r by (simp add: ref_holds_def)
    with None assms(1) show ?thesis by simp
  next
    case (Some v)
    have ids: "map fst (filter (\<lambda>r. no_part_has tries (fst r)) rs) = filter (no_part_has tries) (map fst rs)"
      by (simp add: filter_map comp_def)
    show ?thesis using viewed_not_held[OF assms Some] unfolding Some by (auto simp: bindM_Inr ids)
  qed
  then obtain st1 where v: "?view st = (Inr (filter (no_part_has tries) (map fst rs)), st1)" "join_ready F s rs tries st1" by blast
  obtain st2 n where o: "not_held_others pause (enumerate 0 (map (\<lambda>t. fst (snd t)) tries)) (rf_others s) st1 =
      (Inr (filter (no_part_has tries) (rf_others s), n), st2)" "join_ready F s rs tries st2"
    using not_held_others_holds[OF v(2) assms(2), where out = "[]" and seen = 0 and ids = "rf_others s"] unfolding not_held_others_def by auto
  show ?thesis using v(1) o unfolding set_not_held_def ref_ids_def filter_set_union[OF srt] by (simp add: bindM_Inr)
qed

section \<open>Properties\<close>

text \<open>
  C34: A set of references is read as one sorted list without duplicates, whatever lies in its view and what
  in the list beside it. Made from a view that holds some records and from ids in any order, its size
  is the number of different ids; an id is referenced when it is one of them; every page is the next
  ids in order, as many as asked for or all that are left; and reading it whole gives them all. Nothing
  throws.
\<close>

theorem referenced_set_is_union:
  assumes "case view of None \<Rightarrow> rs = [] | Some v \<Rightarrow> snapshot_reading F v cache \<and> snapshot_holds F v rs" "\<forall>i \<in> set others. id_ok i"
  shows "\<exists>s cache'. make_set view others cache = (Inr s, cache') \<and>
    (let ids = sorted_list_of_set (fst ` set rs \<union> set others) in
     rf_size s = length ids \<and>
     (\<forall>i. fst (set_referenced s i cache') = Inr (i \<in> set ids)) \<and>
     (\<forall>after limit. 0 < limit \<and> (\<forall>a. after = Some a \<longrightarrow> length a = 32) \<longrightarrow>
       fst (set_next s after limit cache') = Inr (take limit (filter (past after) ids))) \<and>
     fst (all_loop (rf_size s div all_page + 1) s None [] cache') = Inr ids)"
proof -
  obtain s cache' where m: "make_set view others cache = (Inr s, cache')" "ref_holds F s rs cache'"
    "set (ref_ids s rs) = fst ` set rs \<union> set others" "rf_size s = length (ref_ids s rs)" using make_set_holds[OF assms] by blast
  have "sorted_list_of_set (set (ref_ids s rs)) = ref_ids s rs"
    using ref_ids_sorted(1)[OF m(2)] by (metis sorted_list_of_set.idem_if_sorted_distinct strict_sorted_iff)
  then have ids: "sorted_list_of_set (fst ` set rs \<union> set others) = ref_ids s rs" unfolding m(3) .
  have "fst (set_referenced s i cache') = Inr (i \<in> set (ref_ids s rs))" for i using set_referenced_holds[OF m(2), of i] by auto
  moreover have "fst (set_next s after limit cache') = Inr (take limit (filter (past after) (ref_ids s rs)))"
    if "0 < limit" "\<forall>a. after = Some a \<longrightarrow> length a = 32" for after limit using set_next_holds[OF m(2) that(1), of after] that(2) by auto
  moreover have "fst (all_loop (rf_size s div all_page + 1) s None [] cache') = Inr (ref_ids s rs)"
    using all_loop_holds[OF m(2), of None "rf_size s div all_page + 1" "[]"] m(4)
    by (auto simp: past_simps simp del: all_loop.simps)
  ultimately show ?thesis using m(1,4) unfolding ids Let_def by blast
qed

theorem referenced_set_is_union_witness:
  "\<exists>s cache'. make_set (Some (trie_snapshot sample_trie)) [replicate 32 7, replicate 32 7] (ot_cache sample_trie) = (Inr s, cache') \<and>
    rf_size s = 1 \<and> fst (set_next s None 5 cache') = Inr [replicate 32 7]"
proof -
  have v: "case Some (trie_snapshot sample_trie) of None \<Rightarrow> one_record = []
      | Some v \<Rightarrow> snapshot_reading sample_files v (ot_cache sample_trie) \<and> snapshot_holds sample_files v one_record"
    using sample_diff_ready by (simp add: diff_ready_def)
  have "fst ` set one_record \<union> set [replicate 32 7, replicate 32 7] = {replicate 32 7 :: ObjectId}" by (simp add: one_record_def)
  moreover have "sorted_list_of_set {replicate 32 7 :: ObjectId} = [replicate 32 7]" by simp
  ultimately have ids: "sorted_list_of_set (fst ` set one_record \<union> set [replicate 32 7, replicate 32 7]) = [replicate 32 7 :: ObjectId]"
    by (simp only:)
  have "\<forall>i \<in> set [replicate 32 7, replicate 32 7]. id_ok i" by (simp add: id_ok_def)
  from referenced_set_is_union[OF v this] obtain s cache' where
    s: "make_set (Some (trie_snapshot sample_trie)) [replicate 32 7, replicate 32 7] (ot_cache sample_trie) = (Inr s, cache')"
    "rf_size s = length [replicate 32 (7 :: u8)]"
    "\<forall>after limit. 0 < limit \<and> (\<forall>a. after = Some a \<longrightarrow> length a = 32) \<longrightarrow>
       fst (set_next s after limit cache') = Inr (take limit (filter (past after) [replicate 32 7]))" unfolding ids Let_def by blast
  from s(3)[rule_format, of 5 None] s(1,2) show ?thesis by (simp add: past_simps)
qed

text \<open>
  C35: What is referenced and held nowhere is found exactly: joining a set of references against any
  number of held tries gives, in order and each once, the ids that none of the tries has, from the
  view and from the list beside it alike. It ends and throws nothing, and pauses without changing
  the answer.
\<close>

theorem not_held_exact:
  assumes "join_ready F (sets_of type sets) rs tries st"
    "pause_ok (join_ready F (sets_of type sets) rs tries) pause"
  shows "fst (sets_not_held pause type sets (map (\<lambda>t. fst (snd t)) tries) st) =
    Inr (sorted_list_of_set {i \<in> fst ` set rs \<union> set (rf_others (sets_of type sets)). no_part_has tries i})"
proof -
  let ?s = "sets_of type sets"
  have r: "ref_holds F ?s rs (fst st)" using assms(1) by (simp add: join_ready_def)
  have "sorted_wrt (<) (filter (no_part_has tries) (ref_ids ?s rs))" by (rule sorted_wrt_filter[OF ref_ids_sorted(1)[OF r]])
  then have "sorted_list_of_set (set (filter (no_part_has tries) (ref_ids ?s rs))) = filter (no_part_has tries) (ref_ids ?s rs)"
    by (metis sorted_list_of_set.idem_if_sorted_distinct strict_sorted_iff)
  moreover have "set (filter (no_part_has tries) (ref_ids ?s rs)) = {i \<in> fst ` set rs \<union> set (rf_others ?s). no_part_has tries i}"
    using ref_ids_sorted(2)[OF r] by auto
  ultimately show ?thesis using set_not_held_holds[OF assms] unfolding sets_not_held_def by auto
qed

definition sample_sets :: ReferencedSets where
  "sample_sets = (let s = \<lparr>rf_view = Some (trie_snapshot sample_trie), rf_others = [replicate 32 3], rf_size = 2\<rparr> in
     \<lparr>rs_of_data = s, rs_of_control = s\<rparr>)"

theorem not_held_exact_witness:
  "fst (sets_not_held (retM ()) Class_data sample_sets [trie_snapshot sample_trie] (ot_cache sample_trie, [ot_cache sample_trie])) =
    Inr [replicate 32 3]"
proof -
  let ?tries = "[(sample_files, trie_snapshot sample_trie, one_record)]"
  have g: "join_ready sample_files (sets_of Class_data sample_sets) one_record ?tries (ot_cache sample_trie, [ot_cache sample_trie])"
    using sample_diff_ready by (simp add: join_ready_def ref_holds_def sets_of_def sample_sets_def Let_def diff_ready_def snapshots_ready_def id_ok_def)
  have "{i \<in> fst ` set one_record \<union> set (rf_others (sets_of Class_data sample_sets)). no_part_has ?tries i} = {replicate 32 3}"
    by (auto simp: one_record_def sets_of_def sample_sets_def Let_def no_part_has_def)
  with not_held_exact[OF g, of "retM ()"] show ?thesis by (simp add: pause_ok_def)
qed

text \<open>Tombstones are collectable only when their object is not referenced as data; both lists keep their order.\<close>

lemma inventory_garbage:
  assumes "ref_holds F (rs_of_data sets) rs (fst caches)"
  shows "\<exists>h caches'. InventoryHorizon_new generation complete sets garbage batches caches = (Inr h, caches') \<and>
    ih_garbage h = filter (\<lambda>g. gr_id g \<notin> set (ref_ids (rs_of_data sets) rs)) garbage \<and>
    ih_stale_garbage h = filter (\<lambda>g. gr_id g \<in> set (ref_ids (rs_of_data sets) rs)) garbage"
proof -
  let ?ref = "\<lambda>g. gr_id g \<in> set (ref_ids (rs_of_data sets) rs)"
  let ?f = "\<lambda>(fresh, stale) g. bindM (referenced Class_data sets (gr_id g)) (\<lambda>r. retM (if r then (fresh, stale @ [g]) else (fresh @ [g], stale)))"
  have "\<exists>caches'. foldM ?f (a, b) garbage caches =
      (Inr (a @ filter (\<lambda>g. \<not> ?ref g) garbage, b @ filter ?ref garbage), caches')" for a b
    using assms
  proof (induction garbage arbitrary: caches a b)
    case (Cons g garbage)
    obtain c where c: "set_referenced (rs_of_data sets) (gr_id g) (fst caches) = (Inr (?ref g), c)" "ref_holds F (rs_of_data sets) rs c"
      using set_referenced_holds[OF Cons.prems] by blast
    have "?f (a, b) g caches = (Inr (if ?ref g then (a, b @ [g]) else (a @ [g], b)), (c, snd caches))"
      using c(1) by (simp add: referenced_def on_class_def sets_of_def on_fst_def zoomM_apply bindM_def)
    then have step: "foldM ?f (a, b) (g # garbage) caches = foldM ?f (if ?ref g then (a, b @ [g]) else (a @ [g], b)) garbage (c, snd caches)"
      by (simp only: foldM.simps bindM_Inr)
    have good: "ref_holds F (rs_of_data sets) rs (fst (c, snd caches))" using c(2) by simp
    show ?case
    proof (cases "?ref g")
      case True
      then have "a @ filter (\<lambda>g. \<not> ?ref g) (g # garbage) = a @ filter (\<lambda>g. \<not> ?ref g) garbage"
        "b @ filter ?ref (g # garbage) = (b @ [g]) @ filter ?ref garbage" by simp_all
      with Cons.IH[OF good, of a "b @ [g]"] True show ?thesis unfolding step by (simp only: if_True)
    next
      case False
      then have "a @ filter (\<lambda>g. \<not> ?ref g) (g # garbage) = (a @ [g]) @ filter (\<lambda>g. \<not> ?ref g) garbage"
        "b @ filter ?ref (g # garbage) = b @ filter ?ref garbage" by simp_all
      with Cons.IH[OF good, of "a @ [g]" b] False show ?thesis unfolding step by (simp only: if_False)
    qed
  qed simp
  from this[of "[]" "[]"] show ?thesis by (auto simp: InventoryHorizon_new_def bindM_Inr)
qed

end
