(* ===== verification/Gates.thy ===== *)
theory Gates
  imports Horizon
begin

text \<open>
  The three destructive gates of the maintenance pass (\<^verbatim>\<open>src/contract/gates.hpp\<close>,
  \<^verbatim>\<open>src/contract/gates.cpp\<close>): whether tombstone collection, control release and the DATA sweep may
  proceed, why not, and the conditions read. The inventory is none before the first is published.
\<close>

record PassFacts =
  pf_garbage_due :: bool
  pf_gc_due :: bool
  pf_busy :: bool
  pf_gc_waiting_for_event :: bool
  pf_rebuilt_inventory :: bool
  pf_release_view :: bool
  pf_known_generation :: u64

record GateVerdict =
  gv_permitted :: bool
  gv_reason :: string
  gv_conditions :: string

definition flag :: "string \<Rightarrow> bool \<Rightarrow> string" where
  "flag name value = name @ (if value then ''=1'' else ''=0'')"

definition catalogue_complete :: "InventoryHorizon option \<Rightarrow> bool" where
  "catalogue_complete inventory = (case inventory of None \<Rightarrow> True | Some h \<Rightarrow> ih_catalogue_complete h)"

definition generation_current :: "PassFacts \<Rightarrow> InventoryHorizon option \<Rightarrow> bool" where
  "generation_current facts inventory =
     ((case inventory of None \<Rightarrow> 0 | Some h \<Rightarrow> ih_generation h) \<ge> pf_known_generation facts)"

definition not_due_reason :: "PassFacts \<Rightarrow> string" where
  "not_due_reason facts =
     (if pf_busy facts then ''foreground busy''
      else if pf_gc_waiting_for_event facts then ''complete; waiting for an event''
      else ''quiet window'')"

definition verdict :: "string \<Rightarrow> string \<Rightarrow> GateVerdict" where
  "verdict reason conditions = \<lparr>gv_permitted = (reason = ''''), gv_reason = reason, gv_conditions = conditions\<rparr>"

definition tombstone_gate :: "PassFacts \<Rightarrow> InventoryHorizon option \<Rightarrow> GateVerdict" where
  "tombstone_gate facts inventory = verdict
     (if \<not> pf_garbage_due facts then ''not due''
      else if pf_rebuilt_inventory facts then ''inventory rebuilt this pass''
      else if \<not> catalogue_complete inventory then ''catalogue inventory incomplete''
      else '''')
     (flag ''due'' (pf_garbage_due facts) @ '' '' @ flag ''rebuilt'' (pf_rebuilt_inventory facts) @ '' '' @
      flag ''catalogue_complete'' (catalogue_complete inventory))"

definition control_gate :: "PassFacts \<Rightarrow> InventoryHorizon option \<Rightarrow> GateVerdict" where
  "control_gate facts inventory = verdict
     (if \<not> pf_gc_due facts then not_due_reason facts
      else if pf_rebuilt_inventory facts then ''inventory rebuilt this pass''
      else if \<not> pf_release_view facts then ''no sole accepted head for retention release''
      else if \<not> catalogue_complete inventory then ''catalogue inventory incomplete''
      else if inventory = None then ''no reachability inventory''
      else if \<not> generation_current facts inventory then ''inventory generation behind known''
      else '''')
     (flag ''due'' (pf_gc_due facts) @ '' '' @ flag ''rebuilt'' (pf_rebuilt_inventory facts) @ '' '' @
      flag ''release_view'' (pf_release_view facts) @ '' '' @
      flag ''catalogue_complete'' (catalogue_complete inventory) @ '' '' @
      flag ''control_live'' (inventory \<noteq> None) @ '' '' @
      flag ''generation_current'' (generation_current facts inventory))"

definition data_gate :: "PassFacts \<Rightarrow> InventoryHorizon option \<Rightarrow> GateVerdict" where
  "data_gate facts inventory = verdict
     (if \<not> pf_gc_due facts then not_due_reason facts
      else if pf_rebuilt_inventory facts then ''inventory rebuilt this pass''
      else if \<not> pf_release_view facts then ''no sole accepted head for retention release''
      else if \<not> catalogue_complete inventory then ''catalogue inventory incomplete''
      else case inventory of None \<Rightarrow> ''no reachability inventory''
           | Some h \<Rightarrow> if \<not> generation_current facts inventory
               then ''inventory generation '' @ decimal (unat (ih_generation h)) @ '' behind known '' @
                 decimal (unat (pf_known_generation facts))
               else '''')
     (flag ''due'' (pf_gc_due facts) @ '' '' @ flag ''rebuilt'' (pf_rebuilt_inventory facts) @ '' '' @
      flag ''release_view'' (pf_release_view facts) @ '' '' @
      flag ''catalogue_complete'' (catalogue_complete inventory) @ '' '' @
      flag ''live'' (inventory \<noteq> None) @ '' '' @
      flag ''generation_current'' (generation_current facts inventory))"

lemma not_due_reason_given: "not_due_reason facts \<noteq> ''''"
  by (simp add: not_due_reason_def)

lemma verdict_simps [simp]: "gv_permitted (verdict r c) \<longleftrightarrow> r = ''''" "gv_reason (verdict r c) = r"
  by (simp_all add: verdict_def)

text \<open>
  C10: A destructive gate opens only when every condition its table names holds. Control release and the
  DATA sweep are permitted exactly when collection is due, the inventory was not rebuilt in this pass,
  there is a head to release against and an inventory that is complete and at or past the generation
  this node knows of, and the two gates always agree; tombstones are collected exactly when that is due,
  the inventory was not rebuilt and what there is of it is complete. A shut gate always gives a reason,
  and an open one none.
\<close>

theorem gates_permit:
  "(gv_permitted (control_gate facts inventory) \<longleftrightarrow>
      pf_gc_due facts \<and> \<not> pf_rebuilt_inventory facts \<and> pf_release_view facts \<and>
      (\<exists>h. inventory = Some h \<and> ih_catalogue_complete h \<and> pf_known_generation facts \<le> ih_generation h)) \<and>
   (gv_permitted (data_gate facts inventory) \<longleftrightarrow> gv_permitted (control_gate facts inventory)) \<and>
   (gv_permitted (tombstone_gate facts inventory) \<longleftrightarrow>
      pf_garbage_due facts \<and> \<not> pf_rebuilt_inventory facts \<and>
      (case inventory of None \<Rightarrow> True | Some h \<Rightarrow> ih_catalogue_complete h)) \<and>
   (\<forall>gate \<in> {tombstone_gate, control_gate, data_gate}.
      gv_permitted (gate facts inventory) \<longleftrightarrow> gv_reason (gate facts inventory) = '''')"
  by (cases inventory)
     (simp_all add: tombstone_gate_def control_gate_def data_gate_def not_due_reason_given catalogue_complete_def
       generation_current_def)

definition open_facts :: PassFacts where
  "open_facts = \<lparr>pf_garbage_due = True, pf_gc_due = True, pf_busy = False, pf_gc_waiting_for_event = False,
     pf_rebuilt_inventory = False, pf_release_view = True, pf_known_generation = 4\<rparr>"

definition inventory_at :: "u64 \<Rightarrow> InventoryHorizon" where
  "inventory_at generation = \<lparr>ih_sets = sample_sets, ih_generation = generation, ih_catalogue_complete = True,
     ih_garbage = [], ih_stale_garbage = [], ih_tombstone_batches = []\<rparr>"

theorem gates_permit_witness:
  "gv_permitted (control_gate open_facts (Some (inventory_at 4))) \<and>
   \<not> gv_permitted (control_gate open_facts (Some (inventory_at 3))) \<and> \<not> gv_permitted (data_gate open_facts None)"
  using gates_permit[of open_facts "Some (inventory_at 4)"] gates_permit[of open_facts "Some (inventory_at 3)"]
    gates_permit[of open_facts None]
  by (simp add: open_facts_def inventory_at_def)

end
