(* ===== verification/Retention_Claims.thy ===== *)
theory Retention_Claims
  imports Retention Trie_Write
begin

text \<open>
  What the frames of the retention log do to a store (\<^verbatim>\<open>src/storage/retention.cpp\<close>): each of them is an
  operation on the observed-remove states of the objects it names, the same whether it is applied as
  the store runs or replayed from the log, and what \<^verbatim>\<open>retained\<close> answers is read from those states.
\<close>

section \<open>The states of a store\<close>

type_synonym claim_map = "RetentionClass \<Rightarrow> ObjectId \<Rightarrow> ObjectState option"

definition store_claims :: "RetentionStore \<Rightarrow> claim_map \<Rightarrow> bool" where
  "store_claims s M \<longleftrightarrow> (\<forall>type. ledger_claims (cl_trie (class_for type s)) (M type))"

fun frame_class :: "RetentionFrame \<Rightarrow> RetentionClass" where
  "frame_class (Frame_add type _ _) = type"
| "frame_class (Frame_release type _ _) = type"
| "frame_class (Frame_prune type _) = type"

fun frame_ok :: "RetentionFrame \<Rightarrow> bool" where
  "frame_ok (Frame_add _ dot ids) \<longleftrightarrow> claim_op_ok (Claim_add dot) \<and> (\<forall>i \<in> set ids. id_ok i)"
| "frame_ok (Frame_release _ observed ids) \<longleftrightarrow> claim_op_ok (Claim_release observed) \<and> (\<forall>i \<in> set ids. id_ok i)"
| "frame_ok (Frame_prune _ ids) \<longleftrightarrow> (\<forall>i \<in> set ids. id_ok i)"

fun frame_claims :: "RetentionFrame \<Rightarrow> claim_map \<Rightarrow> claim_map" where
  "frame_claims (Frame_add type dot ids) M = M(type := after_add dot ids (M type))"
| "frame_claims (Frame_release type observed ids) M = M(type := after_release observed ids (M type))"
| "frame_claims (Frame_prune type ids) M = M(type := after_prune ids (M type))"

lemma store_claims_fit: "store_claims s M \<Longrightarrow> M type i = Some st \<Longrightarrow> state_fits st"
  by (auto simp: store_claims_def ledger_claims_def)

lemma claims_fitD: "claims_fit t m \<Longrightarrow> m i = Some st \<Longrightarrow> state_fits st"
  by (simp add: claims_fit_def)

lemma class_for_put [simp]: "class_for type (put_class type' l s) = (if type = type' then l else class_for type s)"
  by (cases type; cases type') (simp_all add: class_for_def put_class_def)

lemma on_trie_apply:
  "on_trie type m s = (case m (cl_trie (class_for type s)) of (r, t) \<Rightarrow>
     (r, put_class type ((class_for type s)\<lparr>cl_trie := t\<rparr>) s))"
  by (simp add: on_trie_def zoomM_apply split: prod.split)

lemma store_claims_put:
  assumes "store_claims s M" "ledger_claims t m"
  shows "store_claims (put_class type ((class_for type s)\<lparr>cl_trie := t\<rparr>) s) (M(type := m))"
  using assms by (simp add: store_claims_def)

lemma class_for_changed [simp]: "class_for type (s\<lparr>rs_changed := n\<rparr>) = class_for type s"
  by (cases type) (simp_all add: class_for_def)

lemma put_class_changed [simp]: "put_class type l (put_class type l' s) = put_class type l s"
  by (cases type) (simp_all add: put_class_def)

text \<open>Editing the records of one class: the changes found, then installed.\<close>

lemma apply_edit:
  assumes "store_claims s M" "foldM step [] ids (cl_trie (class_for type s)) = (Inr changes, t1)"
    "trie_install changes t1 = (Inr (), t2)" "ledger_claims t2 m"
  shows "\<exists>s'. bindM (on_trie type (foldM step [] ids)) (apply_changes type) s = (Inr (length changes), s') \<and>
    store_claims s' (M(type := m))"
proof -
  let ?s1 = "put_class type ((class_for type s)\<lparr>cl_trie := t1\<rparr>) s"
  let ?s2 = "?s1\<lparr>rs_changed := rs_changed ?s1 + length changes\<rparr>"
  let ?s3 = "put_class type ((class_for type ?s2)\<lparr>cl_trie := t2\<rparr>) ?s2"
  have "bindM (on_trie type (foldM step [] ids)) (apply_changes type) s = (Inr (length changes), ?s3)"
    using assms(2,3) by (simp add: bindM_def on_trie_apply apply_changes_def)
  moreover have "store_claims ?s3 (M(type := m))" using assms(1,4) by (simp add: store_claims_def)
  ultimately show ?thesis by blast
qed

section \<open>Each frame\<close>

lemma liftM_bindM [simp]: "liftM (Inr x) s = (Inr x, s)" "liftM (Inl e) s = (Inl e, s)"
  by (simp_all add: liftM_def)

definition decide_add :: "RetentionDot \<Rightarrow> Bytes option \<Rightarrow> Bytes option option result" where
  "decide_add dot r = bindR (case r of None \<Rightarrow> Inr ObjectState_0 | Some b \<Rightarrow> decode_state b) (\<lambda>st.
     case add_to_state dot st of None \<Rightarrow> Inr None | Some st' \<Rightarrow> bindR (encode_state st') (\<lambda>b. Inr (Some (Some b))))"

definition decide_release :: "RetentionClock \<Rightarrow> Bytes option \<Rightarrow> Bytes option option result" where
  "decide_release observed r = (case r of None \<Rightarrow> Inr None | Some b \<Rightarrow> bindR (decode_state b) (\<lambda>st.
     case release_from_state observed st of None \<Rightarrow> Inr None | Some st' \<Rightarrow> bindR (encode_state st') (\<lambda>b. Inr (Some (Some b)))))"

definition decide_prune :: "Bytes option \<Rightarrow> Bytes option option result" where
  "decide_prune r = (case r of None \<Rightarrow> Inr None | Some b \<Rightarrow> if \<not> claimed b then Inr (Some None) else Inr None)"

lemma add_change_step: "add_change dot acc i t =
    bindM (trie_get i) (\<lambda>r. bindM (liftM (decide_add dot r)) (\<lambda>c. retM (acc @ opt_change i c))) t"
  unfolding add_change_def
  by (rule bindM_cong) (auto simp: decide_add_def bindM_def liftM_def bindR_def opt_change_def split: sum.split option.split)

lemma release_change_step: "release_change observed acc i t =
    bindM (trie_get i) (\<lambda>r. bindM (liftM (decide_release observed r)) (\<lambda>c. retM (acc @ opt_change i c))) t"
  unfolding release_change_def
  by (rule bindM_cong) (auto simp: decide_release_def bindM_def liftM_def bindR_def opt_change_def split: sum.split option.split)

lemma prune_change_step: "prune_change acc i t =
    bindM (trie_get i) (\<lambda>r. bindM (liftM (decide_prune r)) (\<lambda>c. retM (acc @ opt_change i c))) t"
  unfolding prune_change_def
  by (rule bindM_cong) (auto simp: decide_prune_def bindM_def liftM_def opt_change_def split: option.split)

lemma decide_add_claims:
  assumes st: "\<And>st. m = Some st \<Longrightarrow> state_fits st" and dot: "claim_op_ok (Claim_add dot)"
    and new: "state_fits (apply_claim (Claim_add dot) (case m of None \<Rightarrow> ObjectState_0 | Some st \<Rightarrow> st))"
  shows "\<exists>c. decide_add dot (map_option enc_state m) = Inr c \<and>
    Some (enc_state (apply_claim (Claim_add dot) (case m of None \<Rightarrow> ObjectState_0 | Some st \<Rightarrow> st))) =
      (case c of None \<Rightarrow> map_option enc_state m | Some v \<Rightarrow> v)"
proof -
  let ?st = "case m of None \<Rightarrow> ObjectState_0 | Some st \<Rightarrow> st"
  have d: "(case map_option enc_state m of None \<Rightarrow> Inr ObjectState_0 | Some b \<Rightarrow> decode_state b) = Inr ?st"
    using st by (cases m) (simp_all add: state_fits_codec)
  have fresh: "add_to_state dot ObjectState_0 \<noteq> None"
    using dot by (simp add: add_to_state_def ObjectState_0_def claim_op_ok_def)
  show ?thesis
  proof (cases "add_to_state dot ?st")
    case None
    with fresh obtain st' where "m = Some st'" by (cases m) auto
    with None d show ?thesis by (simp add: decide_add_def apply_claim_def)
  next
    case (Some st')
    then have "encode_state st' = Inr (enc_state st')" using new by (simp add: apply_claim_def state_fits_codec)
    with Some d show ?thesis by (simp add: decide_add_def apply_claim_def)
  qed
qed

lemma decide_release_claims:
  assumes st: "\<And>st. m = Some st \<Longrightarrow> state_fits st"
    and new: "\<And>st. m = Some st \<Longrightarrow> state_fits (apply_claim (Claim_release observed) st)"
  shows "\<exists>c. decide_release observed (map_option enc_state m) = Inr c \<and>
    map_option enc_state (map_option (apply_claim (Claim_release observed)) m) =
      (case c of None \<Rightarrow> map_option enc_state m | Some v \<Rightarrow> v)"
proof (cases m)
  case (Some s)
  show ?thesis
  proof (cases "release_from_state observed s")
    case None
    with Some st show ?thesis by (simp add: decide_release_def apply_claim_def state_fits_codec)
  next
    case r: (Some st')
    then have "encode_state st' = Inr (enc_state st')" using new[OF Some] by (simp add: apply_claim_def state_fits_codec)
    with Some r st show ?thesis by (simp add: decide_release_def apply_claim_def state_fits_codec)
  qed
qed (simp add: decide_release_def)

lemma decide_prune_claims:
  assumes "\<And>st. m = Some st \<Longrightarrow> state_fits st"
  shows "\<exists>c. decide_prune (map_option enc_state m) = Inr c \<and>
    map_option enc_state (if os_adds (case m of None \<Rightarrow> ObjectState_0 | Some st \<Rightarrow> st) = [] then None else m) =
      (case c of None \<Rightarrow> map_option enc_state m | Some v \<Rightarrow> v)"
  using assms by (cases m) (auto simp: decide_prune_def state_fits_codec)

text \<open>The three edits have one shape: a decision for each object named, and the state it leads to.\<close>

lemma frame_edit:
  assumes s: "store_claims s M" and ids: "\<forall>i \<in> set ids. id_ok i"
    and step: "\<And>acc i t'. step acc i t' =
      bindM (trie_get i) (\<lambda>r. bindM (liftM (decide r)) (\<lambda>c. retM (acc @ opt_change i c))) t'"
    and decide: "\<And>i. i \<in> set ids \<Longrightarrow> \<exists>c. decide (map_option enc_state (M type i)) = Inr c \<and>
      map_option enc_state (m i) = (case c of None \<Rightarrow> map_option enc_state (M type i) | Some v \<Rightarrow> v)"
    and other: "\<And>i. i \<notin> set ids \<Longrightarrow> m i = M type i"
    and fits: "claims_fit (cl_trie (class_for type s)) m"
  shows "\<exists>n s'. bindM (on_trie type (foldM step [] (sorted_unique ids))) (apply_changes type) s = (Inr n, s') \<and>
    store_claims s' (M(type := m))"
proof -
  have "\<forall>i. \<exists>c. i \<in> set ids \<longrightarrow> decide (map_option enc_state (M type i)) = Inr c \<and>
      map_option enc_state (m i) = (case c of None \<Rightarrow> map_option enc_state (M type i) | Some v \<Rightarrow> v)"
    using decide by blast
  then obtain d where d: "\<And>i. i \<in> set ids \<Longrightarrow> decide (map_option enc_state (M type i)) = Inr (d i)"
      "\<And>i. i \<in> set ids \<Longrightarrow> map_option enc_state (m i) = (case d i of None \<Rightarrow> map_option enc_state (M type i) | Some v \<Rightarrow> v)"
    by metis
  have M: "ledger_claims (cl_trie (class_for type s)) (M type)" using s by (simp add: store_claims_def)
  have "map_option enc_state (m i) = (if i \<in> set ids then (case d i of None \<Rightarrow> map_option enc_state (M type i) | Some v \<Rightarrow> v)
      else map_option enc_state (M type i))" for i using d(2) other by simp
  from edit_claims[OF M ids step d(1) this fits] obtain t1 t2 changes
    where "foldM step [] (sorted_unique ids) (cl_trie (class_for type s)) = (Inr changes, t1)"
      "trie_install changes t1 = (Inr (), t2)" "ledger_claims t2 m" by auto
  from apply_edit[OF s this] show ?thesis by blast
qed

lemma add_frame_claims:
  assumes s: "store_claims s M" and ok: "frame_ok (Frame_add type dot ids)"
    and fits: "claims_fit (cl_trie (class_for type s)) (after_add dot ids (M type))"
  shows "\<exists>s'. apply_add_locked type dot ids s = (Inr (), s') \<and> store_claims s' (M(type := after_add dot ids (M type)))"
proof -
  have "\<exists>n s'. bindM (on_trie type (foldM (add_change dot) [] (sorted_unique ids))) (apply_changes type) s = (Inr n, s') \<and>
      store_claims s' (M(type := after_add dot ids (M type)))"
  proof (rule frame_edit[OF s _ add_change_step])
    fix i assume i: "i \<in> set ids"
    with claims_fitD[OF fits, of i] have "state_fits (apply_claim (Claim_add dot) (claims_of (M type) i))"
      by (simp add: after_add_def)
    then show "\<exists>c. decide_add dot (map_option enc_state (M type i)) = Inr c \<and> map_option enc_state (after_add dot ids (M type) i) =
        (case c of None \<Rightarrow> map_option enc_state (M type i) | Some v \<Rightarrow> v)"
      using decide_add_claims[of "M type i" dot] store_claims_fit[OF s, of type i] i ok
      by (simp add: after_add_def claims_of_def)
  qed (use ok fits in \<open>auto simp: after_add_def\<close>)
  then obtain n s' where "bindM (on_trie type (foldM (add_change dot) [] (sorted_unique ids))) (apply_changes type) s = (Inr n, s')"
    "store_claims s' (M(type := after_add dot ids (M type)))" by blast
  then show ?thesis using ok
    by (auto simp: apply_add_locked_def claim_op_ok_def bindM_def split: prod.splits sum.splits)
qed

lemma release_frame_claims:
  assumes s: "store_claims s M" and ok: "frame_ok (Frame_release type observed ids)"
    and fits: "claims_fit (cl_trie (class_for type s)) (after_release observed ids (M type))"
  shows "\<exists>n s'. apply_release_locked type observed ids s = (Inr n, s') \<and>
    store_claims s' (M(type := after_release observed ids (M type)))"
  unfolding apply_release_locked_def
proof (rule frame_edit[OF s _ release_change_step])
  fix i assume i: "i \<in> set ids"
  with claims_fitD[OF fits, of i] have "\<And>st. M type i = Some st \<Longrightarrow> state_fits (apply_claim (Claim_release observed) st)"
    by (simp add: after_release_def)
  then show "\<exists>c. decide_release observed (map_option enc_state (M type i)) = Inr c \<and>
      map_option enc_state (after_release observed ids (M type) i) =
      (case c of None \<Rightarrow> map_option enc_state (M type i) | Some v \<Rightarrow> v)"
    using decide_release_claims[of "M type i" observed] store_claims_fit[OF s, of type i] i by (simp add: after_release_def)
qed (use ok fits in \<open>auto simp: after_release_def\<close>)

lemma prune_frame_claims:
  assumes s: "store_claims s M" and ok: "frame_ok (Frame_prune type ids)"
    and fits: "claims_fit (cl_trie (class_for type s)) (after_prune ids (M type))"
  shows "\<exists>n s'. apply_prune_locked type ids s = (Inr n, s') \<and> store_claims s' (M(type := after_prune ids (M type)))"
  unfolding apply_prune_locked_def
proof (rule frame_edit[OF s _ prune_change_step])
  fix i assume "i \<in> set ids"
  then show "\<exists>c. decide_prune (map_option enc_state (M type i)) = Inr c \<and> map_option enc_state (after_prune ids (M type) i) =
      (case c of None \<Rightarrow> map_option enc_state (M type i) | Some v \<Rightarrow> v)"
    using decide_prune_claims[of "M type i"] store_claims_fit[OF s, of type i] by (simp add: after_prune_def claims_of_def)
qed (use ok fits in \<open>auto simp: after_prune_def\<close>)

lemma apply_frame_claims:
  assumes "store_claims s M" "frame_ok f"
    "claims_fit (cl_trie (class_for (frame_class f) s)) (frame_claims f M (frame_class f))"
  shows "\<exists>s'. apply_frame f s = (Inr (), s') \<and> store_claims s' (frame_claims f M)"
proof (cases f)
  case (Frame_add type dot ids)
  with assms add_frame_claims[of s M type dot ids] show ?thesis by (simp add: apply_frame_def)
next
  case (Frame_release type observed ids)
  with assms release_frame_claims[of s M type observed ids] show ?thesis by (auto simp: apply_frame_def bindM_def)
next
  case (Frame_prune type ids)
  with assms prune_frame_claims[of s M type ids] show ?thesis by (auto simp: apply_frame_def bindM_def)
qed

section \<open>What is retained\<close>

lemma class_get:
  assumes "store_claims s M"
  shows "\<exists>s'. on_trie type (trie_get i) s = (Inr (map_option enc_state (M type i)), s')"
  using assms ledger_get[of "cl_trie (class_for type s)" "\<lambda>i. map_option enc_state (M type i)" i]
  by (auto simp: store_claims_def ledger_claims_def on_trie_apply)

lemma retained_claims:
  assumes "store_claims s M"
  shows "fst (retained type i s) = Inr (os_adds (claims_of (M type) i) \<noteq> [])"
    "fst (claims type i s) = Inr (claims_of (M type) i)"
proof -
  have "\<And>st. M type i = Some st \<Longrightarrow> state_fits st" using assms by (auto simp: store_claims_def ledger_claims_def)
  then show "fst (retained type i s) = Inr (os_adds (claims_of (M type) i) \<noteq> [])"
    "fst (claims type i s) = Inr (claims_of (M type) i)"
    using class_get[OF assms, of type i]
    by (cases "M type i"; auto simp: retained_def claims_def bindM_def claims_of_def state_fits_codec ObjectState_0_def)+
qed

text \<open>
  C11: applying a frame of the retention log succeeds and changes the states of the objects it names
  in the class it names as the observed-remove operations say - an add adds its dot, also to an
  object without a record; a release cuts off what it observed, and makes no record; a prune removes
  the records without a claim and no other - and no other state. An object is then retained exactly
  when its state has an add, and \<^verbatim>\<open>claims\<close> returns that state. The new states must fit the trie.
\<close>

theorem frames_apply_claims:
  assumes "store_claims s M" "frame_ok f"
    "claims_fit (cl_trie (class_for (frame_class f) s)) (frame_claims f M (frame_class f))"
  shows "\<exists>s'. apply_frame f s = (Inr (), s') \<and> store_claims s' (frame_claims f M) \<and>
    (\<forall>type i. fst (retained type i s') = Inr (os_adds (claims_of (frame_claims f M type) i) \<noteq> []) \<and>
              fst (claims type i s') = Inr (claims_of (frame_claims f M type) i))"
  using apply_frame_claims[OF assms] retained_claims by blast

definition empty_store :: RetentionStore where
  "empty_store =
     (let l = \<lparr>cl_trie = empty_ledger, cl_release_after = None, cl_prune_after = None\<rparr>
      in \<lparr>rs_key = [], rs_data = l, rs_control = l, rs_changed = 0, rs_journal = ot_journal empty_ledger,
          rs_files = \<lparr>rf_current = None, rf_meta = None, rf_shards = (\<lambda>_ _. None), rf_ledger = True\<rparr>\<rparr>)"

theorem frames_apply_claims_witness:
  "\<exists>s'. apply_frame (Frame_add Class_data \<lparr>dot_origin = node_a, dot_sequence = 5\<rparr> [replicate 32 7]) empty_store = (Inr (), s') \<and>
    fst (retained Class_data (replicate 32 7) s') = Inr True \<and> fst (retained Class_control (replicate 32 7) s') = Inr False"
proof -
  let ?f = "Frame_add Class_data \<lparr>dot_origin = node_a, dot_sequence = 5\<rparr> [replicate 32 7]"
  let ?st = "\<lparr>os_adds = [(node_a, 5)], os_removed = []\<rparr>"
  have st: "apply_claim (Claim_add \<lparr>dot_origin = node_a, dot_sequence = 5\<rparr>) ObjectState_0 = ?st"
    by (simp add: apply_claim_def add_to_state_def ObjectState_0_def node_a_def NodeId0_def Let_def)
  have fc: "frame_claims ?f (\<lambda>_ _. None) Class_data = [replicate 32 7 \<mapsto> ?st]"
    by (auto simp: after_add_def claims_of_def st)
  have sf: "state_fits ?st"
    by (simp add: state_fits_def state_ok_def clocks_ok_def omap_ok_def node_a_def NodeId0_def clock_at_def
        enc_state_def enc_side_def enc_clock_def value_max_def)
  have "segment_ok 0 [(replicate 32 7, enc_state ?st)]"
    using sf by (simp add: segment_ok_def records_ok_def record_ok_def id_ok_def same_prefix_def spread_def leaf_max_def state_fits_def)
  then have "ledger_fits empty_ledger (map_of [(replicate 32 7, enc_state ?st)])" by (rule empty_ledger_fits) simp
  then have fits: "claims_fit empty_ledger [replicate 32 7 \<mapsto> ?st]"
    using sf by (auto simp: claims_fit_def fun_upd_def if_distrib[of "map_option enc_state"] cong: if_cong)
  have "store_claims empty_store (\<lambda>_ _. None)"
    using empty_ledger_stands by (auto simp: store_claims_def ledger_claims_def empty_store_def class_for_def Let_def split: RetentionClass.split)
  moreover have "frame_ok ?f" by (simp add: claim_op_ok_def node_a_def NodeId0_def id_ok_def)
  moreover have "claims_fit (cl_trie (class_for (frame_class ?f) empty_store)) (frame_claims ?f (\<lambda>_ _. None) (frame_class ?f))"
    using fits fc by (simp add: empty_store_def class_for_def Let_def)
  ultimately show ?thesis using frames_apply_claims[of empty_store "\<lambda>_ _. None" ?f] fc
    by (auto simp: claims_of_def ObjectState_0_def after_add_def)
qed

section \<open>The log\<close>

text \<open>What the operations append to the log for each frame, and the counts a frame may have.\<close>

fun encode_frame :: "RetentionFrame \<Rightarrow> Bytes" where
  "encode_frame (Frame_add type dot ids) = encode_add type dot ids"
| "encode_frame (Frame_release type observed ids) = encode_release type observed ids"
| "encode_frame (Frame_prune type ids) = encode_prune type ids"

fun frame_counts_ok :: "RetentionFrame \<Rightarrow> bool" where
  "frame_counts_ok (Frame_add _ _ ids) \<longleftrightarrow> length ids \<le> 1000000"
| "frame_counts_ok (Frame_release _ observed ids) \<longleftrightarrow> length observed \<le> 1000000 \<and> length ids \<le> 1000000"
| "frame_counts_ok (Frame_prune _ ids) \<longleftrightarrow> length ids \<le> 1000000"

definition enc_ids :: "ObjectId list \<Rightarrow> Bytes" where
  "enc_ids ids = enc_u32 (of_nat (length ids)) @ concat ids"

lemma foldl_writer_fixed: "foldl writer_fixed w ids = w @ concat ids"
  by (induction ids arbitrary: w) (simp_all add: writer_simps)

lemma write_ids_eq: "write_ids w ids = w @ enc_ids ids"
  by (simp add: write_ids_def enc_ids_def foldl_writer_fixed writer_simps)

lemma bindM_assoc: "bindM (bindM m f) g = bindM m (\<lambda>x. bindM (f x) g)"
  by (rule ext) (simp add: bindM_def split: prod.split sum.split)

lemma ret_bindM: "bindM (retM x) f = f x"
  by (rule ext) (simp add: bindM_def)

lemma unat_million: "n \<le> 1000000 \<Longrightarrow> unat (of_nat n :: u32) = n"
  by (simp add: unat_of_nat take_bit_nat_eq_self)

lemma reads_all_ids:
  assumes "\<forall>i \<in> set ids. id_ok i" "length ids \<le> 1000000"
  shows "reads_all (bindM (read_ids what) (\<lambda>ids. retM (f ids))) (enc_ids ids) (f ids)"
proof -
  have r: "reads (repeatM (length ids) (reader_fixed 32)) (concat ids) ids"
    using fixed32c.reads_repeat[of ids] assms(1) by (simp add: list_all_iff id_ok_def)
  have "reads_all (bindM (repeatM (length ids) (reader_fixed 32)) (\<lambda>ids. bindM reader_finish (\<lambda>_. retM (f ids))))
      (concat ids @ []) (f ids)"
    by (rule reads_all_bind[OF r], rule reads_all_finish) simp
  then have "reads_all (bindM reader_u32 (\<lambda>count. bindM
      (if unat count > 1000000 then raiseM (DecodeError (''too many retention '' @ what @ '' objects''))
       else bindM (repeatM (unat count) (reader_fixed 32)) (\<lambda>ids. bindM reader_finish (\<lambda>_. retM ids))) (\<lambda>ids. retM (f ids))))
      (enc_ids ids) (f ids)"
    unfolding enc_ids_def
    by (intro reads_all_bind[OF reads_u32]) (simp only: unat_million[OF assms(2)] leD[OF assms(2)] if_False bindM_assoc ret_bindM append_Nil2)
  then show ?thesis by (simp add: read_ids_def bindM_assoc)
qed

lemma class_roundtrip [simp]: "valid_class (class_code type)" "class_of (class_code type) = type"
  by (cases type; simp add: valid_class_def class_of_def class_code_def)+

lemma reads_retention_frame:
  assumes "frame_ok f" "frame_counts_ok f"
  shows "reads_all read_retention_frame (encode_frame f) f"
proof (cases f)
  case (Frame_add type dot ids)
  have o: "length (dot_origin dot) = 16" using assms Frame_add by (simp add: claim_op_ok_def)
  have "reads_all read_retention_frame (enc_u8 code_add @ enc_u8 (class_code type) @ dot_origin dot @
      enc_u64 (dot_sequence dot) @ enc_ids ids) (Frame_add type dot ids)"
    unfolding read_retention_frame_def
    by (rule reads_all_bind[OF reads_u8], rule reads_all_bind[OF reads_u8], simp only: class_roundtrip not_True_eq_False if_False refl if_True,
        rule reads_all_bind[OF reads_fixed[OF o]], rule reads_all_bind[OF reads_u64])
       (use reads_all_ids[of ids "''add''" "\<lambda>ids. Frame_add type dot ids"] assms Frame_add in \<open>cases dot; simp\<close>)
  with Frame_add show ?thesis by (simp add: encode_add_def write_ids_eq writer_simps)
next
  case (Frame_release type observed ids)
  have c: "clocks_ok observed" "length observed \<le> 1000000" using assms Frame_release by (simp_all add: claim_op_ok_def)
  have n: "code_release \<noteq> code_add" by (simp add: code_release_def code_add_def)
  have "reads_all read_retention_frame (enc_u8 code_release @ enc_u8 (class_code type) @ enc_u32 (of_nat (length observed)) @
      concat (map enc_clock observed) @ enc_ids ids) (Frame_release type observed ids)"
    unfolding read_retention_frame_def
    by (rule reads_all_bind[OF reads_u8], rule reads_all_bind[OF reads_u8], simp only: class_roundtrip not_True_eq_False n if_False refl if_True,
        rule reads_all_bind[OF reads_u32], simp only: unat_million[OF c(2)] not_less[symmetric],
        rule reads_all_if, use c(2) in simp, rule reads_all_bind[OF reads_clock_map[OF c(1)]])
       (use reads_all_ids[of ids "''release''" "\<lambda>ids. Frame_release type observed ids"] assms Frame_release in simp)
  with Frame_release show ?thesis by (simp add: encode_release_def write_ids_eq writer_simps foldl_write_clock)
next
  case (Frame_prune type ids)
  have n: "code_prune \<noteq> code_add" "code_prune \<noteq> code_release" by (simp_all add: code_prune_def code_release_def code_add_def)
  have "reads_all read_retention_frame (enc_u8 code_prune @ enc_u8 (class_code type) @ enc_ids ids) (Frame_prune type ids)"
    unfolding read_retention_frame_def
    by (rule reads_all_bind[OF reads_u8], rule reads_all_bind[OF reads_u8], simp only: class_roundtrip not_True_eq_False n if_False refl if_True)
       (use reads_all_ids[of ids "''prune''" "\<lambda>ids. Frame_prune type ids"] assms Frame_prune in simp)
  with Frame_prune show ?thesis by (simp add: encode_prune_def write_ids_eq writer_simps)
qed

text \<open>
  C36: a frame the store appends to its log is replayed as the operation it was written for: decoding
  the bytes of an add, a release or a prune gives back its class, its dot or clock and its objects,
  and the replay applies it to the store it is given.
\<close>

theorem logged_frames_replay:
  assumes "frame_ok f" "frame_counts_ok f"
  shows "replay_retention_frame (encode_frame f) s = apply_frame f s"
  using reads_all_reader[OF reads_retention_frame[OF assms]] by (simp add: replay_retention_frame_def bindM_def)

theorem logged_frames_replay_witness:
  "replay_retention_frame (encode_release Class_control [(node_a, 3)] [replicate 32 7]) empty_store =
   apply_frame (Frame_release Class_control [(node_a, 3)] [replicate 32 7]) empty_store"
proof -
  have "frame_ok (Frame_release Class_control [(node_a, 3)] [replicate 32 7])"
    by (simp add: claim_op_ok_def clocks_ok_def omap_ok_def node_a_def NodeId0_def id_ok_def)
  from logged_frames_replay[OF this, of empty_store] show ?thesis by simp
qed

section \<open>Replaying the log over a checkpoint\<close>

text \<open>
  A crash between the checkpoint of the tries and the reset of the log leaves a log whose frames are
  already in the tries. The operations of a log on one object, without prunes; a release only names
  objects that have a record, as the operations that write one do.
\<close>

definition log_claims :: "RetentionFrame list \<Rightarrow> claim_map \<Rightarrow> claim_map" where
  "log_claims fs M = foldl (\<lambda>M f. frame_claims f M) M fs"

fun frame_ops :: "RetentionClass \<Rightarrow> ObjectId \<Rightarrow> RetentionFrame \<Rightarrow> ClaimOp list" where
  "frame_ops type i (Frame_add t dot ids) = (if t = type \<and> i \<in> set ids then [Claim_add dot] else [])"
| "frame_ops type i (Frame_release t observed ids) = (if t = type \<and> i \<in> set ids then [Claim_release observed] else [])"
| "frame_ops type i (Frame_prune t ids) = []"

definition log_ops :: "RetentionFrame list \<Rightarrow> RetentionClass \<Rightarrow> ObjectId \<Rightarrow> ClaimOp list" where
  "log_ops fs type i = concat (map (frame_ops type i) fs)"

fun frame_known :: "RetentionFrame \<Rightarrow> claim_map \<Rightarrow> bool" where
  "frame_known (Frame_add _ _ _) M \<longleftrightarrow> True"
| "frame_known (Frame_release type _ ids) M \<longleftrightarrow> (\<forall>i \<in> set ids. M type i \<noteq> None)"
| "frame_known (Frame_prune _ _) M \<longleftrightarrow> False"

fun log_known :: "RetentionFrame list \<Rightarrow> claim_map \<Rightarrow> bool" where
  "log_known [] M \<longleftrightarrow> True"
| "log_known (f # fs) M \<longleftrightarrow> frame_known f M \<and> log_known fs (frame_claims f M)"

lemma log_simps [simp]:
  "log_claims [] M = M" "log_claims (f # fs) M = log_claims fs (frame_claims f M)"
  "log_ops [] type i = []" "log_ops (f # fs) type i = frame_ops type i f @ log_ops fs type i"
  by (simp_all add: log_claims_def log_ops_def)

lemma frame_claims_ops:
  assumes "frame_known f M"
  shows "frame_claims f M type i = (if M type i = None \<and> frame_ops type i f = [] then None
    else Some (apply_claims (frame_ops type i f) (claims_of (M type) i)))"
  using assms
  by (cases f; cases "type = frame_class f"; cases "M type i") (force simp: after_add_def after_release_def claims_of_def)+

lemma apply_claims_append: "apply_claims (ops @ ops') st = apply_claims ops' (apply_claims ops st)"
  by (simp add: apply_claims_def)

lemma log_claims_ops:
  assumes "log_known fs M"
  shows "log_claims fs M type i = (if M type i = None \<and> log_ops fs type i = [] then None
    else Some (apply_claims (log_ops fs type i) (claims_of (M type) i)))"
  using assms
proof (induction fs arbitrary: M)
  case Nil
  then show ?case by (auto simp: claims_of_def)
next
  case (Cons f fs)
  then have known: "frame_known f M" "log_known fs (frame_claims f M)" by simp_all
  have c: "claims_of (frame_claims f M type) i = apply_claims (frame_ops type i f) (claims_of (M type) i)"
    by (simp add: claims_of_def frame_claims_ops[OF known(1)])
  have n: "frame_claims f M type i = None \<longleftrightarrow> M type i = None \<and> frame_ops type i f = []"
    by (simp add: frame_claims_ops[OF known(1)])
  show ?case by (simp add: Cons.IH[OF known(2)] c n apply_claims_append conj_assoc)
qed

text \<open>The objects a log without prunes names all have a record after it, so it can be replayed.\<close>

lemma log_known_again:
  assumes "\<forall>f \<in> set fs. frame_known f M'" "\<forall>type i. M' type i \<noteq> None \<longrightarrow> N type i \<noteq> None"
  shows "log_known fs N"
  using assms
proof (induction fs arbitrary: N)
  case (Cons f fs)
  have k: "frame_known f N" using Cons.prems by (cases f) auto
  have "frame_claims f N type i \<noteq> None" if "M' type i \<noteq> None" for type i
    using frame_claims_ops[OF k, of type i] Cons.prems(2)[rule_format, OF that] by simp
  with Cons k show ?case by simp
qed simp

lemma log_known_frames:
  assumes "log_known fs M" "f \<in> set fs"
  shows "frame_known f (log_claims fs M)"
proof (cases f)
  case (Frame_release type observed ids)
  have "log_ops fs type i \<noteq> []" if "i \<in> set ids" for i
    using assms(2) that Frame_release by (auto simp: log_ops_def intro!: bexI[of _ f])
  then show ?thesis using log_claims_ops[OF assms(1)] Frame_release by simp
next
  case (Frame_prune type ids)
  have "\<not> frame_known f N" for N using Frame_prune by simp
  with assms show ?thesis by (induction fs arbitrary: M) auto
qed simp

lemma replay_idempotent:
  assumes "log_known fs M" "list_all frame_ok fs" "\<And>type i st. M type i = Some st \<Longrightarrow> state_ok st"
  shows "log_claims fs (log_claims fs M) = log_claims fs M"
proof (intro ext)
  fix type i
  let ?ops = "log_ops fs type i" and ?st = "claims_of (M type) i"
  have again: "log_known fs (log_claims fs M)"
    using log_known_frames[OF assms(1)] by (intro log_known_again[of fs "log_claims fs M"]) auto
  have "\<forall>op \<in> set (frame_ops type i f). claim_op_ok op" if "frame_ok f" for f using that by (cases f) auto
  then have ops: "list_all claim_op_ok ?ops" using assms(2) by (auto simp: log_ops_def list_all_iff)
  have "state_ok ?st" using assms(3) by (cases "M type i") (auto simp: claims_of_def ObjectState_0_ok)
  then have "apply_claims ?ops (apply_claims ?ops ?st) = apply_claims ?ops ?st"
    using apply_claims_set[of "?ops @ ?ops" ?ops ?st] ops by (simp add: apply_claims_append)
  then show "log_claims fs (log_claims fs M) type i = log_claims fs M type i"
    using log_claims_ops[OF again, of type i] log_claims_ops[OF assms(1), of type i]
    by (cases "log_claims fs M type i") (simp_all add: claims_of_def split: if_splits)
qed

text \<open>
  With a prune it is not idempotent. An add that a release had already cut off changes nothing; the
  object's record is then pruned, and with it the cut. Replayed over that, the same add claims the
  object and the prune leaves it.
\<close>

lemma replay_with_prune_differs:
  "let cut = (\<lambda>_. [i \<mapsto> \<lparr>os_adds = [], os_removed = [(node_a, 10)]\<rparr>]);
       fs = [Frame_add Class_data \<lparr>dot_origin = node_a, dot_sequence = 5\<rparr> [i], Frame_prune Class_data [i]]
   in log_claims fs cut Class_data (i) = None \<and>
      os_adds (claims_of (log_claims fs (log_claims fs cut) Class_data) (i)) = [(node_a, 5)]"
  by (simp add: Let_def after_add_def after_prune_def claims_of_def apply_claim_def add_to_state_def ObjectState_0_def
      node_a_def NodeId0_def)

end
