(* ===== verification/Spec2Isabelle.thy ===== *)
theory Spec2Isabelle
  imports Placement Trie_Wire Trie_Union Retention Unreferenced_Since Reference_Counts Held_Ledger Availability Gates Retention_Claims
begin

text \<open>
  A verification library for the object ledger of macha, a distributed media filesystem: which objects
  a node holds, refers to and may delete, how that is kept on disk across crashes, how two nodes
  compare it, and on which nodes the copies of an object go.

  \<^bold>\<open>The program's parts.\<close> An object is a block of bytes named by its SHA-256. A node appends to sealed
  (encrypted and authenticated) journals; on them stands the object trie, a radix-256 trie of records
  keyed by object id, with a hash for every subtree. Tries hold what a store holds (held ledger), what
  the namespace refers to (reference counts) and who claims each object (retention store). Nodes
  compare tries by descending where the hashes differ; a survey of the peers finds what nobody holds.
  From a head of the metadata the maintenance pass builds horizons, and behind three gates it
  releases claims and deletes what has stayed unreferenced for a grace. Placement chooses the nodes of
  an object.

  \<^bold>\<open>How the code is modelled.\<close> An operation that changes a state \<open>'s\<close> and returns an \<open>'a\<close> is an
  \<open>('s, 'a) prog\<close>, a function from a state to an error or a value and the new state (\<open>Prelude\<close>). Every
  throw is a value of \<open>error\<close>, the effects before it are kept, and what C++ leaves undefined is the
  error \<open>UndefinedBehaviour\<close>. Integers keep their width (\<open>u8\<close> to \<open>u64\<close> are words), a vector is a list, a
  \<^verbatim>\<open>std::map\<close> a sorted association list, and a class a record of its members. A file is its bytes with a
  prefix that is durable; a crash keeps the durable prefix and any part of the rest. OpenSSL is the
  record \<open>crypto\<close>, a parameter; \<open>crypto_ok\<close> says that digests have 32 bytes and that opening what was
  sealed gives it back. Where hashes are compared, SHA-256 is assumed injective on the messages hashed.

  \<^bold>\<open>Theories\<close> (paths under \<^verbatim>\<open>src/\<close>):

  \<^item> \<open>Types\<close>, \<open>Codec\<close>: \<^verbatim>\<open>types.{hpp,cpp}\<close>, \<^verbatim>\<open>codec.{hpp,cpp}\<close>. Ids, node descriptions, the Reader and the
    Writer. The locale \<open>codec\<close> is the interface of an encoder and its decoder (what is written is read,
    and no proper prefix of it is); every primitive is an instance.
  \<^item> \<open>Sealed_Journal\<close>: \<^verbatim>\<open>storage/sealed_journal.{hpp,cpp}\<close> and what it uses of \<^verbatim>\<open>crypto.cpp\<close>. What an append
    that returned wrote survives any crash; a replay applies a leading part with everything durable
    and cuts the file there; frames stay readable at their offsets; oversized frames are refused.
  \<^item> \<open>Node_Cache\<close>, \<open>Trie_Node\<close>, \<open>Object_Trie\<close>: \<^verbatim>\<open>ledger/object_trie.{hpp,cpp}\<close>, operation by operation: the cache,
    the nodes with their hashes and bytes, loading, changing, saving, checkpoints, opening.
  \<^item> \<open>Trie_Shape\<close>, \<open>Trie_Reading\<close>, \<open>Trie_Snapshot\<close>, \<open>Trie_Update\<close>, \<open>Trie_Save\<close>, \<open>Trie_Ledger\<close>, \<open>Trie_Write\<close>: the trie
    against its specification, a sorted list of records or a finite map. The count and hash depend on
    the records alone, and equal ones mean equal records; lookups and pages read those records from
    memory, cache or file; installing changes updates the map, also through checkpoints and new node
    files; writes are journaled. Locales: \<open>frame_store\<close> and \<open>frame_log\<close> (files of frames), \<open>trie_loader\<close>
    (loading a child), \<open>record_ledger\<close> (a ledger of records a client edits), each instantiated on the code.
  \<^item> \<open>Trie_Diff\<close>, \<open>Trie_Wire\<close>, \<open>Trie_Union\<close>: \<^verbatim>\<open>ledger/trie_diff.{hpp,cpp}\<close>, \<^verbatim>\<open>ledger/trie_union.{hpp,cpp}\<close>. The descent ends
    and visits exactly the differing records, each once, in at most 64 rounds; the messages round-trip;
    a union of snapshots answers every question as the trie of the merged records would, and can be
    compared like one. Locales: \<open>trie_source\<close>, \<open>trie_diff\<close>, \<open>record_pager\<close>.
  \<^item> \<open>Placement\<close>: \<^verbatim>\<open>cluster/placement.{hpp,cpp}\<close>. Quotas add up and never exceed a node, sampling gives each its
    share, the nodes tried are a permutation that starts with different failure domains, and removing
    a node moves nothing else. The arithmetic is that of 64 and 128-bit words, shown equal to exact
    arithmetic (\<open>exact_shard_quotas\<close>, \<open>exact_sample_loop\<close>).
  \<^item> \<open>Retention_State\<close>, \<open>Retention\<close>, \<open>Retention_Claims\<close>: \<^verbatim>\<open>storage/retention.{hpp,cpp}\<close>, \<^verbatim>\<open>contract/claim_store.hpp\<close>. An object's
    claims are its newest adds no release covers, in whatever order they came; the frames of the log
    do to the store what those operations say, and a logged frame is replayed as itself.
  \<^item> \<open>Unreferenced_Since\<close>, \<open>Reference_Counts\<close>, \<open>Held_Ledger\<close>: \<^verbatim>\<open>storage/unreferenced_since.{hpp,cpp}\<close>,
    \<^verbatim>\<open>ledger/reference_counts.{hpp,cpp}\<close>, \<^verbatim>\<open>ledger/held_ledger.{hpp,cpp}\<close>. An object matures exactly when
    a sighting of its unbroken run is a grace old; the counts are the multiset of references or the change is refused whole; a seeded ledger answers as the
    store, for every interleaving of the steps of a seed with changes and flushes (an inductive step
    relation).
  \<^item> \<open>Id_Lookup\<close>, \<open>Availability\<close>, \<open>Horizon\<close>, \<open>Gates\<close>: \<^verbatim>\<open>contract/id_lookup.hpp\<close>, \<^verbatim>\<open>ledger/availability.{hpp,cpp}\<close>,
    \<^verbatim>\<open>contract/horizon.{hpp,cpp}\<close>, \<^verbatim>\<open>contract/gates.{hpp,cpp}\<close>. A survey reports exactly what no peer holds, and nothing as
    unavailable when a peer failed (locale \<open>peer_survey\<close>); the referenced set is the union of its parts;
    a gate is open exactly under its documented conditions.

  \<^bold>\<open>Bounds and fuel.\<close> Most loops are structural or have a termination proof. Loading a path takes fuel
  \<open>load_fuel\<close> = 34 because a trie is at most 32 deep. Loops that page through a ledger take one page more
  than its records fill. The properties show that a result is returned; running out of fuel would be
  the error \<open>OutOfFuel\<close>. Hypotheses of size (\<open>room\<close>: a node file below 2^62 bytes, at most 2^32 records, a
  generation left) keep the 64-bit counters from wrapping; the quotas are exact for up to 2^32 entities
  (\<open>shard_quotas_unat\<close>). \<open>spread\<close> says that no more than 128 ids share
  their first 31 bytes: deeper leaves are written and then refused (\<open>deepest_leaf_unreadable\<close>).

  \<^bold>\<open>Not modelled.\<close> Mutexes and threads: an operation under one lock is one step, and where the code gives
  up a lock in between it is several. Failing system calls, except a failed save of the sightings; log
  lines. Key derivation and X25519. The rest of the program (metadata and namespace, object files,
  network and membership, FUSE, HTTP and API, accounts, catalogue, media, playback, torrents,
  configuration) is sockets, kernel interfaces, threads and third-party libraries around the ledger,
  or builds on the metadata; the ledger sees a peer as a source that may fail, a store as a set of
  ids, and a head as the references it lists.
\<close>

end
